(* ===== verification/Hypnos_Prelude.thy ===== *)
theory Hypnos_Prelude
  imports Main "HOL-Library.Word" "HOL-Library.Monad_Syntax"
begin

text \<open>
  The prelude of the development: the machine integer types of the kernel (a 32-bit x86
  build, so \<open>int\<close>, \<open>size_t\<close> and pointers have 32 bits), the theorem collections that
  carry the component proofs, and generic facts on lists, options and words.

  A function of the kernel that can only be defined when its pointers are valid, its
  divisors are not zero and its loops end has a result of type \<open>'a option\<close>: \<open>None\<close>
  stands for undefined behaviour (a wild dereference, a write out of bounds, a division by
  zero) or for a loop that never ends. An error that the C code reports is an ordinary
  value, the code's own return value, inside \<open>Some\<close>.
\<close>

unbundle bit_operations_syntax

type_synonym u8 = "8 word"
type_synonym u16 = "16 word"
type_synonym u32 = "32 word"
type_synonym u64 = "64 word"

text \<open>A pointer is a 32-bit address and \<open>NULL\<close> is the address 0.\<close>

type_synonym ptr = u32

abbreviation NULL :: ptr where
  "NULL \<equiv> 0"

text \<open>
  \<open>frame_simps\<close> collects the facts that an operation leaves a field of the state alone,
  \<open>step_simps\<close> the facts that evaluate an operation in a well-formed state.
\<close>

named_theorems frame_simps
named_theorems step_simps

subsection \<open>Options\<close>

lemma bind_SomeE:
  assumes "Option.bind m f = Some y"
  obtains x where "m = Some x" and "f x = Some y"
  using assms by (cases m) auto

subsection \<open>Steps that return\<close>

text \<open>\<open>runs m Q\<close>: the step returns, in a state that satisfies \<open>Q\<close>.\<close>

definition runs :: "'s option \<Rightarrow> ('s \<Rightarrow> bool) \<Rightarrow> bool" where
  "runs m Q \<longleftrightarrow> (\<exists>s. m = Some s \<and> Q s)"

lemma runs_Some [simp]: "runs (Some s) Q = Q s"
  by (simp add: runs_def)

lemma runs_bind: "runs m P \<Longrightarrow> (\<And>s. P s \<Longrightarrow> runs (f s) Q) \<Longrightarrow> runs (m \<bind> f) Q"
  by (auto simp: runs_def)

lemma runs_mono: "runs m P \<Longrightarrow> (\<And>s. P s \<Longrightarrow> Q s) \<Longrightarrow> runs m Q"
  by (auto simp: runs_def)

subsection \<open>Lists\<close>

lemma list_update_append_left:
  "i < length xs \<Longrightarrow> (xs @ ys)[i := v] = xs[i := v] @ ys"
  by (simp add: list_update_append)

lemma distinct_concat_map_iff:
  "distinct (concat (map f (x # xs))) \<longleftrightarrow>
     distinct (f x) \<and> distinct (concat (map f xs)) \<and>
     set (f x) \<inter> set (concat (map f xs)) = {}"
  by auto

lemma takeWhile_eq_self: "(\<And>x. x \<in> set xs \<Longrightarrow> P x) \<Longrightarrow> takeWhile P xs = xs"
  by (simp add: takeWhile_eq_all_conv)

subsection \<open>Words\<close>

lemma unat_add_no_wrap:
  fixes a b :: "'a::len word"
  shows "unat a + unat b < 2 ^ LENGTH('a) \<Longrightarrow> unat (a + b) = unat a + unat b"
  by (simp add: unat_word_ariths)

lemma unat_of_nat32: "n < 2 ^ 32 \<Longrightarrow> unat (of_nat n :: u32) = n"
  by (simp add: unat_of_nat take_bit_nat_eq_self)

lemma unat_u32_bound: "unat (x :: u32) < 4294967296"
  using unsigned_less [of x] by simp

lemma unat_plus_one_less:
  assumes "(i :: 'a::len word) < n"
  shows "unat (i + 1) = Suc (unat i)"
proof -
  have "unat i < unat n" using assms by (simp add: word_less_nat_alt)
  also have "unat n < 2 ^ LENGTH('a)" by (rule unsigned_less)
  finally have "Suc (unat i) < 2 ^ LENGTH('a) \<or> Suc (unat i) = 2 ^ LENGTH('a)" by linarith
  moreover have "Suc (unat i) \<noteq> 2 ^ LENGTH('a)"
    using \<open>unat i < unat n\<close> \<open>unat n < 2 ^ LENGTH('a)\<close> by linarith
  ultimately show ?thesis by (simp add: unat_word_ariths)
qed

lemma word_xor_cancel: "(x XOR k) XOR k = (x :: 'a::len word)"
  by (simp add: xor.assoc)

subsection \<open>Page arithmetic\<close>

lemma and_not_page: "(x :: u32) AND NOT 4095 = push_bit 12 (drop_bit 12 x)"
proof -
  have "x AND NOT (mask 12) = push_bit 12 (drop_bit 12 x)"
    by (auto intro!: bit_eqI simp: bit_simps)
  moreover have "mask 12 = (4095 :: u32)" by (simp add: mask_eq_exp_minus_1)
  ultimately show ?thesis by metis
qed

lemma unat_and_not_page: "unat ((x :: u32) AND NOT 4095) = unat x div 4096 * 4096"
proof -
  have "unat (x AND NOT 4095) = take_bit 32 (push_bit 12 (unat x div 4096))"
    unfolding and_not_page by (simp add: unsigned_push_bit_eq unsigned_drop_bit_eq drop_bit_eq_div unat_div)
  moreover have "push_bit 12 (unat x div 4096) = unat x div 4096 * 4096"
    by (simp add: push_bit_eq_mult)
  moreover have "unat x div 4096 * 4096 < 2 ^ 32"
    using unat_u32_bound [of x] by simp
  ultimately show ?thesis by (simp add: take_bit_nat_eq_self)
qed

lemma unat_and_page: "unat ((x :: u32) AND 4095) = unat x mod 4096"
proof -
  have "(4095 :: u32) = mask 12" by (simp add: mask_eq_exp_minus_1)
  then have "x AND 4095 = take_bit 12 x" by (simp add: take_bit_eq_mask)
  then show ?thesis by (simp add: take_bit_eq_mod unat_mod)
qed

end
