(* ===== verification/CString.thy ===== *)
theory CString
  imports Hypnos_Prelude "HOL-Library.Sublist"
begin

text \<open>
  The string routines that every part of the kernel carries its own copy of
  (\<open>kstrcmp\<close>, \<open>kstrncmp\<close>, \<open>kstrlen\<close>, \<open>kstrncpy\<close>, \<open>kstrstr\<close> of \<open>kernel/fs/fs.c\<close>,
  \<open>s_strcmp\<close>, \<open>s_strncpy\<close>, \<open>s_strlen\<close> of \<open>kernel/security.c\<close>, \<open>l_strncpy\<close> of
  \<open>kernel/log.c\<close>).

  They are modelled twice. On memory, a region is a list of characters that holds a
  terminator, and the loops read and write it character by character (the definitions
  with \<open>_mem\<close> in their name). On values, a C string is the list of the characters before
  its terminator. The lemmas show that the first implements the second, which the other
  theories use.
\<close>

abbreviation NUL :: char where
  "NUL \<equiv> CHR 0x00"

definition cstr :: "char list \<Rightarrow> string" where
  "cstr m = takeWhile (\<lambda>c. c \<noteq> NUL) m"

definition cstring :: "string \<Rightarrow> bool" where
  "cstring s \<longleftrightarrow> NUL \<notin> set s"

definition ord :: "char \<Rightarrow> int" where
  "ord c = of_char c"

lemma cstr_simps [simp]:
  "cstr [] = []"
  "cstr (c # m) = (if c = NUL then [] else c # cstr m)"
  by (simp_all add: cstr_def)

lemma cstring_simps [simp]:
  "cstring []"
  "cstring (c # s) \<longleftrightarrow> c \<noteq> NUL \<and> cstring s"
  "cstring (s @ t) \<longleftrightarrow> cstring s \<and> cstring t"
  by (auto simp: cstring_def)

lemma cstring_cstr [simp]: "cstring (cstr m)"
  by (auto simp: cstr_def cstring_def dest: set_takeWhileD)

lemma cstr_cstring: "cstring s \<Longrightarrow> cstr s = s"
  by (auto simp: cstr_def cstring_def takeWhile_eq_all_conv)

lemma cstr_append_NUL [simp]: "cstring s \<Longrightarrow> cstr (s @ NUL # m) = s"
  by (induction s) auto

lemma cstring_take [simp]: "cstring s \<Longrightarrow> cstring (take n s)"
  by (auto simp: cstring_def dest: in_set_takeD)

lemma cstring_drop [simp]: "cstring s \<Longrightarrow> cstring (drop n s)"
  by (auto simp: cstring_def dest: in_set_dropD)

lemma ord_eq_iff [simp]: "ord a = ord b \<longleftrightarrow> a = b"
  unfolding ord_def by simp

lemma ord_diff_eq_0 [simp]: "ord a - ord b = 0 \<longleftrightarrow> a = b"
  using ord_eq_iff [of a b] by linarith

lemma ord_eq_0_iff: "ord a = 0 \<longleftrightarrow> a = NUL"
  using ord_eq_iff [of a NUL] by (simp add: ord_def)

subsection \<open>Comparison\<close>

text \<open>
  \<open>kstrcmp\<close>: skip the common prefix, then the difference of the two characters that stop
  the loop, the terminator being the character 0.
\<close>

fun kstrcmp :: "string \<Rightarrow> string \<Rightarrow> int" where
  "kstrcmp (a # as) (b # bs) = (if a = b then kstrcmp as bs else ord a - ord b)"
| "kstrcmp (a # as) [] = ord a - ord NUL"
| "kstrcmp [] (b # bs) = ord NUL - ord b"
| "kstrcmp [] [] = ord NUL - ord NUL"

fun kstrncmp :: "string \<Rightarrow> string \<Rightarrow> nat \<Rightarrow> int" where
  "kstrncmp as bs 0 = 0"
| "kstrncmp (a # as) (b # bs) (Suc n) =
     (if a = b then kstrncmp as bs n else ord a - ord b)"
| "kstrncmp (a # as) [] (Suc n) = ord a - ord NUL"
| "kstrncmp [] (b # bs) (Suc n) = ord NUL - ord b"
| "kstrncmp [] [] (Suc n) = ord NUL - ord NUL"

text \<open>The loops on memory: the read of a region past its end is undefined.\<close>

fun kstrcmp_mem :: "char list \<Rightarrow> char list \<Rightarrow> int option" where
  "kstrcmp_mem (a # as) (b # bs) =
     (if a \<noteq> NUL \<and> a = b then kstrcmp_mem as bs else Some (ord a - ord b))"
| "kstrcmp_mem _ _ = None"

lemma kstrcmp_eq_0_iff [simp]:
  "cstring a \<Longrightarrow> cstring b \<Longrightarrow> kstrcmp a b = 0 \<longleftrightarrow> a = b"
  by (induction a b rule: kstrcmp.induct) auto

lemma kstrcmp_refl [simp]: "kstrcmp a a = 0"
  by (induction a) auto

lemma kstrncmp_eq_0_iff:
  "cstring a \<Longrightarrow> cstring b \<Longrightarrow> kstrncmp a b n = 0 \<longleftrightarrow> take n a = take n b"
  by (induction a b n rule: kstrncmp.induct) auto

lemma kstrcmp_mem_refines:
  "NUL \<in> set a \<Longrightarrow> NUL \<in> set b \<Longrightarrow> kstrcmp_mem a b = Some (kstrcmp (cstr a) (cstr b))"
  by (induction a b rule: kstrcmp_mem.induct) auto

subsection \<open>Length and bounded copy\<close>

definition kstrlen :: "string \<Rightarrow> nat" where
  "kstrlen s = length s"

fun kstrlen_mem :: "char list \<Rightarrow> nat \<Rightarrow> nat option" where
  "kstrlen_mem [] n = None"
| "kstrlen_mem (c # m) n = (if c \<noteq> NUL then kstrlen_mem m (Suc n) else Some n)"

lemma kstrlen_mem_refines: "NUL \<in> set m \<Longrightarrow> kstrlen_mem m n = Some (n + kstrlen (cstr m))"
  by (induction m arbitrary: n) (auto simp: kstrlen_def)

text \<open>
  \<open>kstrncpy dst src n\<close> writes at most \<open>n\<close> characters and always terminates the copy, at
  the last place of the buffer when the source does not fit.
\<close>

definition kstrncpy :: "string \<Rightarrow> nat \<Rightarrow> string" where
  "kstrncpy src n = take (n - 1) src"

function kstrncpy_loop :: "char list \<Rightarrow> char list \<Rightarrow> nat \<Rightarrow> nat \<Rightarrow> char list \<times> nat" where
  "kstrncpy_loop dst src n i =
     (if i < n \<and> src ! i \<noteq> NUL then kstrncpy_loop (dst[i := src ! i]) src n (Suc i)
      else (dst, i))"
  by pat_completeness auto
termination
  by (relation "measure (\<lambda>(dst, src, n, i). n - i)") auto

declare kstrncpy_loop.simps [simp del]

definition kstrncpy_mem :: "char list \<Rightarrow> char list \<Rightarrow> nat \<Rightarrow> char list" where
  "kstrncpy_mem dst src n =
     (let (d, i) = kstrncpy_loop dst src n 0
      in if i < n then d[i := NUL] else d[n - 1 := NUL])"

text \<open>The bounded copy of \<open>log.c\<close> and \<open>security.c\<close> tests \<open>i < max_len - 1\<close> instead.\<close>

function l_strncpy_loop :: "char list \<Rightarrow> char list \<Rightarrow> nat \<Rightarrow> nat \<Rightarrow> char list" where
  "l_strncpy_loop dst src max_len i =
     (if src ! i \<noteq> NUL \<and> i < max_len - 1
      then l_strncpy_loop (dst[i := src ! i]) src max_len (Suc i)
      else dst[i := NUL])"
  by pat_completeness auto
termination
  by (relation "measure (\<lambda>(dst, src, n, i). n - i)") auto

declare l_strncpy_loop.simps [simp del]

definition l_strncpy_mem :: "char list \<Rightarrow> char list \<Rightarrow> nat \<Rightarrow> char list" where
  "l_strncpy_mem dst src max_len =
     (if max_len \<le> 0 then dst else l_strncpy_loop dst src max_len 0)"

definition l_strncpy :: "string \<Rightarrow> nat \<Rightarrow> string" where
  "l_strncpy src max_len = take (max_len - 1) src"

lemma length_kstrncpy [simp]: "length (kstrncpy s n) = min (length s) (n - 1)"
  by (simp add: kstrncpy_def)

lemma cstring_kstrncpy [simp]: "cstring s \<Longrightarrow> cstring (kstrncpy s n)"
  by (simp add: kstrncpy_def)

lemma kstrncpy_short: "length s < n \<Longrightarrow> kstrncpy s n = s"
  by (simp add: kstrncpy_def)

lemma cstr_update_NUL:
  "k < length d \<Longrightarrow> cstring (take k d) \<Longrightarrow> cstr (d[k := NUL]) = take k d"
proof (induction d arbitrary: k)
  case (Cons c d)
  then show ?case by (cases k) auto
qed simp

lemma nth_before_NUL: "i \<le> length s \<Longrightarrow> (s @ NUL # r) ! i = (if i < length s then s ! i else NUL)"
  by (auto simp: nth_append)

lemma take_Suc_update: "i < length d \<Longrightarrow> take (Suc i) (d[i := x]) = take i d @ [x]"
  by (simp add: take_Suc_conv_app_nth)

lemma cstring_nth: "cstring s \<Longrightarrow> i < length s \<Longrightarrow> s ! i \<noteq> NUL"
  by (auto simp: cstring_def dest: nth_mem)

lemma split_at_NUL:
  assumes "NUL \<in> set m"
  obtains r where "m = cstr m @ NUL # r"
  using assms
proof (induction m arbitrary: thesis)
  case (Cons c m)
  show ?case
  proof (cases "c = NUL")
    case True
    then show ?thesis using Cons.prems(1) [of m] by simp
  next
    case False
    with Cons.prems(2) have "NUL \<in> set m" by simp
    then obtain r where "m = cstr m @ NUL # r" using Cons.IH by blast
    then show ?thesis using Cons.prems(1) [of r] False by simp
  qed
qed simp

lemma kstrncpy_loop_result:
  assumes "cstring s"
  shows "kstrncpy_loop dst src n i = (d, j) \<Longrightarrow> src = s @ NUL # r \<Longrightarrow>
    i \<le> length s \<Longrightarrow> i \<le> n \<Longrightarrow> n \<le> length dst \<Longrightarrow> take i dst = take i s \<Longrightarrow>
    j = min n (length s) \<and> length d = length dst \<and> take j d = take j s"
proof (induction dst src n i rule: kstrncpy_loop.induct)
  case (1 dst src n i)
  show ?case
  proof (cases "i < n \<and> src ! i \<noteq> NUL")
    case True
    with "1.prems" have i: "i < length s" "src ! i = s ! i"
      by (auto simp: nth_before_NUL split: if_splits)
    have "kstrncpy_loop (dst[i := src ! i]) src n (Suc i) = (d, j)"
      using "1.prems"(1) True by (simp add: kstrncpy_loop.simps [of dst])
    moreover have "take (Suc i) (dst[i := src ! i]) = take (Suc i) s"
      using i True "1.prems" by (simp add: take_Suc_update take_Suc_conv_app_nth)
    moreover have "Suc i \<le> length s" "Suc i \<le> n" "n \<le> length (dst[i := src ! i])"
      using i True "1.prems"(5) by auto
    ultimately show ?thesis
      using "1.IH" [OF True _ "1.prems"(2)] by (metis length_list_update)
  next
    case False
    with "1.prems" have "d = dst" "j = i"
      by (auto simp: kstrncpy_loop.simps [of dst])
    moreover have "\<not> i < n \<or> i = length s"
      using False "1.prems"(2,3) assms cstring_nth
      by (metis le_neq_implies_less nth_append)
    ultimately show ?thesis using "1.prems" by auto
  qed
qed

lemma kstrncpy_mem_refines:
  assumes "NUL \<in> set src" "0 < n" "n \<le> length dst"
  shows "cstr (kstrncpy_mem dst src n) = kstrncpy (cstr src) n"
proof -
  obtain r where src: "src = cstr src @ NUL # r" using split_at_NUL [OF assms(1)] by blast
  obtain d j where dj: "kstrncpy_loop dst src n 0 = (d, j)" by fastforce
  from kstrncpy_loop_result [OF cstring_cstr dj src] assms
  have res: "j = min n (length (cstr src))" "length d = length dst" "take j d = take j (cstr src)"
    by auto
  show ?thesis
  proof (cases "j < n")
    case True
    then have "take j (cstr src) = take (n - 1) (cstr src)" using res(1) by simp
    moreover have "cstr (d[j := NUL]) = take j d"
      using True assms(3) res by (intro cstr_update_NUL) auto
    ultimately show ?thesis
      using True dj res(3) by (simp add: kstrncpy_mem_def kstrncpy_def)
  next
    case False
    with res(1) have "j = n" by simp
    then have "take (n - 1) (take n d) = take (n - 1) (take n (cstr src))" using res(3) by simp
    then have "take (n - 1) d = take (n - 1) (cstr src)" by (simp add: take_take min_def)
    with False \<open>j = n\<close> show ?thesis
      using assms dj res(2) by (simp add: kstrncpy_mem_def kstrncpy_def cstr_update_NUL)
  qed
qed

lemma l_strncpy_loop_result:
  assumes "cstring s"
  shows "0 < n \<Longrightarrow> src = s @ NUL # r \<Longrightarrow> i \<le> length s \<Longrightarrow> i \<le> n - 1 \<Longrightarrow> n \<le> length dst \<Longrightarrow>
    take i dst = take i s \<Longrightarrow> cstr (l_strncpy_loop dst src n i) = take (n - 1) s"
proof (induction dst src n i rule: l_strncpy_loop.induct)
  case (1 dst src n i)
  show ?case
  proof (cases "src ! i \<noteq> NUL \<and> i < n - 1")
    case True
    with "1.prems" have i: "i < length s" "src ! i = s ! i"
      by (auto simp: nth_before_NUL split: if_splits)
    from True have "i < n - 1" by blast
    with "1.prems"(5) have "i < length dst" by linarith
    then have "take (Suc i) (dst[i := src ! i]) = take (Suc i) s"
      using i "1.prems"(6) by (simp add: take_Suc_update take_Suc_conv_app_nth)
    then have "cstr (l_strncpy_loop (dst[i := src ! i]) src n (Suc i)) = take (n - 1) s"
      using "1.IH" [OF True] "1.prems" i True by simp
    with True show ?thesis by (simp add: l_strncpy_loop.simps [of dst])
  next
    case False
    then have "\<not> i < n - 1 \<or> i = length s"
      using "1.prems"(2,3) assms cstring_nth by (metis le_neq_implies_less nth_append)
    then have "take i s = take (n - 1) s" using "1.prems"(3,4) by auto
    moreover have "i < length dst" using "1.prems"(1,4,5) by linarith
    moreover have "l_strncpy_loop dst src n i = dst[i := NUL]"
      using False by (auto simp: l_strncpy_loop.simps [of dst])
    ultimately show ?thesis
      using "1.prems"(6) assms(1) by (simp add: cstr_update_NUL)
  qed
qed

lemma l_strncpy_mem_refines:
  assumes "NUL \<in> set src" "0 < n" "n \<le> length dst"
  shows "cstr (l_strncpy_mem dst src n) = l_strncpy (cstr src) n"
proof -
  obtain r where src: "src = cstr src @ NUL # r" using split_at_NUL [OF assms(1)] by blast
  show ?thesis
    using l_strncpy_loop_result [OF cstring_cstr assms(2) src, of 0 dst] assms
    by (simp add: l_strncpy_mem_def l_strncpy_def)
qed

subsection \<open>Substring search\<close>

text \<open>
  \<open>kstrstr\<close> returns the place of the first occurrence of the needle: the suffix of the
  haystack from there on, or \<open>None\<close> for \<open>NULL\<close>.
\<close>

fun kstrstr_loop :: "string \<Rightarrow> string \<Rightarrow> nat \<Rightarrow> string option" where
  "kstrstr_loop [] needle n = None"
| "kstrstr_loop (c # hay) needle n =
     (if kstrncmp (c # hay) needle n = 0 then Some (c # hay) else kstrstr_loop hay needle n)"

definition kstrstr :: "string \<Rightarrow> string \<Rightarrow> string option" where
  "kstrstr hay needle =
     (let n = kstrlen needle in if n = 0 then Some hay else kstrstr_loop hay needle n)"

lemma kstrncmp_prefix:
  "cstring h \<Longrightarrow> cstring p \<Longrightarrow> kstrncmp h p (length p) = 0 \<longleftrightarrow> prefix p h"
  by (auto simp: kstrncmp_eq_0_iff prefix_def) (metis append_take_drop_id)

lemma kstrstr_loop_iff:
  "cstring hay \<Longrightarrow> cstring needle \<Longrightarrow> needle \<noteq> [] \<Longrightarrow>
     kstrstr_loop hay needle (length needle) \<noteq> None \<longleftrightarrow> sublist needle hay"
  by (induction hay) (use kstrncmp_prefix in \<open>auto simp: sublist_Cons_right\<close>)

lemma kstrstr_iff:
  "cstring hay \<Longrightarrow> cstring needle \<Longrightarrow> kstrstr hay needle \<noteq> None \<longleftrightarrow> sublist needle hay"
  using kstrstr_loop_iff [of hay needle] by (auto simp: kstrstr_def kstrlen_def)

end
