(* ===== verification/Output.thy ===== *)
theory Output
  imports CString
begin

text \<open>
  The output of the kernel as a trace. \<open>kernel/console.h\<close> is a header of static functions
  over static variables, so every C file that includes it has a console of its own; the
  state of every component therefore records the calls of the console interface together
  with the file that makes them, in order, and theory \<open>Console\<close> says what a sequence of
  calls does to the screen. The bytes sent to the debug port by
  \<open>kernel/arch/i386/drivers/debugcon.c\<close> are recorded the same way.
\<close>

text \<open>The C files that include \<open>console.h\<close>.\<close>

datatype tu = Kernel_main_c | Fs_c | Fs_bootstrap_c | Ramdisk_c | Kmalloc_c | Paging_c
  | Physmem_c | Ata_pio_c | Keyboard_c | Irq_c | Isr_c | Syscall_c | Task_c | Security_c
  | Log_c | Shell_c | Editor_c

text \<open>
  The calls: the functions of \<open>console.h\<close> that other files use. \<open>Con_get_cursor\<close> and
  \<open>Con_restore_cursor\<close> are the pair that the status bars use, which read the position into
  two locals and set it again afterwards.
\<close>

datatype con_op = Con_write string | Con_putc char | Con_set_color u8 u8
  | Con_put_at char nat nat | Con_clear | Con_get_cursor | Con_restore_cursor

record out_st =
  con_out :: "(tu \<times> con_op) list"
  dbg_out :: "char list"

definition con_call :: "tu \<Rightarrow> con_op \<Rightarrow> 'a out_st_scheme \<Rightarrow> 'a out_st_scheme" where
  "con_call f c st = st\<lparr>con_out := con_out st @ [(f, c)]\<rparr>"

abbreviation console_write :: "tu \<Rightarrow> string \<Rightarrow> 'a out_st_scheme \<Rightarrow> 'a out_st_scheme" where
  "console_write f s \<equiv> con_call f (Con_write s)"

lemma con_call_simps [simp, frame_simps]:
  "con_out (con_call f c st) = con_out st @ [(f, c)]"
  "dbg_out (con_call f c st) = dbg_out st"
  "out_st.more (con_call f c st) = out_st.more st"
  by (simp_all add: con_call_def)

text \<open>The strings of a trace, for statements on what was printed.\<close>

fun written :: "(tu \<times> con_op) list \<Rightarrow> string list" where
  "written [] = []"
| "written ((f, Con_write s) # cs) = s # written cs"
| "written ((f, c) # cs) = written cs"

lemma written_append [simp]: "written (xs @ ys) = written xs @ written ys"
proof (induction xs)
  case (Cons x xs)
  then show ?case by (cases x; cases "snd x") auto
qed simp

subsection \<open>The debug console\<close>

definition debugcon_putc :: "char \<Rightarrow> 'a out_st_scheme \<Rightarrow> 'a out_st_scheme" where
  "debugcon_putc c st = st\<lparr>dbg_out := dbg_out st @ [c]\<rparr>"

abbreviation newline :: char where
  "newline \<equiv> CHR 0x0A"

abbreviation carriage_return :: char where
  "carriage_return \<equiv> CHR 0x0D"

fun debugcon_write :: "string \<Rightarrow> 'a out_st_scheme \<Rightarrow> 'a out_st_scheme" where
  "debugcon_write [] st = st"
| "debugcon_write (c # s) st =
     debugcon_write s (debugcon_putc c
       (if c = newline then debugcon_putc carriage_return st else st))"

fun crlf :: "string \<Rightarrow> string" where
  "crlf [] = []"
| "crlf (c # s) = (if c = newline then [carriage_return, newline] else [c]) @ crlf s"

lemma debugcon_write_eq: "debugcon_write s st = st\<lparr>dbg_out := dbg_out st @ crlf s\<rparr>"
  by (induction s st rule: debugcon_write.induct) (auto simp: debugcon_putc_def)

declare debugcon_write.simps [simp del]

lemma debugcon_write_simps [simp, frame_simps]:
  "con_out (debugcon_write s st) = con_out st"
  "dbg_out (debugcon_write s st) = dbg_out st @ crlf s"
  "out_st.more (debugcon_write s st) = out_st.more st"
  by (simp_all add: debugcon_write_eq)

end
