(* ===== verification/Log.thy ===== *)
theory Log
  imports Output
begin

text \<open>
  The audit log, \<open>kernel/log.c\<close>: a ring of 128 lines of 80 characters. The abstract log is
  the list of its lines, the oldest first (\<open>log_lines\<close>); \<open>log_event\<close> appends a line and
  drops the oldest when the ring is full, and \<open>log_dump\<close> prints exactly the abstract log.
\<close>

definition LOG_MAX_LINES :: int where
  "LOG_MAX_LINES = 128"

definition LOG_LINE_LEN :: nat where
  "LOG_LINE_LEN = 80"

record log_st = out_st +
  log_buf :: "string list"
  log_head :: int
  log_count :: int

definition log_init :: "'a log_st_scheme \<Rightarrow> 'a log_st_scheme" where
  "log_init st = st\<lparr>log_head := 0, log_count := 0\<rparr>"

definition log_event :: "string option \<Rightarrow> 'a log_st_scheme \<Rightarrow> 'a log_st_scheme" where
  "log_event msg st =
     (case msg of None \<Rightarrow> st
      | Some m \<Rightarrow>
          (let st1 = st\<lparr>log_buf := (log_buf st)[nat (log_head st) := l_strncpy m LOG_LINE_LEN]\<rparr>;
               st2 = st1\<lparr>log_head := (log_head st1 + 1) mod LOG_MAX_LINES\<rparr>;
               st3 = (if log_count st2 < LOG_MAX_LINES
                      then st2\<lparr>log_count := log_count st2 + 1\<rparr> else st2)
           in debugcon_write [newline] (debugcon_write m st3)))"

text \<open>The loop of \<open>log_dump\<close> over the lines, from index \<open>i\<close> up to the count.\<close>

function log_dump_loop :: "int \<Rightarrow> int \<Rightarrow> 'a log_st_scheme \<Rightarrow> 'a log_st_scheme" where
  "log_dump_loop start i st =
     (if i < log_count st then
        (let idx = (start + i) mod LOG_MAX_LINES
         in log_dump_loop start (i + 1)
              (console_write Log_c [newline] (console_write Log_c (log_buf st ! nat idx) st)))
      else st)"
  by pat_completeness auto

lemma log_count_con_call [simp, frame_simps]:
  "log_buf (con_call f c st) = log_buf st"
  "log_head (con_call f c st) = log_head st"
  "log_count (con_call f c st) = log_count st"
  by (simp_all add: con_call_def)

termination log_dump_loop
  by (relation "measure (\<lambda>(start, i, st). nat (log_count st - i))") auto

declare log_dump_loop.simps [simp del]

definition log_dump :: "'a log_st_scheme \<Rightarrow> 'a log_st_scheme" where
  "log_dump st =
     (let st1 = console_write Log_c (''=== Hypnos audit log ==='' @ [newline]) st;
          start = (log_head st1 - log_count st1 + LOG_MAX_LINES) mod LOG_MAX_LINES;
          st2 = log_dump_loop start 0 st1
      in console_write Log_c (''=== end ==='' @ [newline]) st2)"

subsection \<open>The abstract log\<close>

definition log_wf :: "'a log_st_scheme \<Rightarrow> bool" where
  "log_wf st \<longleftrightarrow> length (log_buf st) = 128 \<and> 0 \<le> log_head st \<and> log_head st < 128 \<and>
     0 \<le> log_count st \<and> log_count st \<le> 128"

definition log_index :: "'a log_st_scheme \<Rightarrow> nat \<Rightarrow> nat" where
  "log_index st i = nat ((log_head st - log_count st + int i) mod 128)"

definition log_lines :: "'a log_st_scheme \<Rightarrow> string list" where
  "log_lines st = map (\<lambda>i. log_buf st ! log_index st i) [0..<nat (log_count st)]"

text \<open>The specification: append to a list that keeps its last 128 elements.\<close>

definition log_append :: "string \<Rightarrow> string list \<Rightarrow> string list" where
  "log_append m ls = (let ls' = ls @ [take 79 m] in drop (length ls' - 128) ls')"

lemma log_wf_init [intro]: "log_wf st \<Longrightarrow> log_wf (log_init st)"
  by (simp add: log_wf_def log_init_def)

lemma log_lines_init: "log_lines (log_init st) = []"
  by (simp add: log_lines_def log_init_def)

lemma log_event_None [simp]: "log_event None st = st"
  by (simp add: log_event_def)

lemma log_debugcon [simp, frame_simps]:
  "log_buf (debugcon_write s st) = log_buf st"
  "log_head (debugcon_write s st) = log_head st"
  "log_count (debugcon_write s st) = log_count st"
  by (simp_all add: debugcon_write_eq)

lemma log_event_Some:
  "log_event (Some m) st =
     st\<lparr>log_buf := (log_buf st)[nat (log_head st) := take 79 m],
        log_head := (log_head st + 1) mod 128,
        log_count := (if log_count st < 128 then log_count st + 1 else log_count st),
        dbg_out := dbg_out st @ crlf m @ [carriage_return, newline]\<rparr>"
  by (simp add: log_event_def Let_def LOG_MAX_LINES_def LOG_LINE_LEN_def l_strncpy_def
      debugcon_write_eq)

lemma log_event_con_out [simp, frame_simps]: "con_out (log_event m st) = con_out st"
  by (cases m) (simp_all add: log_event_Some)

lemma log_event_wf [intro]: "log_wf st \<Longrightarrow> log_wf (log_event m st)"
  by (cases m) (auto simp: log_event_Some log_wf_def)

text \<open>
  The ring refines the list: in a well-formed state one call of \<open>log_event\<close> appends the
  message, cut to 79 characters, and keeps the last 128 lines.
\<close>

lemma log_index_bound: "log_index st i < 128"
  by (simp add: log_index_def nat_less_iff)

lemma log_index_last:
  assumes "log_wf st"
  shows "log_index (log_event (Some m) st) (nat (log_count (log_event (Some m) st)) - 1) =
    nat (log_head st)"
proof -
  let ?st = "log_event (Some m) st"
  have c: "0 < log_count ?st" using assms by (simp add: log_event_Some log_wf_def)
  then have "int (nat (log_count ?st) - 1) = log_count ?st - 1" by simp
  moreover have "(log_head ?st - 1) mod 128 = log_head st"
    using assms by (simp add: log_event_Some log_wf_def mod_simps)
  ultimately show ?thesis by (simp add: log_index_def)
qed

lemma log_index_neq_head:
  assumes "log_wf st" "int i < log_count st" "log_count st - int i < 128"
  shows "log_index st i \<noteq> nat (log_head st)"
proof
  assume "log_index st i = nat (log_head st)"
  then have "(log_head st - (log_count st - int i)) mod 128 = log_head st mod 128"
    using assms(1) by (simp add: log_index_def log_wf_def nat_eq_iff algebra_simps)
  then have "128 dvd log_count st - int i"
    by (metis mod_eq_dvd_iff diff_diff_eq2 diff_self dvd_minus_iff minus_diff_eq add_diff_cancel_left')
  with assms(2,3) show False by (auto dest: zdvd_imp_le)
qed

lemma length_log_lines [simp]: "length (log_lines st) = nat (log_count st)"
  by (simp add: log_lines_def)

lemma log_event_lines_nth:
  assumes "log_wf st" "i < nat (log_count (log_event (Some m) st))"
  shows "log_lines (log_event (Some m) st) ! i = log_append m (log_lines st) ! i"
proof -
  let ?st = "log_event (Some m) st"
  let ?c = "nat (log_count st)"
  let ?k = "if log_count st < 128 then i else Suc i"
  have wf: "0 \<le> log_head st" "log_head st < 128" "length (log_buf st) = 128"
    "0 \<le> log_count st" "log_count st \<le> 128" using assms(1) by (auto simp: log_wf_def)
  have idx: "log_index ?st i = log_index st ?k"
  proof -
    define c' where "c' = (if log_count st < 128 then log_count st + 1 else log_count st)"
    have "((log_head st + 1) mod 128 - c' + int i) mod 128 = (log_head st + 1 - c' + int i) mod 128"
      by (metis mod_add_left_eq mod_diff_left_eq)
    also have "log_head st + 1 - c' + int i =
        log_head st - log_count st + int ?k"
      using wf by (simp add: c'_def)
    finally have "(log_head ?st - log_count ?st + int i) mod 128 =
        (log_head st - log_count st + int ?k) mod 128"
      by (simp add: log_event_Some c'_def)
    then show ?thesis by (simp add: log_index_def)
  qed
  have app: "log_append m (log_lines st) ! i = (log_lines st @ [take 79 m]) ! ?k"
    using assms(2) wf by (auto simp: log_append_def Let_def log_event_Some nth_append split: if_splits)
  show ?thesis
  proof (cases "?k < ?c")
    case True
    then have "log_index st ?k \<noteq> nat (log_head st)"
      using wf by (intro log_index_neq_head [OF assms(1)]) auto
    then have "log_lines ?st ! i = log_buf st ! log_index st ?k"
      using assms(2) idx by (simp add: log_lines_def log_event_Some)
    moreover have "log_lines st ! ?k = log_buf st ! log_index st ?k"
      using True by (simp add: log_lines_def)
    ultimately show ?thesis using app True by (simp add: nth_append)
  next
    case False
    then have k: "?k = ?c" "i = nat (log_count ?st) - 1"
      using assms(2) wf by (auto simp: log_event_Some split: if_splits)
    have "log_index ?st i = nat (log_head st)"
      using log_index_last [OF assms(1)] k(2) by simp
    then have "log_lines ?st ! i = take 79 m"
      using assms(2) wf by (simp add: log_lines_def log_event_Some)
    then show ?thesis using app k by (simp add: nth_append)
  qed
qed

lemma log_event_refines:
  assumes "log_wf st"
  shows "log_lines (log_event (Some m) st) = log_append m (log_lines st)"
proof (rule nth_equalityI)
  show "length (log_lines (log_event (Some m) st)) = length (log_append m (log_lines st))"
    using assms by (auto simp: log_event_Some log_append_def log_wf_def Let_def)
qed (use log_event_lines_nth [OF assms] in simp)

text \<open>\<open>log_dump\<close> prints the header, the abstract log line by line, and the footer.\<close>

lemma log_dump_loop_prints:
  assumes "log_wf st" "0 \<le> i" "i \<le> log_count st"
    "start = (log_head st - log_count st + LOG_MAX_LINES) mod LOG_MAX_LINES"
  shows "written (con_out (log_dump_loop start i st)) =
      written (con_out st) @ concat (map (\<lambda>l. [l, [newline]]) (drop (nat i) (log_lines st)))"
  using assms
proof (induction "nat (log_count st - i)" arbitrary: i st)
  case 0
  then show ?case by (subst log_dump_loop.simps) simp
next
  case (Suc n)
  let ?l = "log_buf st ! nat ((start + i) mod LOG_MAX_LINES)"
  let ?st = "console_write Log_c [newline] (console_write Log_c ?l st)"
  have frame: "log_lines ?st = log_lines st" "log_wf ?st"
    using Suc.prems(1) by (simp_all add: log_lines_def log_index_def log_wf_def)
  have "(start + i) mod 128 = (log_head st - log_count st + i) mod 128"
    using Suc.prems(4) by (simp add: LOG_MAX_LINES_def mod_simps)
  moreover have i: "nat i < nat (log_count st)" using Suc.prems Suc.hyps(2) by linarith
  ultimately have "log_lines st ! nat i = ?l"
    using Suc.prems by (simp add: log_lines_def log_index_def LOG_MAX_LINES_def)
  then have d: "drop (nat i) (log_lines st) = ?l # drop (nat (i + 1)) (log_lines st)"
    using Cons_nth_drop_Suc [of "nat i" "log_lines st"] i Suc.prems(2) by (simp add: nat_add_distrib)
  have "written (con_out (log_dump_loop start (i + 1) ?st)) =
      written (con_out ?st) @ concat (map (\<lambda>l. [l, [newline]]) (drop (nat (i + 1)) (log_lines ?st)))"
    using Suc.hyps(2) Suc.prems frame by (intro Suc.hyps(1)) auto
  moreover have "i < log_count st" using Suc.hyps(2) by linarith
  ultimately show ?case
    using d frame by (subst log_dump_loop.simps) (simp add: Let_def)
qed

lemma log_dump_prints:
  assumes "log_wf st"
  shows "written (con_out (log_dump st)) = written (con_out st) @
    [''=== Hypnos audit log ==='' @ [newline]] @
    concat (map (\<lambda>l. [l, [newline]]) (log_lines st)) @
    [''=== end ==='' @ [newline]]"
proof -
  let ?st = "console_write Log_c (''=== Hypnos audit log ==='' @ [newline]) st"
  have "log_lines ?st = log_lines st" "log_wf ?st" "0 \<le> log_count ?st"
    using assms by (auto simp: log_lines_def log_index_def log_wf_def)
  then show ?thesis
    using log_dump_loop_prints [of ?st 0, OF _ _ _ refl] by (simp add: log_dump_def Let_def)
qed

text \<open>The log after any sequence of events from an empty log: its last 128 messages.\<close>

definition log_events :: "string list \<Rightarrow> 'a log_st_scheme \<Rightarrow> 'a log_st_scheme" where
  "log_events ms st = fold (\<lambda>m. log_event (Some m)) ms st"

lemma log_events_wf: "log_wf st \<Longrightarrow> log_wf (log_events ms st)"
  by (induction ms arbitrary: st) (auto simp: log_events_def)

lemma log_append_drop:
  "log_append m (drop (length ls - 128) ls) = drop (Suc (length ls) - 128) (ls @ [take 79 m])"
  by (auto simp: log_append_def Let_def drop_append split: nat_diff_split)

lemma log_events_lines:
  assumes "log_wf st"
  shows "log_lines (log_events ms (log_init st)) = drop (length ms - 128) (map (take 79) ms)"
proof (induction ms rule: rev_induct)
  case Nil
  then show ?case by (simp add: log_events_def log_lines_init)
next
  case (snoc m ms)
  have "log_wf (log_events ms (log_init st))" using assms by (intro log_events_wf log_wf_init)
  then have "log_lines (log_events (ms @ [m]) (log_init st)) =
      log_append m (log_lines (log_events ms (log_init st)))"
    by (simp add: log_events_def log_event_refines)
  then show ?case using snoc log_append_drop [of m "map (take 79) ms"] by simp
qed

text \<open>
  C35: The ring refines a list. In a well-formed state, \<open>log_event\<close> appends the message, cut to
  79 characters, to the abstract log, of which the last 128 lines are kept, and stays well
  formed; after any sequence of messages from an empty log the abstract log holds the last 128
  of them; and \<open>log_dump\<close> prints exactly the abstract log, one line after the other, between
  its two frame lines.
\<close>

theorem log_ring_refines:
  assumes "log_wf st"
  shows "log_wf (log_event (Some m) st) \<and> log_lines (log_event (Some m) st) = log_append m (log_lines st) \<and>
    log_lines (log_events ms (log_init st)) = drop (length ms - 128) (map (take 79) ms) \<and>
    written (con_out (log_dump st)) = written (con_out st) @
      [''=== Hypnos audit log ==='' @ [newline]] @
      concat (map (\<lambda>l. [l, [newline]]) (log_lines st)) @ [''=== end ==='' @ [newline]]"
  using log_event_wf [OF assms] log_event_refines [OF assms] log_events_lines [OF assms]
    log_dump_prints [OF assms] by blast

definition log_st0 :: log_st where
  "log_st0 = \<lparr>con_out = [], dbg_out = [], log_buf = replicate 128 [], log_head = 0, log_count = 0\<rparr>"

theorem log_ring_refines_witness:
  "log_lines (log_event (Some ''boot'') log_st0) = [''boot'']"
proof -
  have "log_wf log_st0" "log_lines log_st0 = []" by (simp_all add: log_wf_def log_st0_def log_lines_def)
  then show ?thesis using log_ring_refines [of log_st0 "''boot''" "[]"]
    by (simp add: log_append_def)
qed

end
