(* ===== verification/Physmem.thy ===== *)
theory Physmem
  imports Log
begin

text \<open>
  The physical frame allocator, \<open>kernel/arch/i386/mm/physmem.c\<close>: a bitmap with one bit per
  4 KB frame of the first 2 GB, a set bit meaning that the frame is in use. The abstract
  state is the set of free frames. The address of the linker symbol \<open>kernel_end\<close> is a
  parameter. An access of the bitmap outside its 16384 words is undefined (\<open>None\<close>).
\<close>

definition PAGE_SIZE :: u32 where
  "PAGE_SIZE = 4096"

definition MAX_MEM_BYTES :: u32 where
  "MAX_MEM_BYTES = 2048 * 1024 * 1024"

definition MAX_FRAMES :: u32 where
  "MAX_FRAMES = MAX_MEM_BYTES div PAGE_SIZE"

type_synonym bitmap = "nat \<Rightarrow> u32"

record phys_st = log_st +
  frame_bitmap :: bitmap

lemma MAX_FRAMES_eq [simp]: "MAX_FRAMES = 524288"
  by (simp add: MAX_FRAMES_def MAX_MEM_BYTES_def PAGE_SIZE_def)

text \<open>Index of the bitmap word of a frame, defined inside the array only.\<close>

definition frame_word :: "u32 \<Rightarrow> nat option" where
  "frame_word frame =
     (let i = unat (frame div 32) in if i < unat (MAX_FRAMES div 32) then Some i else None)"

definition set_frame :: "u32 \<Rightarrow> bitmap \<Rightarrow> bitmap option" where
  "set_frame frame bm = do {
     i \<leftarrow> frame_word frame;
     Some (bm(i := bm i OR push_bit (unat (frame mod 32)) 1)) }"

definition clear_frame :: "u32 \<Rightarrow> bitmap \<Rightarrow> bitmap option" where
  "clear_frame frame bm = do {
     i \<leftarrow> frame_word frame;
     Some (bm(i := bm i AND NOT (push_bit (unat (frame mod 32)) 1))) }"

definition test_frame :: "u32 \<Rightarrow> bitmap \<Rightarrow> bool option" where
  "test_frame frame bm = do {
     i \<leftarrow> frame_word frame;
     Some (bm i AND push_bit (unat (frame mod 32)) 1 \<noteq> 0) }"

text \<open>
  The two loops of \<open>first_free_frame\<close>: \<open>j\<close> over the bits of word \<open>i\<close>, then \<open>i\<close> over the
  words. The inner loop answers \<open>Some None\<close> when it falls through.
\<close>

function first_free_bit :: "bitmap \<Rightarrow> nat \<Rightarrow> nat \<Rightarrow> u32 option option" where
  "first_free_bit bm i j =
     (if j < 32 then
        (let frame = of_nat i * 32 + of_nat j
         in if frame < MAX_FRAMES
            then do { t \<leftarrow> test_frame frame bm;
                      if \<not> t then Some (Some frame) else first_free_bit bm i (Suc j) }
            else first_free_bit bm i (Suc j))
      else Some None)"
  by pat_completeness auto
termination
  by (relation "measure (\<lambda>(bm, i, j). 32 - j)") auto

declare first_free_bit.simps [simp del]

function first_free_word :: "bitmap \<Rightarrow> nat \<Rightarrow> u32 option" where
  "first_free_word bm i =
     (if i < unat (MAX_FRAMES div 32) then
        (if bm i \<noteq> 0xFFFFFFFF then
           do { r \<leftarrow> first_free_bit bm i 0;
                case r of Some frame \<Rightarrow> Some frame | None \<Rightarrow> first_free_word bm (Suc i) }
         else first_free_word bm (Suc i))
      else Some (- 1))"
  by pat_completeness auto
termination
  by (relation "measure (\<lambda>(bm, i). 16384 - i)") auto

declare first_free_word.simps [simp del]

definition first_free_frame :: "bitmap \<Rightarrow> u32 option" where
  "first_free_frame bm = first_free_word bm 0"

function set_frames_loop :: "u32 \<Rightarrow> u32 \<Rightarrow> bitmap \<Rightarrow> bitmap option" where
  "set_frames_loop i n bm =
     (if i < n then do { bm' \<leftarrow> set_frame i bm; set_frames_loop (i + 1) n bm' } else Some bm)"
  by pat_completeness auto
termination
  by (relation "measure (\<lambda>(i, n, bm). unat n - unat i)")
    (auto simp: unat_plus_one_less word_less_nat_alt)

declare set_frames_loop.simps [simp del]

definition first_free_frame_idx :: "u32 \<Rightarrow> u32" where
  "first_free_frame_idx kernel_end =
     (let first_free_addr = (kernel_end + PAGE_SIZE - 1) AND NOT (PAGE_SIZE - 1)
      in first_free_addr div PAGE_SIZE)"

definition phys_init :: "u32 \<Rightarrow> 'a phys_st_scheme \<Rightarrow> 'a phys_st_scheme option" where
  "phys_init kernel_end st =
     (let st1 = console_write Physmem_c
            (''Initializing physical memory allocator...'' @ [newline]) st;
          bm0 = (\<lambda>i. if i < unat (MAX_FRAMES div 32) then 0 else frame_bitmap st1 i)
      in do {
        bm \<leftarrow> set_frames_loop 0 (first_free_frame_idx kernel_end) bm0;
        Some (console_write Physmem_c (''Physical memory allocator ready.'' @ [newline])
          (st1\<lparr>frame_bitmap := bm\<rparr>)) })"

definition phys_alloc_frame ::
    "'a phys_st_scheme \<Rightarrow> (u32 \<times> 'a phys_st_scheme) option" where
  "phys_alloc_frame st = do {
     frame \<leftarrow> first_free_frame (frame_bitmap st);
     if frame = - 1
     then Some (0, console_write Physmem_c
       (''phys_alloc_frame: OUT OF MEMORY!'' @ [newline]) st)
     else do {
       bm \<leftarrow> set_frame frame (frame_bitmap st);
       Some (frame * PAGE_SIZE, st\<lparr>frame_bitmap := bm\<rparr>) } }"

definition phys_free_frame :: "u32 \<Rightarrow> 'a phys_st_scheme \<Rightarrow> 'a phys_st_scheme option" where
  "phys_free_frame addr st =
     (if addr = 0 then Some st
      else (let frame = addr div PAGE_SIZE
            in if frame < MAX_FRAMES
               then do { bm \<leftarrow> clear_frame frame (frame_bitmap st);
                         Some (st\<lparr>frame_bitmap := bm\<rparr>) }
               else Some st))"

subsection \<open>The abstract state: frames in use\<close>

definition frame_used :: "bitmap \<Rightarrow> nat \<Rightarrow> bool" where
  "frame_used bm f \<longleftrightarrow> bit (bm (f div 32)) (f mod 32)"

definition free_frames :: "bitmap \<Rightarrow> nat set" where
  "free_frames bm = {f. f < 524288 \<and> \<not> frame_used bm f}"

lemma finite_free_frames [simp]: "finite (free_frames bm)"
  by (simp add: free_frames_def)

lemma and_bit_neq_0_iff: "w AND 2 ^ k \<noteq> 0 \<longleftrightarrow> bit (w :: 'a::len word) k"
  by (metis bit_iff_and_push_bit_not_eq_0 push_bit_of_1)

lemma bit_exp_word32 [simp]: "k < 32 \<Longrightarrow> bit (2 ^ m :: u32) k \<longleftrightarrow> m = k"
  by (auto simp: bit_exp_iff)

lemma frame_word_Some: "unat f < 524288 \<Longrightarrow> frame_word f = Some (unat f div 32)"
  by (simp add: frame_word_def unat_div Let_def less_mult_imp_div_less)

lemma frame_word_None: "\<not> unat f < 524288 \<Longrightarrow> frame_word f = None"
  by (auto simp: frame_word_def unat_div Let_def)

lemma test_frame_eq: "unat f < 524288 \<Longrightarrow> test_frame f bm = Some (frame_used bm (unat f))"
  by (simp add: test_frame_def frame_word_Some frame_used_def and_bit_neq_0_iff unat_mod)

lemma set_frame_used:
  assumes "unat f < 524288"
  obtains bm' where "set_frame f bm = Some bm'"
    and "\<And>g. frame_used bm' g \<longleftrightarrow> g = unat f \<or> frame_used bm g"
proof -
  let ?bm = "bm(unat f div 32 := bm (unat f div 32) OR push_bit (unat f mod 32) 1)"
  have "frame_used ?bm g \<longleftrightarrow> g = unat f \<or> frame_used bm g" for g
  proof (cases "g div 32 = unat f div 32")
    case True
    then have "g mod 32 = unat f mod 32 \<longleftrightarrow> g = unat f"
      by (metis div_mult_mod_eq)
    with True show ?thesis
      by (auto simp: frame_used_def bit_or_iff)
  qed (auto simp: frame_used_def)
  then show thesis
    using assms that [of ?bm] by (simp add: set_frame_def frame_word_Some unat_mod)
qed

lemma clear_frame_used:
  assumes "unat f < 524288"
  obtains bm' where "clear_frame f bm = Some bm'"
    and "\<And>g. frame_used bm' g \<longleftrightarrow> g \<noteq> unat f \<and> frame_used bm g"
proof -
  let ?bm = "bm(unat f div 32 := bm (unat f div 32) AND NOT (push_bit (unat f mod 32) 1))"
  have "frame_used ?bm g \<longleftrightarrow> g \<noteq> unat f \<and> frame_used bm g" for g
  proof (cases "g div 32 = unat f div 32")
    case True
    then have "g mod 32 = unat f mod 32 \<longleftrightarrow> g = unat f"
      by (metis div_mult_mod_eq)
    with True show ?thesis
      by (auto simp: frame_used_def bit_and_iff bit_not_iff)
  qed (auto simp: frame_used_def)
  then show thesis
    using assms that [of ?bm] by (simp add: clear_frame_def frame_word_Some unat_mod)
qed

lemma unat_frame: "i < 16384 \<Longrightarrow> j < 32 \<Longrightarrow> unat (of_nat i * 32 + of_nat j :: u32) = i * 32 + j"
proof -
  assume "i < 16384" "j < 32"
  then have "unat (of_nat (i * 32 + j) :: u32) = i * 32 + j" by (intro unat_of_nat32) simp
  then show ?thesis by simp
qed

lemma word_full_iff: "(w :: u32) = 0xFFFFFFFF \<longleftrightarrow> (\<forall>k<32. bit w k)"
proof -
  have "(0xFFFFFFFF :: u32) = - 1" by simp
  moreover have "w = - 1 \<longleftrightarrow> (\<forall>k<32. bit w k)"
    by (auto intro!: bit_word_eqI)
  ultimately show ?thesis by metis
qed

subsection \<open>The search finds the lowest free frame\<close>

lemma first_free_bit_result:
  assumes "i < 16384" "j \<le> 32"
  shows "first_free_bit bm i j = Some None \<and> (\<forall>k. j \<le> k \<and> k < 32 \<longrightarrow> bit (bm i) k) \<or>
    (\<exists>k. first_free_bit bm i j = Some (Some (of_nat i * 32 + of_nat k)) \<and> j \<le> k \<and> k < 32 \<and>
      \<not> bit (bm i) k \<and> (\<forall>l. j \<le> l \<and> l < k \<longrightarrow> bit (bm i) l))"
  using assms(2)
proof (induction "32 - j" arbitrary: j)
  case 0
  then have j: "\<not> j < 32" by simp
  then have "first_free_bit bm i j = Some None"
    by (subst first_free_bit.simps) (simp only: if_False)
  moreover have "\<forall>k. \<not> (j \<le> k \<and> k < 32)" using j by auto
  ultimately have "first_free_bit bm i j = Some None" "\<forall>k. \<not> (j \<le> k \<and> k < 32)" by blast+
  then show ?case by blast
next
  case (Suc n)
  then have j: "j < 32" by simp
  let ?f = "of_nat i * 32 + of_nat j :: u32"
  have f: "unat ?f = i * 32 + j" using assms(1) j by (rule unat_frame)
  then have lt: "unat ?f < 524288" using assms(1) j by simp
  then have "?f < MAX_FRAMES" by (simp add: word_less_nat_alt)
  moreover have "test_frame ?f bm = Some (bit (bm i) j)"
    using test_frame_eq [OF lt, of bm] f j by (simp add: frame_used_def)
  ultimately have step: "first_free_bit bm i j =
      (if bit (bm i) j then first_free_bit bm i (Suc j) else Some (Some ?f))"
    using j by (simp add: first_free_bit.simps [of bm i j] Let_def)
  show ?case
  proof (cases "bit (bm i) j")
    case False
    then show ?thesis using step j by (intro disjI2 exI [of _ j]) auto
  next
    case True
    have split: "j \<le> k \<longleftrightarrow> k = j \<or> Suc j \<le> k" for k by auto
    have "n = 32 - Suc j" "Suc j \<le> 32" using Suc.hyps(2) by simp_all
    from Suc.hyps(1) [OF this] show ?thesis
      using True step by (metis split less_not_refl Suc_leD)
  qed
qed

lemma first_free_word_result:
  assumes "i \<le> 16384" "\<forall>g < i * 32. frame_used bm g"
  shows "first_free_word bm i = Some (- 1) \<and> free_frames bm = {} \<or>
    (\<exists>f. first_free_word bm i = Some f \<and> unat f \<in> free_frames bm \<and>
      (\<forall>g < unat f. frame_used bm g))"
  using assms
proof (induction "16384 - i" arbitrary: i)
  case 0
  then have "i = 16384" by simp
  moreover have "first_free_word bm 16384 = Some (- 1)"
    by (subst first_free_word.simps) simp
  ultimately show ?case using "0.prems" by (auto simp: free_frames_def)
next
  case (Suc n)
  then have i: "i < 16384" by simp
  have word: "frame_used bm (i * 32 + k) \<longleftrightarrow> bit (bm i) k" if "k < 32" for k
    using that by (simp add: frame_used_def)
  have below: "g < i * 32 + k \<Longrightarrow> g < i * 32 \<or> (\<exists>l<k. g = i * 32 + l)" for g k
    by (cases "g < i * 32") (auto intro!: exI [of _ "g - i * 32"])
  show ?case
  proof (cases "\<forall>k<32. bit (bm i) k")
    case True
    have full: "\<forall>g < Suc i * 32. frame_used bm g"
    proof (intro allI impI)
      fix g assume "g < Suc i * 32"
      then have "g < i * 32 + 32" by simp
      then consider "g < i * 32" | l where "l < 32" "g = i * 32 + l" using below by blast
      then show "frame_used bm g" using Suc.prems(2) word True by cases auto
    qed
    have "first_free_word bm i = first_free_word bm (Suc i)"
      using i True by (simp add: first_free_word.simps [of bm i] word_full_iff)
    moreover have "n = 16384 - Suc i" "Suc i \<le> 16384" using Suc.hyps(2) by simp_all
    ultimately show ?thesis using Suc.hyps(1) [OF _ _ full] by simp
  next
    case False
    then obtain k where k: "first_free_bit bm i 0 = Some (Some (of_nat i * 32 + of_nat k))"
      "k < 32" "\<not> bit (bm i) k" "\<forall>l<k. bit (bm i) l"
      using first_free_bit_result [OF i, of 0 bm] by auto
    let ?f = "of_nat i * 32 + of_nat k :: u32"
    have "first_free_word bm i = Some ?f"
      using i False k(1) by (simp add: first_free_word.simps [of bm i] word_full_iff)
    moreover have f: "unat ?f = i * 32 + k" using i k(2) by (rule unat_frame)
    moreover have "unat ?f \<in> free_frames bm"
      using f i k word by (simp add: free_frames_def)
    moreover have "\<forall>g < unat ?f. frame_used bm g"
    proof (intro allI impI)
      fix g assume "g < unat ?f"
      then consider "g < i * 32" | l where "l < k" "g = i * 32 + l"
        using f below by auto
      then show "frame_used bm g"
        using Suc.prems(2) word k(2,4) by cases auto
    qed
    ultimately show ?thesis by blast
  qed
qed

text \<open>
  The contract of the allocator over the abstract state. Its client part, the laws of
  allocating and freeing, is proved in the locale from the three operations of the bitmap
  and the search.
\<close>

locale frame_store =
  fixes set_f :: "u32 \<Rightarrow> 'b \<Rightarrow> 'b option"
    and clear_f :: "u32 \<Rightarrow> 'b \<Rightarrow> 'b option"
    and search :: "'b \<Rightarrow> u32 option"
    and free :: "'b \<Rightarrow> nat set"
    and limit :: nat
  assumes set_free: "unat f < limit \<Longrightarrow> \<exists>b'. set_f f b = Some b' \<and> free b' = free b - {unat f}"
    and clear_free: "unat f < limit \<Longrightarrow>
      \<exists>b'. clear_f f b = Some b' \<and> free b' = insert (unat f) (free b)"
    and search_none: "free b = {} \<Longrightarrow> search b = Some (- 1)"
    and search_some: "free b \<noteq> {} \<Longrightarrow>
      \<exists>f. search b = Some f \<and> unat f \<in> free b \<and> (\<forall>g \<in> free b. unat f \<le> g)"
    and free_limit: "free b \<subseteq> {..<limit}"
    and limit_small: "limit < 2 ^ 32"
begin

lemma alloc:
  assumes "free b \<noteq> {}"
  obtains f b' where "search b = Some f" "f \<noteq> - 1" "set_f f b = Some b'"
    "unat f = (LEAST g. g \<in> free b)" "free b' = free b - {unat f}"
proof -
  obtain f where f: "search b = Some f" "unat f \<in> free b" "\<forall>g \<in> free b. unat f \<le> g"
    using search_some [OF assms] by blast
  then have "unat f = (LEAST g. g \<in> free b)" by (intro Least_equality [symmetric]) auto
  moreover have "unat f < limit" using f(2) free_limit by auto
  moreover have "f \<noteq> - 1"
  proof
    assume "f = - 1"
    moreover have "unat (- 1 :: u32) = 2 ^ 32 - 1" by (simp add: unsigned_minus_1_eq_mask mask_eq_exp_minus_1)
    ultimately have "unat f = 2 ^ 32 - 1" by simp
    with \<open>unat f < limit\<close> limit_small show False by simp
  qed
  ultimately show thesis using set_free [of f b] f(1) that by blast
qed

lemma alloc_then_free:
  assumes "set_f f b = Some b1" "unat f \<in> free b"
  shows "\<exists>b2. clear_f f b1 = Some b2 \<and> free b2 = free b"
proof -
  have "unat f < limit" using assms(2) free_limit by auto
  then show ?thesis
    using assms set_free [of f b] clear_free [of f b1] by (auto simp: insert_absorb)
qed

end

lemma free_frames_set: "(\<And>g. frame_used bm' g \<longleftrightarrow> g = n \<or> frame_used bm g) \<Longrightarrow>
    free_frames bm' = free_frames bm - {n}"
  by (auto simp: free_frames_def)

lemma free_frames_clear: "n < 524288 \<Longrightarrow>
    (\<And>g. frame_used bm' g \<longleftrightarrow> g \<noteq> n \<and> frame_used bm g) \<Longrightarrow>
    free_frames bm' = insert n (free_frames bm)"
  by (auto simp: free_frames_def)

interpretation frames: frame_store set_frame clear_frame first_free_frame free_frames 524288
proof
  fix f :: u32 and b
  assume f: "unat f < 524288"
  show "\<exists>b'. set_frame f b = Some b' \<and> free_frames b' = free_frames b - {unat f}"
    by (rule set_frame_used [OF f, of b]) (auto intro!: free_frames_set)
  show "\<exists>b'. clear_frame f b = Some b' \<and> free_frames b' = insert (unat f) (free_frames b)"
    by (rule clear_frame_used [OF f, of b]) (auto intro!: free_frames_clear [OF f])
next
  fix b
  have res: "first_free_frame b = Some (- 1) \<and> free_frames b = {} \<or>
    (\<exists>f. first_free_frame b = Some f \<and> unat f \<in> free_frames b \<and>
      (\<forall>g < unat f. frame_used b g))"
    using first_free_word_result [of 0 b] by (simp add: first_free_frame_def)
  show "free_frames b = {} \<Longrightarrow> first_free_frame b = Some (- 1)"
    using res by auto
  show "free_frames b \<noteq> {} \<Longrightarrow>
      \<exists>f. first_free_frame b = Some f \<and> unat f \<in> free_frames b \<and> (\<forall>g \<in> free_frames b. unat f \<le> g)"
    using res by (metis (mono_tags, lifting) free_frames_def mem_Collect_eq not_less)
  show "free_frames b \<subseteq> {..<524288}" by (auto simp: free_frames_def)
qed simp

subsection \<open>The operations on the abstract state\<close>

lemma set_frames_loop_result:
  assumes "unat n \<le> 524288"
  shows "\<exists>bm'. set_frames_loop i n bm = Some bm' \<and>
    (\<forall>g. frame_used bm' g \<longleftrightarrow> (unat i \<le> g \<and> g < unat n) \<or> frame_used bm g)"
proof (induction "unat n - unat i" arbitrary: i bm)
  case 0
  then have "\<not> i < n" by (simp add: word_less_nat_alt)
  then have "set_frames_loop i n bm = Some bm" by (subst set_frames_loop.simps) simp
  then show ?case using 0 by auto
next
  case (Suc k)
  then have lt: "i < n" "unat i < 524288" using assms by (auto simp: word_less_nat_alt)
  obtain bm1 where bm1: "set_frame i bm = Some bm1"
    "\<And>g. frame_used bm1 g \<longleftrightarrow> g = unat i \<or> frame_used bm g"
    using set_frame_used [OF lt(2)] by blast
  have i1: "unat (i + 1) = Suc (unat i)" using lt(1) by (rule unat_plus_one_less)
  then have "k = unat n - unat (i + 1)" using Suc.hyps(2) by simp
  from Suc.hyps(1) [OF this, of bm1] obtain bm2 where bm2:
    "set_frames_loop (i + 1) n bm1 = Some bm2"
    "\<forall>g. frame_used bm2 g \<longleftrightarrow> (unat (i + 1) \<le> g \<and> g < unat n) \<or> frame_used bm1 g"
    by blast
  have "frame_used bm2 g \<longleftrightarrow> (unat i \<le> g \<and> g < unat n) \<or> frame_used bm g" for g
    using bm1(2) bm2(2) i1 lt(1) by (auto simp: word_less_nat_alt)
  moreover have "set_frames_loop i n bm = Some bm2"
    using bm1(1) bm2(1) lt(1) by (subst set_frames_loop.simps) simp
  ultimately show ?case by blast
qed

lemma first_free_frame_index:
  assumes "unat ke \<le> 2 ^ 31"
  shows "unat (first_free_frame_idx ke) = (unat ke + 4095) div 4096"
proof -
  have "unat (ke + 4095) = unat ke + 4095" using assms by (subst unat_add_no_wrap) auto
  moreover have "ke + PAGE_SIZE - 1 = ke + 4095" "PAGE_SIZE - 1 = 4095"
    by (simp_all add: PAGE_SIZE_def)
  ultimately show ?thesis
    using unat_and_not_page [of "ke + 4095"] unfolding first_free_frame_idx_def Let_def
    by (simp only: unat_div) (simp add: PAGE_SIZE_def)
qed

lemma phys_con_call [simp, frame_simps]:
  "frame_bitmap (con_call f c st) = frame_bitmap st"
  by (simp add: con_call_def)

text \<open>
  Initialisation: for a kernel that ends within the managed 2 GB, the free frames are
  exactly the ones that lie above its end.
\<close>

lemma phys_init_free:
  assumes "unat kernel_end \<le> 2 ^ 31"
  obtains st' where "phys_init kernel_end st = Some st'"
    and "free_frames (frame_bitmap st') = {f. f < 524288 \<and> unat kernel_end \<le> f * 4096}"
proof -
  let ?idx = "first_free_frame_idx kernel_end"
  let ?bm0 = "\<lambda>i. if i < 16384 then 0 else frame_bitmap st i"
  have idx: "unat ?idx = (unat kernel_end + 4095) div 4096"
    using assms by (rule first_free_frame_index)
  then have "unat ?idx \<le> 524288" using assms by simp
  from set_frames_loop_result [OF this, of 0 ?bm0] obtain bm where
    bm: "set_frames_loop 0 ?idx ?bm0 = Some bm"
    "\<forall>g. frame_used bm g \<longleftrightarrow> g < unat ?idx \<or> frame_used ?bm0 g" by auto
  have "\<not> frame_used ?bm0 g" if "g < 524288" for g
    using that by (simp add: frame_used_def less_mult_imp_div_less)
  then have "free_frames bm = {f. f < 524288 \<and> unat kernel_end \<le> f * 4096}"
    using bm(2) idx by (auto simp: free_frames_def)
  then show thesis
    using bm(1) that by (simp add: phys_init_def Let_def cong: if_cong)
qed

lemma frame_address:
  assumes "unat f < 524288"
  shows "unat (f * PAGE_SIZE) = unat f * 4096"
  using assms by (simp add: PAGE_SIZE_def unat_word_ariths)

lemma phys_alloc_some:
  assumes "free_frames (frame_bitmap st) \<noteq> {}"
  obtains addr bm where "phys_alloc_frame st = Some (addr, st\<lparr>frame_bitmap := bm\<rparr>)"
    and "unat addr = (LEAST g. g \<in> free_frames (frame_bitmap st)) * 4096"
    and "free_frames bm = free_frames (frame_bitmap st) - {unat addr div 4096}"
    and "unat addr div 4096 \<in> free_frames (frame_bitmap st)"
proof -
  obtain f bm where f: "first_free_frame (frame_bitmap st) = Some f" "f \<noteq> - 1"
    "set_frame f (frame_bitmap st) = Some bm"
    "unat f = (LEAST g. g \<in> free_frames (frame_bitmap st))"
    "free_frames bm = free_frames (frame_bitmap st) - {unat f}"
    by (rule frames.alloc [OF assms])
  have "unat f \<in> free_frames (frame_bitmap st)"
    using f(4) assms by (metis LeastI all_not_in_conv)
  moreover from this have "unat f < 524288" by (simp add: free_frames_def)
  then have "unat (f * PAGE_SIZE) = unat f * 4096" by (rule frame_address)
  ultimately show thesis
    using f by (intro that [of "f * PAGE_SIZE" bm]) (simp_all add: phys_alloc_frame_def)
qed

lemma phys_alloc_none:
  assumes "free_frames (frame_bitmap st) = {}"
  shows "phys_alloc_frame st = Some (0, console_write Physmem_c
      (''phys_alloc_frame: OUT OF MEMORY!'' @ [newline]) st)"
  using frames.search_none [OF assms] by (simp add: phys_alloc_frame_def)

lemma phys_free_some:
  assumes "addr \<noteq> 0" "unat addr < 2 ^ 31"
  obtains bm where "phys_free_frame addr st = Some (st\<lparr>frame_bitmap := bm\<rparr>)"
    and "free_frames bm = insert (unat addr div 4096) (free_frames (frame_bitmap st))"
proof -
  have lt: "unat (addr div PAGE_SIZE) = unat addr div 4096" "unat (addr div PAGE_SIZE) < 524288"
    using assms(2) by (simp_all add: PAGE_SIZE_def unat_div)
  then have "addr div PAGE_SIZE < MAX_FRAMES" by (simp add: word_less_nat_alt)
  then show thesis
    using frames.clear_free [OF lt(2), of "frame_bitmap st"] lt(1) assms(1) that
    by (auto simp: phys_free_frame_def Let_def)
qed

lemma phys_free_other:
  assumes "addr = 0 \<or> 2 ^ 31 \<le> unat addr"
  shows "phys_free_frame addr st = Some st"
proof -
  have "\<not> addr div PAGE_SIZE < MAX_FRAMES" if "2 ^ 31 \<le> unat addr"
    using that by (simp add: PAGE_SIZE_def word_less_nat_alt unat_div)
  then show ?thesis using assms by (auto simp: phys_free_frame_def Let_def)
qed

subsection \<open>Runs of the allocator\<close>

text \<open>
  The allocator in use: after initialisation, callers allocate frames and give back frames
  that they own. The second component is the set of addresses handed out and not returned.
\<close>

inductive phys_reach :: "u32 \<Rightarrow> phys_st \<Rightarrow> u32 set \<Rightarrow> bool" for kernel_end where
  init: "phys_init kernel_end st0 = Some st \<Longrightarrow> phys_reach kernel_end st {}"
| alloc: "phys_reach kernel_end st own \<Longrightarrow> phys_alloc_frame st = Some (a, st') \<Longrightarrow> a \<noteq> 0 \<Longrightarrow>
    phys_reach kernel_end st' (insert a own)"
| alloc_fail: "phys_reach kernel_end st own \<Longrightarrow> phys_alloc_frame st = Some (0, st') \<Longrightarrow>
    phys_reach kernel_end st' own"
| release: "phys_reach kernel_end st own \<Longrightarrow> a \<in> own \<Longrightarrow> phys_free_frame a st = Some st' \<Longrightarrow>
    phys_reach kernel_end st' (own - {a})"

definition phys_inv :: "u32 \<Rightarrow> 'a phys_st_scheme \<Rightarrow> u32 set \<Rightarrow> bool" where
  "phys_inv kernel_end st own \<longleftrightarrow>
     free_frames (frame_bitmap st) \<subseteq> {f. unat kernel_end \<le> f * 4096} \<and>
     (\<forall>a \<in> own. 4096 dvd unat a \<and> unat a < 2 ^ 31 \<and> unat kernel_end \<le> unat a \<and>
        unat a div 4096 \<notin> free_frames (frame_bitmap st))"

lemma phys_alloc_cases:
  assumes "phys_alloc_frame st = Some (a, st')"
  obtains (none) "free_frames (frame_bitmap st) = {}" "a = 0"
    "frame_bitmap st' = frame_bitmap st"
  | (some) "free_frames (frame_bitmap st') = free_frames (frame_bitmap st) - {unat a div 4096}"
    "unat a div 4096 \<in> free_frames (frame_bitmap st)"
    "unat a = (LEAST g. g \<in> free_frames (frame_bitmap st)) * 4096"
proof (cases "free_frames (frame_bitmap st) = {}")
  case True
  then show thesis using none assms phys_alloc_none [OF True] by auto
next
  case False
  then show thesis
    by (rule phys_alloc_some [of st]) (use some assms in auto)
qed

lemma page_index_eq: "4096 dvd x \<Longrightarrow> 4096 dvd y \<Longrightarrow> x div 4096 = y div 4096 \<longleftrightarrow> x = (y :: nat)"
  by (metis dvd_div_mult_self)

lemma phys_inv_alloc:
  assumes "phys_inv ke st own" "phys_alloc_frame st = Some (a, st')" "a \<noteq> 0"
  shows "a \<notin> own \<and> 4096 dvd unat a \<and> unat a < 2 ^ 31 \<and> unat ke \<le> unat a \<and>
    phys_inv ke st' (insert a own)"
  using assms(2)
proof (cases rule: phys_alloc_cases)
  case some
  have a: "4096 dvd unat a" "unat a < 2 ^ 31" "unat ke \<le> unat a"
    using some(2,3) assms(1) by (auto simp: phys_inv_def free_frames_def)
  moreover have "a \<notin> own" using assms(1) some(2) by (auto simp: phys_inv_def)
  moreover have "phys_inv ke st' (insert a own)"
    using assms(1) some(1) a by (auto simp: phys_inv_def)
  ultimately show ?thesis by blast
qed (use assms(3) in simp)

lemma phys_inv_release:
  assumes "phys_inv ke st own" "a \<in> own" "phys_free_frame a st = Some st'"
  shows "phys_inv ke st' (own - {a})"
proof (cases "a = 0")
  case True
  then show ?thesis using assms by (auto simp: phys_free_frame_def phys_inv_def)
next
  case False
  have a: "4096 dvd unat a" "unat a < 2 ^ 31" "unat ke \<le> unat a"
    using assms(1,2) by (auto simp: phys_inv_def)
  from phys_free_some [OF False a(2), of st] obtain bm where
    "st' = st\<lparr>frame_bitmap := bm\<rparr>"
    "free_frames bm = insert (unat a div 4096) (free_frames (frame_bitmap st))"
    using assms(3) by auto
  moreover have "unat b div 4096 \<noteq> unat a div 4096" if "b \<in> own - {a}" for b
    using that a(1) assms(1) page_index_eq [of "unat b" "unat a"] word_unat_eq_iff [of b a]
    by (auto simp: phys_inv_def)
  ultimately show ?thesis using assms(1) a by (auto simp: phys_inv_def)
qed

lemma phys_reach_inv:
  assumes "unat kernel_end \<le> 2 ^ 31"
  shows "phys_reach kernel_end st own \<Longrightarrow> phys_inv kernel_end st own"
proof (induction rule: phys_reach.induct)
  case (init st0 st)
  then show ?case
    by (auto intro: phys_init_free [OF assms, of st0] simp: phys_inv_def)
next
  case (alloc st own a st')
  then show ?case by (blast dest: phys_inv_alloc)
next
  case (alloc_fail st own st')
  from alloc_fail(2) show ?case
  proof (cases rule: phys_alloc_cases)
    case none
    then show ?thesis using alloc_fail(3) by (simp add: phys_inv_def)
  next
    case some
    then show ?thesis using alloc_fail(3) by (auto simp: phys_inv_def)
  qed
next
  case (release st own a st')
  then show ?case by (blast intro: phys_inv_release)
qed

subsection \<open>Properties\<close>

text \<open>A concrete state for the witnesses: the statics of a freshly loaded kernel.\<close>

definition phys_st0 :: phys_st where
  "phys_st0 = \<lparr>con_out = [], dbg_out = [], log_buf = replicate 128 [], log_head = 0,
     log_count = 0, frame_bitmap = (\<lambda>_. 0)\<rparr>"

lemma phys_alloc_frame_first:
  assumes "frame_bitmap st = bm(0 := 1)"
  shows "phys_alloc_frame st = Some (4096, st\<lparr>frame_bitmap := bm(0 := 3)\<rparr>)"
proof -
  have "test_frame 0 (bm(0 := 1)) = Some True" "test_frame 1 (bm(0 := 1)) = Some False"
    by (simp_all add: test_frame_def frame_word_def)
  then have "first_free_bit (bm(0 := 1)) 0 0 = Some (Some 1)"
    by (simp add: first_free_bit.simps [of "bm(0 := 1)" 0 0]
        first_free_bit.simps [of "bm(0 := 1)" 0 "Suc 0"])
  then have "first_free_frame (bm(0 := 1)) = Some 1"
    by (simp add: first_free_frame_def first_free_word.simps [of "bm(0 := 1)" 0])
  then show ?thesis
    using assms by (simp add: phys_alloc_frame_def set_frame_def frame_word_def PAGE_SIZE_def)
qed

lemma phys_init_4096:
  "\<exists>st1 bm. phys_init 4096 phys_st0 = Some st1 \<and> frame_bitmap st1 = bm(0 := 1)"
proof -
  have idx: "first_free_frame_idx 4096 = 1"
    by (simp add: first_free_frame_idx_def PAGE_SIZE_def)
  have "set_frames_loop 0 1 (\<lambda>i. if i < 16384 then 0 else 0) = Some ((\<lambda>_. 0)(0 := 1))"
    by (simp add: set_frames_loop.simps [of 0 1] set_frames_loop.simps [of 1 1]
        set_frame_def frame_word_def)
  then show ?thesis by (auto simp: phys_init_def idx phys_st0_def con_call_def cong: if_cong)
qed

text \<open>
  initialisation reserves exactly the frames below the end of the kernel: afterwards a
  frame of the managed 2 GB is free if and only if it lies at or above \<open>kernel_end\<close>.
\<close>

theorem phys_init_reserves_kernel:
  assumes "unat kernel_end \<le> 2 ^ 31"
  shows "\<exists>st'. phys_init kernel_end st = Some st' \<and>
    free_frames (frame_bitmap st') = {f. f < 524288 \<and> unat kernel_end \<le> f * 4096}"
  by (rule phys_init_free [OF assms, of st]) blast

theorem phys_init_reserves_kernel_witness:
  "unat (0x300000 :: u32) \<le> 2 ^ 31 \<and> (\<exists>st'. phys_init 0x300000 phys_st0 = Some st' \<and>
     free_frames (frame_bitmap st') = {f. f < 524288 \<and> unat (0x300000 :: u32) \<le> f * 4096})"
  using phys_init_reserves_kernel [of "0x300000" phys_st0] by simp

text \<open>
  allocation is total and first-fit: it returns the address of the lowest free frame and
  marks exactly that frame, or returns 0 and marks none when every frame is in use.
\<close>

theorem phys_alloc_first_fit:
  "\<exists>a st'. phys_alloc_frame st = Some (a, st') \<and>
     (if free_frames (frame_bitmap st) = {} then a = 0 \<and> frame_bitmap st' = frame_bitmap st
      else unat a = (LEAST f. f \<in> free_frames (frame_bitmap st)) * 4096 \<and>
        free_frames (frame_bitmap st') = free_frames (frame_bitmap st) - {unat a div 4096})"
proof (cases "free_frames (frame_bitmap st) = {}")
  case True
  then show ?thesis using phys_alloc_none [OF True] by simp
next
  case False
  then show ?thesis by (rule phys_alloc_some [of st]) (simp add: False)
qed

text \<open>
  C23: in every run of the allocator, an address handed out is a page-aligned frame of the
  first 2 GB above the kernel that no one owns: no frame is ever handed out twice.
\<close>

theorem phys_alloc_never_reuses:
  assumes "phys_reach kernel_end st own" "unat kernel_end \<le> 2 ^ 31"
    and "phys_alloc_frame st = Some (a, st')" "a \<noteq> 0"
  shows "a \<notin> own \<and> 4096 dvd unat a \<and> unat a < 2 ^ 31 \<and> unat kernel_end \<le> unat a"
  using phys_inv_alloc [OF phys_reach_inv [OF assms(2,1)] assms(3,4)] by blast

theorem phys_alloc_never_reuses_witness:
  "\<exists>st1 st2. phys_init 4096 phys_st0 = Some st1 \<and> phys_reach 4096 st1 {} \<and>
     phys_alloc_frame st1 = Some (4096, st2) \<and> (4096 :: u32) \<notin> {} \<and>
     4096 dvd unat (4096 :: u32) \<and> unat (4096 :: u32) < 2 ^ 31"
proof -
  obtain st1 bm where st1: "phys_init 4096 phys_st0 = Some st1" "frame_bitmap st1 = bm(0 := 1)"
    using phys_init_4096 by blast
  have reach: "phys_reach 4096 st1 {}" using st1(1) by (rule phys_reach.init)
  note alloc = phys_alloc_frame_first [OF st1(2)]
  show ?thesis
    using st1(1) reach alloc phys_alloc_never_reuses [OF reach _ alloc] by simp
qed

text \<open>
  freeing a frame just allocated restores the set of free frames, so no frame is lost
  or gained by the pair.
\<close>

theorem phys_alloc_free_roundtrip:
  assumes "phys_alloc_frame st = Some (a, st1)" "a \<noteq> 0"
  shows "\<exists>st2. phys_free_frame a st1 = Some st2 \<and>
    free_frames (frame_bitmap st2) = free_frames (frame_bitmap st)"
  using assms(1)
proof (cases rule: phys_alloc_cases)
  case some
  then have "unat a < 2 ^ 31" by (auto simp: free_frames_def)
  from phys_free_some [OF assms(2) this, of st1] obtain bm where
    "phys_free_frame a st1 = Some (st1\<lparr>frame_bitmap := bm\<rparr>)"
    "free_frames bm = insert (unat a div 4096) (free_frames (frame_bitmap st1))" .
  then show ?thesis using some(1,2) by (simp add: insert_absorb)
qed (use assms(2) in simp)

theorem phys_alloc_free_roundtrip_witness:
  "phys_alloc_frame (phys_st0\<lparr>frame_bitmap := (\<lambda>_. 0)(0 := 1)\<rparr>) =
     Some (4096, phys_st0\<lparr>frame_bitmap := (\<lambda>_. 0)(0 := 3)\<rparr>) \<and>
   (\<exists>st2. phys_free_frame 4096 (phys_st0\<lparr>frame_bitmap := (\<lambda>_. 0)(0 := 3)\<rparr>) = Some st2 \<and>
     free_frames (frame_bitmap st2) = free_frames ((\<lambda>_. 0)(0 := 1)))"
proof -
  let ?st = "phys_st0\<lparr>frame_bitmap := (\<lambda>_. 0)(0 := 1)\<rparr>"
  have alloc: "phys_alloc_frame ?st = Some (4096, phys_st0\<lparr>frame_bitmap := (\<lambda>_. 0)(0 := 3)\<rparr>)"
    using phys_alloc_frame_first [of ?st "\<lambda>_. 0"] by simp
  show ?thesis using alloc phys_alloc_free_roundtrip [OF alloc] by simp
qed

end
