(* ===== verification/Paging.thy ===== *)
theory Paging
  imports Physmem
begin

text \<open>
  The page tables, \<open>kernel/arch/i386/mm/paging.c\<close>: one page directory of 1024 entries and
  512 page tables of 1024 entries, which map the first 2 GB. The link-time addresses of the
  two arrays are parameters (\<open>page_directory_addr\<close>, \<open>page_tables_addr\<close>). The writes of the
  control registers and the \<open>invlpg\<close> instructions are recorded in the state. The abstract
  view is the translation that a page walk over the tables computes (\<open>translate\<close>).
\<close>

definition NUM_PAGE_TABLES :: u32 where
  "NUM_PAGE_TABLES = 2048 div 4"

definition PAGE_PRESENT :: u32 where "PAGE_PRESENT = 0x001"
definition PAGE_RW :: u32 where "PAGE_RW = 0x002"
definition PAGE_USER :: u32 where "PAGE_USER = 0x004"

record page_st = phys_st +
  page_directory :: "nat \<Rightarrow> u32"
  page_tables :: "nat \<Rightarrow> nat \<Rightarrow> u32"
  cr3 :: u32
  cr0 :: u32
  invlpgs :: "u32 list"

definition pde_index :: "u32 \<Rightarrow> u32" where
  "pde_index addr = drop_bit 22 addr"

definition pte_index :: "u32 \<Rightarrow> u32" where
  "pte_index addr = drop_bit 12 addr AND 0x3FF"

text \<open>\<open>get_pte\<close> returns the place of the entry: its table and its index, or \<open>NULL\<close>.\<close>

definition get_pte :: "u32 \<Rightarrow> (nat \<times> nat) option" where
  "get_pte vaddr =
     (let pdi = pde_index vaddr; pti = pte_index vaddr
      in if pdi \<ge> NUM_PAGE_TABLES then None else Some (unat pdi, unat pti))"

definition read_pte :: "nat \<times> nat \<Rightarrow> 'a page_st_scheme \<Rightarrow> u32" where
  "read_pte p st = page_tables st (fst p) (snd p)"

definition write_pte :: "nat \<times> nat \<Rightarrow> u32 \<Rightarrow> 'a page_st_scheme \<Rightarrow> 'a page_st_scheme" where
  "write_pte p v st =
     st\<lparr>page_tables := (page_tables st)(fst p := (page_tables st (fst p))(snd p := v))\<rparr>"

definition invlpg :: "u32 \<Rightarrow> 'a page_st_scheme \<Rightarrow> 'a page_st_scheme" where
  "invlpg addr st = st\<lparr>invlpgs := invlpgs st @ [addr]\<rparr>"

partial_function (option) set_user_loop ::
    "u32 \<Rightarrow> u32 \<Rightarrow> 'a page_st_scheme \<Rightarrow> 'a page_st_scheme option" where
  "set_user_loop addr e st =
     (if addr < e then
        set_user_loop (addr + 0x1000) e
          (case get_pte addr of None \<Rightarrow> st
           | Some pte \<Rightarrow> invlpg addr (write_pte pte (read_pte pte st OR PAGE_USER) st))
      else Some st)"

definition paging_set_user_for_range ::
    "u32 \<Rightarrow> u32 \<Rightarrow> 'a page_st_scheme \<Rightarrow> 'a page_st_scheme option" where
  "paging_set_user_for_range start stop st =
     (if stop < start then Some st
      else (let s = start AND NOT 0xFFF; e = (stop + 0xFFF) AND NOT 0xFFF
            in set_user_loop s e st))"

text \<open>
  The two nested loops of \<open>paging_init\<close>; \<open>addr\<close> runs through both of them. The outer loop
  writes the directory entry after each table.
\<close>

fun init_table_loop ::
    "nat \<Rightarrow> nat \<Rightarrow> nat \<Rightarrow> u32 \<Rightarrow> 'a page_st_scheme \<Rightarrow> u32 \<times> 'a page_st_scheme" where
  "init_table_loop t i 0 addr st = (addr, st)"
| "init_table_loop t i (Suc n) addr st =
     init_table_loop t (Suc i) n (addr + PAGE_SIZE)
       (write_pte (t, i) ((addr AND NOT 0xFFF) OR (PAGE_PRESENT OR PAGE_RW)) st)"

fun init_tables_loop ::
    "u32 \<Rightarrow> nat \<Rightarrow> nat \<Rightarrow> u32 \<Rightarrow> 'a page_st_scheme \<Rightarrow> 'a page_st_scheme" where
  "init_tables_loop page_tables_addr t 0 addr st = st"
| "init_tables_loop page_tables_addr t (Suc n) addr st =
     (let (addr', st1) = init_table_loop t 0 1024 addr st;
          pde = (page_tables_addr + of_nat t * 4096) OR (PAGE_PRESENT OR PAGE_RW OR PAGE_USER)
      in init_tables_loop page_tables_addr (Suc t) n addr'
           (st1\<lparr>page_directory := (page_directory st1)(t := pde)\<rparr>))"

definition paging_init :: "u32 \<Rightarrow> 'a page_st_scheme \<Rightarrow> 'a page_st_scheme option" where
  "paging_init page_tables_addr st =
     (let st1 = console_write Paging_c
            (''Setting up identity-mapped paging (0'' @ [CHR 0xE2, CHR 0x80, CHR 0x93] @
             ''2048MB)...'' @ [newline]) st;
          st2 = st1\<lparr>page_directory := (\<lambda>i. if i < 1024 then 0 else page_directory st1 i)\<rparr>;
          st3 = init_tables_loop page_tables_addr 0 (unat NUM_PAGE_TABLES) 0 st2;
          st4 = st3\<lparr>page_directory := (\<lambda>i. if unat NUM_PAGE_TABLES \<le> i \<and> i < 1024 then 0
                   else page_directory st3 i)\<rparr>;
          st5 = console_write Paging_c (''Identity map complete.'' @ [newline]) st4
      in paging_set_user_for_range 0x00000000 (2048 * 1024 * 1024) st5)"

definition paging_enable :: "u32 \<Rightarrow> 'a page_st_scheme \<Rightarrow> 'a page_st_scheme" where
  "paging_enable page_directory_addr st =
     (let st1 = st\<lparr>cr3 := page_directory_addr\<rparr>;
          st2 = st1\<lparr>cr0 := cr0 st1 OR 0x80000000\<rparr>
      in console_write Paging_c (''Paging enabled.'' @ [newline, newline]) st2)"

definition paging_map :: "u32 \<Rightarrow> u32 \<Rightarrow> u32 \<Rightarrow> 'a page_st_scheme \<Rightarrow> 'a page_st_scheme" where
  "paging_map vaddr paddr flags st =
     (case get_pte vaddr of
        None \<Rightarrow> console_write Paging_c (''paging_map: vaddr out of initial range.'' @ [newline]) st
      | Some pte \<Rightarrow>
          invlpg vaddr (write_pte pte ((paddr AND NOT 0xFFF) OR (flags AND 0xFFF)) st))"

definition paging_unmap :: "u32 \<Rightarrow> 'a page_st_scheme \<Rightarrow> 'a page_st_scheme" where
  "paging_unmap vaddr st =
     (case get_pte vaddr of None \<Rightarrow> st | Some pte \<Rightarrow> invlpg vaddr (write_pte pte 0 st))"

subsection \<open>The translation\<close>

text \<open>
  The page walk of the processor: the directory entry must be present and point at one of
  the page tables, whose entry must be present; the result is the frame and the low 12 bits
  of the address, with the user bit of both entries.
\<close>

definition translate :: "u32 \<Rightarrow> 'a page_st_scheme \<Rightarrow> u32 \<Rightarrow> (u32 \<times> bool) option" where
  "translate page_tables_addr st va =
     (let pde = page_directory st (unat (pde_index va));
          t = unat (drop_bit 12 ((pde AND NOT 0xFFF) - page_tables_addr));
          pte = page_tables st t (unat (pte_index va))
      in if pde AND PAGE_PRESENT = 0 \<or> t \<ge> 512 \<or> pte AND PAGE_PRESENT = 0 then None
         else Some ((pte AND NOT 0xFFF) OR (va AND 0xFFF),
           pde AND PAGE_USER \<noteq> 0 \<and> pte AND PAGE_USER \<noteq> 0))"

subsection \<open>Bits of a page table entry\<close>

lemma page_or_offset: "((va :: u32) AND - 4096) OR (va AND 4095) = va"
proof -
  have "(va AND NOT (mask 12)) OR (va AND mask 12) = va"
    by (auto intro!: bit_eqI simp: bit_simps)
  moreover have "mask 12 = (4095 :: u32)" by (simp add: mask_eq_exp_minus_1)
  ultimately show ?thesis by simp
qed

lemma entry_frame: "f AND - 4096 = 0 \<Longrightarrow> ((a AND - 4096) OR f) AND - 4096 = (a :: u32) AND - 4096"
  by (simp add: word_ao_dist and.assoc)

lemma entry_flags: "g AND - 4096 = 0 \<Longrightarrow> ((a AND - 4096) OR f) AND g = (f :: u32) AND g"
  by (simp add: word_ao_dist and.assoc and.commute [of "- 4096"])

lemma unat_pde_index: "unat (pde_index va) = unat va div 4194304"
  by (simp add: pde_index_def drop_bit_eq_div unat_div)

lemma unat_pte_index: "unat (pte_index va) = unat va div 4096 mod 1024"
proof -
  have "x AND 0x3FF = take_bit 10 x" for x :: u32
    by (simp add: take_bit_eq_mask mask_eq_exp_minus_1)
  then show ?thesis
    by (simp add: pte_index_def take_bit_eq_mod drop_bit_eq_div unat_div unat_mod)
qed

lemma NUM_PAGE_TABLES_eq [simp]: "NUM_PAGE_TABLES = 512"
  by (simp add: NUM_PAGE_TABLES_def)

lemma get_pte_eq:
  "get_pte va = (if unat va < 2 ^ 31
     then Some (unat va div 4194304, unat va div 4096 mod 1024) else None)"
proof -
  have "pde_index va \<ge> 512 \<longleftrightarrow> 512 \<le> unat va div 4194304"
    by (simp add: word_le_nat_alt unat_pde_index)
  also have "\<dots> \<longleftrightarrow> \<not> unat va < 2 ^ 31" by auto
  finally show ?thesis
    by (simp add: get_pte_def Let_def unat_pde_index unat_pte_index)
qed

text \<open>Two addresses share an entry exactly when they lie in the same page.\<close>

lemma entry_eq_iff:
  "v div 4194304 = w div 4194304 \<and> v div 4096 mod 1024 = w div 4096 mod 1024 \<longleftrightarrow>
     v div 4096 = w div (4096 :: nat)"
proof -
  have "x div 4194304 = x div 4096 div 1024" for x :: nat by (simp add: div_mult2_eq [symmetric])
  then show ?thesis by (metis div_mult_mod_eq)
qed

subsection \<open>The loops\<close>

lemma init_table_loop_result:
  "init_table_loop t i n addr st = (addr', st') \<Longrightarrow>
     addr' = addr + of_nat n * 4096 \<and> page_directory st' = page_directory st \<and>
     page_tables st' = (\<lambda>t' j. if t' = t \<and> i \<le> j \<and> j < i + n
       then ((addr + of_nat (j - i) * 4096) AND NOT 0xFFF) OR 3 else page_tables st t' j)"
proof (induction t i n addr st rule: init_table_loop.induct)
  case (2 t i n addr st)
  have j: "j - i = Suc (j - Suc i)" if "Suc i \<le> j" for j using that by simp
  from 2 show ?case
    by (auto simp: PAGE_SIZE_def PAGE_PRESENT_def PAGE_RW_def write_pte_def fun_eq_iff j
        algebra_simps not_less_eq_eq)
qed (auto simp: fun_eq_iff)

lemma init_tables_loop_result:
  "init_tables_loop base t n addr st = st' \<Longrightarrow> addr = of_nat (t * 1024) * 4096 \<Longrightarrow>
     page_directory st' = (\<lambda>t'. if t \<le> t' \<and> t' < t + n
       then (base + of_nat t' * 4096) OR 7 else page_directory st t') \<and>
     page_tables st' = (\<lambda>t' j. if t \<le> t' \<and> t' < t + n \<and> j < 1024
       then ((of_nat (t' * 1024 + j) * 4096) AND NOT 0xFFF) OR 3 else page_tables st t' j)"
proof (induction base t n addr st arbitrary: st' rule: init_tables_loop.induct)
  case (2 base t n addr st)
  obtain addr1 st1 where r: "init_table_loop t 0 1024 addr st = (addr1, st1)" by fastforce
  from init_table_loop_result [OF r] have r1: "addr1 = of_nat (Suc t * 1024) * 4096"
    "page_directory st1 = page_directory st"
    "page_tables st1 = (\<lambda>t' j. if t' = t \<and> j < 1024
       then ((addr + of_nat j * 4096) AND NOT 0xFFF) OR 3 else page_tables st t' j)"
    using "2.prems"(2) by (auto simp: algebra_simps cong: if_cong)
  define st2 where "st2 = st1\<lparr>page_directory := (page_directory st1)
      (t := (base + of_nat t * 4096) OR (PAGE_PRESENT OR PAGE_RW OR PAGE_USER))\<rparr>"
  have "init_tables_loop base (Suc t) n addr1 st2 = st'"
    using "2.prems"(1) r by (simp add: st2_def)
  from "2.IH" [OF r [symmetric] refl refl, folded st2_def, OF this r1(1)]
  have IH: "page_directory st' = (\<lambda>t'. if Suc t \<le> t' \<and> t' < Suc t + n
      then (base + of_nat t' * 4096) OR 7 else page_directory st2 t')"
    "page_tables st' = (\<lambda>t' j. if Suc t \<le> t' \<and> t' < Suc t + n \<and> j < 1024
      then ((of_nat (t' * 1024 + j) * 4096) AND NOT 0xFFF) OR 3 else page_tables st2 t' j)"
    by blast+
  have "page_directory st2 = (page_directory st)(t := (base + of_nat t * 4096) OR 7)"
    "page_tables st2 = page_tables st1"
    using r1(2) by (simp_all add: st2_def PAGE_PRESENT_def PAGE_RW_def PAGE_USER_def)
  moreover have "addr + of_nat j * 4096 = of_nat (t * 1024 + j) * 4096" for j
    using "2.prems"(2) by (simp add: algebra_simps)
  ultimately show ?case
    using IH r1(3) by (auto simp: fun_eq_iff not_less_eq_eq)
qed (auto simp: fun_eq_iff)

lemma set_user_loop_result:
  assumes "unat e = b * 4096"
  shows "unat addr = a * 4096 \<Longrightarrow> a \<le> b \<Longrightarrow>
    \<exists>st'. set_user_loop addr e st = Some st' \<and> page_directory st' = page_directory st \<and>
      (\<forall>t j. j < 1024 \<longrightarrow> page_tables st' t j =
        (if a \<le> t * 1024 + j \<and> t * 1024 + j < b \<and> t < 512
         then page_tables st t j OR PAGE_USER else page_tables st t j))"
proof (induction "b - a" arbitrary: a addr st)
  case 0
  then have "\<not> addr < e" using assms by (simp add: word_less_nat_alt)
  then have "set_user_loop addr e st = Some st" by (simp add: set_user_loop.simps)
  then show ?case using 0 by auto
next
  case (Suc n)
  then have ab: "a < b" by simp
  then have lt: "addr < e" using Suc.prems(1) assms by (simp add: word_less_nat_alt)
  have b: "b * 4096 < 2 ^ 32" using assms unat_u32_bound [of e] by simp
  have next_addr: "unat (addr + 0x1000) = Suc a * 4096"
    using ab b Suc.prems(1) by (subst unat_add_no_wrap) auto
  define st1 where "st1 = (case get_pte addr of None \<Rightarrow> st
      | Some pte \<Rightarrow> invlpg addr (write_pte pte (read_pte pte st OR PAGE_USER) st))"
  have st1: "page_directory st1 = page_directory st"
    "j < 1024 \<Longrightarrow> page_tables st1 t j =
       (if t * 1024 + j = a \<and> t < 512 then page_tables st t j OR PAGE_USER
        else page_tables st t j)" for t j
  proof -
    have idx: "t = a div 1024 \<and> j = a mod 1024 \<longleftrightarrow> t * 1024 + j = a" if "j < 1024"
      using that by auto
    have pt: "unat addr div 4194304 = a div 1024" "unat addr div 4096 mod 1024 = a mod 1024"
      using Suc.prems(1) by simp_all
    have lt: "unat addr < 2 ^ 31 \<longleftrightarrow> a div 1024 < 512"
      using Suc.prems(1) by auto
    show "page_directory st1 = page_directory st"
      by (simp add: st1_def invlpg_def write_pte_def split: option.split)
    show "page_tables st1 t j =
       (if t * 1024 + j = a \<and> t < 512 then page_tables st t j OR PAGE_USER
        else page_tables st t j)" if "j < 1024"
      using idx [OF that] lt by (auto simp: st1_def get_pte_eq pt invlpg_def write_pte_def read_pte_def)
  qed
  have "n = b - Suc a" "Suc a \<le> b" using Suc.hyps(2) by simp_all
  from Suc.hyps(1) [OF this(1) next_addr this(2), of st1] obtain st' where st':
    "set_user_loop (addr + 0x1000) e st1 = Some st'" "page_directory st' = page_directory st1"
    "\<forall>t j. j < 1024 \<longrightarrow> page_tables st' t j =
        (if Suc a \<le> t * 1024 + j \<and> t * 1024 + j < b \<and> t < 512
         then page_tables st1 t j OR PAGE_USER else page_tables st1 t j)" by blast
  have "set_user_loop addr e st = Some st'"
    using lt st'(1) by (subst set_user_loop.simps) (simp add: st1_def)
  moreover have "page_tables st' t j =
        (if a \<le> t * 1024 + j \<and> t * 1024 + j < b \<and> t < 512
         then page_tables st t j OR PAGE_USER else page_tables st t j)" if "j < 1024" for t j
    using st'(3) st1(2) that ab by (auto simp: not_less_eq_eq)
  ultimately show ?case using st'(2) st1(1) by auto
qed

subsection \<open>The tables after initialisation\<close>

lemma page_con_call [simp, frame_simps]:
  "page_directory (con_call f c st) = page_directory st"
  "page_tables (con_call f c st) = page_tables st"
  by (simp_all add: con_call_def)

lemma paging_init_tables:
  obtains st' where "paging_init base st = Some st'"
    and "\<And>t. t < 1024 \<Longrightarrow> page_directory st' t = (if t < 512 then (base + of_nat t * 4096) OR 7 else 0)"
    and "\<And>t j. t < 512 \<Longrightarrow> j < 1024 \<Longrightarrow>
      page_tables st' t j = (((of_nat (t * 1024 + j) * 4096) AND NOT 0xFFF) OR 3) OR PAGE_USER"
proof -
  define st1 where "st1 = console_write Paging_c
      (''Setting up identity-mapped paging (0'' @ [CHR 0xE2, CHR 0x80, CHR 0x93] @
       ''2048MB)...'' @ [newline]) st"
  define st2 where "st2 = st1\<lparr>page_directory := (\<lambda>i. if i < 1024 then 0 else page_directory st1 i)\<rparr>"
  define st3 where "st3 = init_tables_loop base 0 (unat NUM_PAGE_TABLES) 0 st2"
  define st4 where "st4 = st3\<lparr>page_directory := (\<lambda>i. if unat NUM_PAGE_TABLES \<le> i \<and> i < 1024 then 0
      else page_directory st3 i)\<rparr>"
  define st5 where "st5 = console_write Paging_c (''Identity map complete.'' @ [newline]) st4"
  have init: "paging_init base st = paging_set_user_for_range 0 (2048 * 1024 * 1024) st5"
    unfolding paging_init_def Let_def st1_def [symmetric] st2_def [symmetric] st3_def [symmetric]
      st4_def [symmetric] st5_def [symmetric] by simp
  have e: "(2048 * 1024 * 1024 + 0xFFF) AND NOT 0xFFF = (0x80000000 :: u32)" by simp
  have "unat (0x80000000 :: u32) = 524288 * 4096" by simp
  from set_user_loop_result [OF this, of 0 0 st5] obtain st' where
    st': "set_user_loop 0 0x80000000 st5 = Some st'" "page_directory st' = page_directory st5"
    "\<forall>t j. j < 1024 \<longrightarrow> page_tables st' t j =
        (if t * 1024 + j < 524288 \<and> t < 512
         then page_tables st5 t j OR PAGE_USER else page_tables st5 t j)" by auto
  have "paging_init base st = Some st'"
    using init st'(1) e by (simp add: paging_set_user_for_range_def Let_def)
  moreover have "page_directory st' t = (if t < 512 then (base + of_nat t * 4096) OR 7 else 0)"
    if "t < 1024" for t
    using that st'(2) init_tables_loop_result [OF st3_def [symmetric]]
    by (simp add: st5_def st4_def)
  moreover have "page_tables st' t j = (((of_nat (t * 1024 + j) * 4096) AND NOT 0xFFF) OR 3) OR PAGE_USER"
    if "t < 512" "j < 1024" for t j
  proof -
    have "t * 1024 + j < 524288" using that by linarith
    then show ?thesis
      using that st'(3) init_tables_loop_result [OF st3_def [symmetric]]
      by (simp add: st5_def st4_def)
  qed
  ultimately show thesis using that by blast
qed

lemma aligned_frame: "4096 dvd unat x \<Longrightarrow> x AND - 4096 = (x :: u32)"
  using unat_and_not_page [of x] by (simp add: word_unat_eq_iff)

lemma translate_eq:
  assumes "page_directory st t = (base + of_nat t * 4096) OR 7" "t = unat va div 4194304" "t < 512"
    "4096 dvd unat base" "unat base + 512 * 4096 \<le> 2 ^ 32"
  shows "translate base st va =
    (let pte = page_tables st t (unat va div 4096 mod 1024)
     in if pte AND PAGE_PRESENT = 0 then None
        else Some ((pte AND NOT 0xFFF) OR (va AND 0xFFF), pte AND PAGE_USER \<noteq> 0))"
proof -
  have "unat (base + of_nat t * 4096) = unat base + t * 4096"
  proof -
    have "unat (of_nat t * 4096 :: u32) = t * 4096"
      using unat_of_nat32 [of "t * 4096"] assms(3) by simp
    then show ?thesis using assms(3,5) by (subst unat_add_no_wrap) auto
  qed
  then have "4096 dvd unat (base + of_nat t * 4096)" using assms(4) by simp
  then have frame: "((base + of_nat t * 4096) OR 7) AND - 4096 = base + of_nat t * 4096"
    using aligned_frame entry_frame [of 7 "base + of_nat t * 4096"] by simp
  have "unat (of_nat t * 4096 :: u32) = t * 4096"
    using unat_of_nat32 [of "t * 4096"] assms(3) by simp
  then have "unat (drop_bit 12 (of_nat t * 4096 :: u32)) = t"
    by (simp add: drop_bit_eq_div unat_div)
  moreover have "((base + of_nat t * 4096) OR 7) AND 1 \<noteq> 0" "((base + of_nat t * 4096) OR 7) AND 4 \<noteq> 0"
    by (simp_all add: word_ao_dist)
  ultimately show ?thesis
    using assms(1-3) frame
    by (simp add: translate_def Let_def unat_pde_index unat_pte_index PAGE_PRESENT_def PAGE_USER_def)
qed

text \<open>
  The invariant of the directory, for a page-aligned array of tables: entry \<open>t\<close> points at
  table \<open>t\<close>, and the upper half is not present.
\<close>

definition page_dirs_ok :: "u32 \<Rightarrow> 'a page_st_scheme \<Rightarrow> bool" where
  "page_dirs_ok base st \<longleftrightarrow> 4096 dvd unat base \<and> unat base + 512 * 4096 \<le> 2 ^ 32 \<and>
     (\<forall>t < 1024. page_directory st t = (if t < 512 then (base + of_nat t * 4096) OR 7 else 0))"

lemma translate_low:
  assumes "page_dirs_ok base st" "unat va < 2 ^ 31"
  shows "translate base st va =
    (let pte = page_tables st (unat va div 4194304) (unat va div 4096 mod 1024)
     in if pte AND PAGE_PRESENT = 0 then None
        else Some ((pte AND NOT 0xFFF) OR (va AND 0xFFF), pte AND PAGE_USER \<noteq> 0))"
  using assms by (intro translate_eq) (auto simp: page_dirs_ok_def)

lemma translate_high:
  assumes "page_dirs_ok base st" "\<not> unat va < 2 ^ 31"
  shows "translate base st va = None"
proof -
  have "unat va div 4194304 < 1024" "\<not> unat va div 4194304 < 512"
    using assms(2) unat_u32_bound [of va] by auto
  then have "page_directory st (unat va div 4194304) = 0"
    using assms(1) by (simp add: page_dirs_ok_def)
  then show ?thesis by (simp add: translate_def Let_def unat_pde_index)
qed

lemma translate_write_pte:
  assumes "page_dirs_ok base st" "unat v < 2 ^ 31"
  shows "translate base (write_pte (unat v div 4194304, unat v div 4096 mod 1024) x st) va =
    (if unat va div 4096 = unat v div 4096
     then if x AND PAGE_PRESENT = 0 then None
          else Some ((x AND NOT 0xFFF) OR (va AND 0xFFF), x AND PAGE_USER \<noteq> 0)
     else translate base st va)"
proof -
  let ?st = "write_pte (unat v div 4194304, unat v div 4096 mod 1024) x st"
  have ok: "page_dirs_ok base ?st"
    using assms(1) by (simp add: page_dirs_ok_def write_pte_def)
  show ?thesis
  proof (cases "unat va < 2 ^ 31")
    case True
    have "page_tables ?st (unat va div 4194304) (unat va div 4096 mod 1024) =
        (if unat va div 4096 = unat v div 4096 then x
         else page_tables st (unat va div 4194304) (unat va div 4096 mod 1024))"
      using entry_eq_iff [of "unat va" "unat v"] by (auto simp: write_pte_def)
    then show ?thesis
      using translate_low [OF ok True] translate_low [OF assms(1) True] by (simp add: Let_def)
  next
    case False
    then have "524288 \<le> unat va div 4096" "unat v div 4096 < 524288" using assms(2) by auto
    then have "unat va div 4096 \<noteq> unat v div 4096" by linarith
    then show ?thesis using translate_high [OF ok False] translate_high [OF assms(1) False] by simp
  qed
qed

lemma translate_invlpg [simp]: "translate base (invlpg v st) va = translate base st va"
  by (simp add: translate_def invlpg_def)

lemma page_dirs_ok_frame [simp]:
  "page_dirs_ok base (invlpg v st) = page_dirs_ok base st"
  "page_dirs_ok base (write_pte p x st) = page_dirs_ok base st"
  "page_dirs_ok base (con_call f c st) = page_dirs_ok base st"
  by (simp_all add: page_dirs_ok_def invlpg_def write_pte_def)

text \<open>
  A concrete state for the witnesses: the statics of a freshly loaded kernel, and one whose
  directory points at tables at 2 MB with no page mapped.
\<close>

definition page_st0 :: page_st where
  "page_st0 = phys_st.extend phys_st0 \<lparr>page_directory = (\<lambda>_. 0), page_tables = (\<lambda>_ _. 0),
     cr3 = 0, cr0 = 0, invlpgs = []\<rparr>"

definition page_st1 :: page_st where
  "page_st1 = page_st0\<lparr>page_directory :=
     (\<lambda>t. if t < 512 then (0x200000 + of_nat t * 4096) OR 7 else 0)\<rparr>"

lemma page_dirs_ok_st1: "page_dirs_ok 0x200000 page_st1"
  by (simp add: page_dirs_ok_def page_st1_def)

subsection \<open>Properties\<close>

text \<open>
  C24: after \<open>paging_init\<close> every address below 2 GB translates to itself, from user mode too,
  and every address from 2 GB on faults; this holds for any page-aligned place of the
  tables.
\<close>

theorem paging_init_identity:
  assumes "4096 dvd unat base" "unat base + 512 * 4096 \<le> 2 ^ 32"
  shows "\<exists>st'. paging_init base st = Some st' \<and> page_dirs_ok base st' \<and>
    (\<forall>va. translate base st' va = (if unat va < 2 ^ 31 then Some (va, True) else None))"
proof -
  obtain st' where st': "paging_init base st = Some st'"
    "\<And>t. t < 1024 \<Longrightarrow> page_directory st' t = (if t < 512 then (base + of_nat t * 4096) OR 7 else 0)"
    "\<And>t j. t < 512 \<Longrightarrow> j < 1024 \<Longrightarrow>
      page_tables st' t j = (((of_nat (t * 1024 + j) * 4096) AND NOT 0xFFF) OR 3) OR PAGE_USER"
    using paging_init_tables [of base st] by blast
  have ok: "page_dirs_ok base st'" using assms st'(2) by (simp add: page_dirs_ok_def)
  have "translate base st' va = Some (va, True)" if va: "unat va < 2 ^ 31" for va
  proof -
    let ?t = "unat va div 4194304" and ?j = "unat va div 4096 mod 1024"
    have tj: "?t * 1024 + ?j = unat va div 4096" 
      using div_mult2_eq [of "unat va" 4096 1024] div_mult_mod_eq [of "unat va div 4096" 1024] by simp
    have "unat (of_nat (unat va div 4096) * 4096 :: u32) = unat va div 4096 * 4096"
      using unat_of_nat32 [of "unat va div 4096 * 4096"] unat_u32_bound [of va] by simp
    then have page: "of_nat (?t * 1024 + ?j) * 4096 = va AND - 4096"
      using unat_and_not_page [of va] tj by (simp add: word_unat_eq_iff)
    have "?t < 512" using va by (simp add: less_mult_imp_div_less)
    then have pte: "page_tables st' ?t ?j = (va AND - 4096) OR 7"
      using st'(3) [of ?t ?j] page by (simp add: PAGE_USER_def and.assoc or.assoc)
    show ?thesis
      using translate_low [OF ok va] pte entry_frame [of 7 va] entry_flags [of 1 va 7]
        entry_flags [of 4 va 7] page_or_offset [of va]
      by (simp add: Let_def PAGE_PRESENT_def PAGE_USER_def)
  qed
  with translate_high [OF ok] st'(1) ok show ?thesis by auto
qed

theorem paging_init_identity_witness:
  "\<exists>st'. paging_init 0x200000 page_st0 = Some st' \<and>
     translate 0x200000 st' 0x12345678 = Some (0x12345678, True) \<and>
     translate 0x200000 st' 0x80000000 = None"
  using paging_init_identity [of "0x200000" page_st0] by auto

text \<open>
  C25: mapping a page of the managed range with the present bit set makes exactly the
  addresses of that page translate to the given frame with the given user permission; all
  other translations stay, the directory invariant stays and the stale translation of the
  page is flushed.
\<close>

theorem paging_map_translates:
  assumes "page_dirs_ok base st" "unat vaddr < 2 ^ 31" "flags AND PAGE_PRESENT \<noteq> 0"
  shows "translate base (paging_map vaddr paddr flags st) va =
      (if unat va div 4096 = unat vaddr div 4096
       then Some ((paddr AND NOT 0xFFF) OR (va AND 0xFFF), flags AND PAGE_USER \<noteq> 0)
       else translate base st va) \<and>
    page_dirs_ok base (paging_map vaddr paddr flags st) \<and>
    invlpgs (paging_map vaddr paddr flags st) = invlpgs st @ [vaddr]"
proof -
  let ?x = "(paddr AND NOT 0xFFF) OR (flags AND 0xFFF)"
  have x: "?x AND 1 = flags AND 1" "?x AND 4 = flags AND 4" "?x AND - 4096 = paddr AND - 4096"
    by (simp_all add: word_ao_dist and.assoc)
  have "paging_map vaddr paddr flags st =
      invlpg vaddr (write_pte (unat vaddr div 4194304, unat vaddr div 4096 mod 1024) ?x st)"
    using assms(2) by (simp add: paging_map_def get_pte_eq)
  then show ?thesis
    using translate_write_pte [OF assms(1,2), of ?x va] assms(1,3) x
    by (simp add: PAGE_PRESENT_def PAGE_USER_def) (simp add: invlpg_def write_pte_def)
qed

theorem paging_map_translates_witness:
  "translate 0x200000 (paging_map 0x5000 0x123000 3 page_st1) 0x5678 = Some (0x123678, False) \<and>
   invlpgs (paging_map 0x5000 0x123000 3 page_st1) = invlpgs page_st1 @ [0x5000]"
  using paging_map_translates [OF page_dirs_ok_st1, of "0x5000" 3 "0x123000" "0x5678"]
  by (simp add: PAGE_PRESENT_def PAGE_USER_def)

text \<open>
  unmapping a page makes exactly the addresses of that page fault, leaves every other
  translation and flushes the stale one.
\<close>

theorem paging_unmap_faults:
  assumes "page_dirs_ok base st" "unat vaddr < 2 ^ 31"
  shows "translate base (paging_unmap vaddr st) va =
      (if unat va div 4096 = unat vaddr div 4096 then None else translate base st va) \<and>
    page_dirs_ok base (paging_unmap vaddr st) \<and>
    invlpgs (paging_unmap vaddr st) = invlpgs st @ [vaddr]"
proof -
  have "paging_unmap vaddr st =
      invlpg vaddr (write_pte (unat vaddr div 4194304, unat vaddr div 4096 mod 1024) 0 st)"
    using assms(2) by (simp add: paging_unmap_def get_pte_eq)
  then show ?thesis
    using translate_write_pte [OF assms(1,2), of 0 va] assms(1)
    by simp (simp add: invlpg_def write_pte_def)
qed

theorem paging_unmap_faults_witness:
  "translate 0x200000 (paging_unmap 0x5000 page_st1) 0x5678 = None \<and>
   page_dirs_ok 0x200000 (paging_unmap 0x5000 page_st1)"
  using paging_unmap_faults [OF page_dirs_ok_st1, of "0x5000" "0x5678"] by simp

text \<open>
  giving a range to user mode always returns, and sets the user bit of exactly the
  entries of the pages that meet the range, as long as the end rounded up to a page does
  not wrap around.
\<close>

theorem paging_set_user_range:
  assumes "unat start \<le> unat stop" "unat stop + 4095 < 2 ^ 32"
  shows "\<exists>st'. paging_set_user_for_range start stop st = Some st' \<and>
    page_directory st' = page_directory st \<and>
    (\<forall>t j. j < 1024 \<longrightarrow> page_tables st' t j =
       (if unat start div 4096 \<le> t * 1024 + j \<and> (t * 1024 + j) * 4096 < unat stop \<and> t < 512
        then page_tables st t j OR PAGE_USER else page_tables st t j))"
proof -
  let ?b = "(unat stop + 4095) div 4096"
  have s: "unat (start AND NOT 0xFFF) = unat start div 4096 * 4096"
    by (rule unat_and_not_page)
  have "unat (stop + 0xFFF) = unat stop + 4095"
    using assms(2) by (subst unat_add_no_wrap) auto
  then have e: "unat ((stop + 0xFFF) AND NOT 0xFFF) = ?b * 4096"
    using unat_and_not_page [of "stop + 0xFFF"] by simp
  have b: "p < ?b \<longleftrightarrow> p * 4096 < unat stop" for p by linarith
  have le: "unat start div 4096 \<le> ?b" using assms(1) by (intro div_le_mono) simp
  from set_user_loop_result [OF e s le, of st] b show ?thesis
    using assms(1) by (auto simp: paging_set_user_for_range_def word_less_nat_alt Let_def)
qed

theorem paging_set_user_range_witness:
  "unat (0x1800 :: u32) \<le> unat (0x3001 :: u32) \<and>
   (\<exists>st'. paging_set_user_for_range 0x1800 0x3001 page_st1 = Some st' \<and>
     page_tables st' 0 1 = 4 \<and> page_tables st' 0 3 = 4 \<and> page_tables st' 0 4 = 0)"
proof -
  obtain st' where "paging_set_user_for_range 0x1800 0x3001 page_st1 = Some st'"
    "\<forall>t j. j < 1024 \<longrightarrow> page_tables st' t j =
       (if 1 \<le> t * 1024 + j \<and> (t * 1024 + j) * 4096 < 0x3001 \<and> t < 512
        then page_tables page_st1 t j OR PAGE_USER else page_tables page_st1 t j)"
    using paging_set_user_range [of "0x1800" "0x3001" page_st1] by auto
  then show ?thesis
    by (auto simp: page_st1_def page_st0_def phys_st.defs phys_st0_def PAGE_USER_def)
qed

end
