(* ===== verification/Kmalloc.thy ===== *)
theory Kmalloc
  imports Paging
begin

text \<open>
  The kernel heap, \<open>kernel/arch/i386/mm/kmalloc.c\<close>: a bump allocator over 1 MB at 16 MB
  that never frees. The pointer returned is an address; what a caller stores there is part
  of the caller's state. As long as the bound check does not overflow 32 bits, a block
  returned lies inside the heap and above every block returned before.
\<close>

definition KHEAP_START :: u32 where "KHEAP_START = 0x1000000"
definition KHEAP_SIZE :: u32 where "KHEAP_SIZE = 0x100000"

record kmem_st = page_st +
  heap_offset :: u32

definition kmalloc_init :: "'a kmem_st_scheme \<Rightarrow> 'a kmem_st_scheme" where
  "kmalloc_init st =
     (console_write Kmalloc_c (''Kernel heap initialized.'' @ [newline]) st)\<lparr>heap_offset := 0\<rparr>"

definition kmalloc :: "u32 \<Rightarrow> 'a kmem_st_scheme \<Rightarrow> ptr \<times> 'a kmem_st_scheme" where
  "kmalloc sz st =
     (if heap_offset st + sz \<ge> KHEAP_SIZE
      then (NULL, console_write Kmalloc_c (''kmalloc: OUT OF MEMORY!'' @ [newline]) st)
      else (let p = KHEAP_START + heap_offset st
            in (p, st\<lparr>heap_offset := heap_offset st + sz\<rparr>)))"

subsection \<open>Blocks\<close>

definition heap_top :: "'a kmem_st_scheme \<Rightarrow> nat" where
  "heap_top st = unat KHEAP_START + unat (heap_offset st)"

definition kmem_wf :: "'a kmem_st_scheme \<Rightarrow> bool" where
  "kmem_wf st \<longleftrightarrow> unat (heap_offset st) < unat KHEAP_SIZE"

text \<open>A request that cannot wrap the 32-bit sum: less than 4 GB minus the heap.\<close>

definition small_size :: "u32 \<Rightarrow> bool" where
  "small_size sz \<longleftrightarrow> unat sz < 2 ^ 32 - 2 ^ 20"

lemma heap_offset_con_call [simp, frame_simps]: "heap_offset (con_call f c st) = heap_offset st"
  by (simp add: con_call_def)

lemma heap_top_con_call [simp, frame_simps]: "heap_top (con_call f c st) = heap_top st"
  by (simp add: heap_top_def)

lemma kmem_wf_con_call [simp]: "kmem_wf (con_call f c st) = kmem_wf st"
  by (simp add: kmem_wf_def)

lemma kmalloc_sum:
  "kmem_wf st \<Longrightarrow> small_size sz \<Longrightarrow>
     unat (heap_offset st + sz) = unat (heap_offset st) + unat sz"
  by (rule unat_add_no_wrap) (auto simp: kmem_wf_def small_size_def KHEAP_SIZE_def)

lemma kmalloc_ok:
  assumes "kmem_wf st" "small_size sz" "unat (heap_offset st) + unat sz < unat KHEAP_SIZE"
  shows "kmalloc sz st =
    (KHEAP_START + heap_offset st, st\<lparr>heap_offset := heap_offset st + sz\<rparr>)"
  using assms kmalloc_sum [OF assms(1,2)]
  by (simp add: kmalloc_def word_le_nat_alt Let_def)

lemma kmalloc_oom:
  assumes "kmem_wf st" "small_size sz" "\<not> unat (heap_offset st) + unat sz < unat KHEAP_SIZE"
  shows "kmalloc sz st =
    (NULL, console_write Kmalloc_c (''kmalloc: OUT OF MEMORY!'' @ [newline]) st)"
  using assms kmalloc_sum [OF assms(1,2)]
  by (simp add: kmalloc_def word_le_nat_alt Let_def)

lemma unat_heap_ptr: "kmem_wf st \<Longrightarrow> unat (KHEAP_START + heap_offset st) = heap_top st"
  unfolding heap_top_def
  by (rule unat_add_no_wrap) (simp add: kmem_wf_def KHEAP_START_def KHEAP_SIZE_def)

lemma kmalloc_cases:
  assumes "kmalloc sz st = (p, st')" "kmem_wf st" "small_size sz"
  obtains (oom) "p = NULL" "heap_offset st' = heap_offset st"
      "st' = console_write Kmalloc_c (''kmalloc: OUT OF MEMORY!'' @ [newline]) st"
  | (ok) "p \<noteq> NULL" "unat p = heap_top st" "heap_top st' = heap_top st + unat sz"
      "st' = st\<lparr>heap_offset := heap_offset st + sz\<rparr>" "kmem_wf st'"
proof (cases "unat (heap_offset st) + unat sz < unat KHEAP_SIZE")
  case True
  with kmalloc_ok [OF assms(2,3)] assms(1)
  have e: "p = KHEAP_START + heap_offset st" "st' = st\<lparr>heap_offset := heap_offset st + sz\<rparr>"
    by auto
  have p: "unat p = heap_top st" using unat_heap_ptr [OF assms(2)] e(1) by simp
  moreover have "0 < heap_top st" by (simp add: heap_top_def KHEAP_START_def)
  ultimately have "p \<noteq> NULL" by (metis less_irrefl unat_0)
  then show thesis
    using ok p e True kmalloc_sum [OF assms(2,3)] by (simp add: heap_top_def kmem_wf_def)
next
  case False
  with kmalloc_oom [OF assms(2,3)] assms(1) oom show thesis by auto
qed

text \<open>
  The interface the clients rely on: an allocator with a level below which everything has
  been handed out. Client lemma: two successive blocks are disjoint.
\<close>

locale bump_allocator =
  fixes alloc :: "u32 \<Rightarrow> 's \<Rightarrow> ptr \<times> 's"
    and top :: "'s \<Rightarrow> nat"
    and good :: "'s \<Rightarrow> bool"
    and fits :: "u32 \<Rightarrow> bool"
  assumes alloc_good: "good s \<Longrightarrow> fits n \<Longrightarrow> alloc n s = (p, s') \<Longrightarrow> good s'"
    and alloc_top: "good s \<Longrightarrow> fits n \<Longrightarrow> alloc n s = (p, s') \<Longrightarrow> p \<noteq> NULL \<Longrightarrow>
      unat p = top s \<and> top s' = top s + unat n"
    and alloc_null: "good s \<Longrightarrow> fits n \<Longrightarrow> alloc n s = (NULL, s') \<Longrightarrow> top s' = top s"
begin

lemma alloc_mono:
  assumes "good s" "fits n" "alloc n s = (p, s')"
  shows "top s \<le> top s'"
  using assms alloc_top [of s n p s'] alloc_null [of s n s'] by (cases "p = NULL") auto

lemma alloc_disjoint:
  assumes "good s" "fits n" "alloc n s = (p, s1)" "p \<noteq> NULL"
    and "fits m" "alloc m s1 = (q, s2)" "q \<noteq> NULL"
  shows "{unat p ..< unat p + unat n} \<inter> {unat q ..< unat q + unat m} = {}"
  using alloc_top [OF assms(1-4)] alloc_top [OF alloc_good [OF assms(1-3)] assms(5-7)] by auto

end

interpretation kheap: bump_allocator
  "kmalloc :: u32 \<Rightarrow> 'a kmem_st_scheme \<Rightarrow> ptr \<times> 'a kmem_st_scheme" heap_top kmem_wf small_size
proof
  fix s s' :: "'a kmem_st_scheme" and n p
  assume *: "kmem_wf s" "small_size n" "kmalloc n s = (p, s')"
  from *(3,1,2) show "kmem_wf s'"
    by (cases rule: kmalloc_cases) (use *(1) in auto)
  show "unat p = heap_top s \<and> heap_top s' = heap_top s + unat n" if "p \<noteq> NULL"
    using *(3,1,2) by (cases rule: kmalloc_cases) (use that in auto)
next
  fix s s' :: "'a kmem_st_scheme" and n
  assume *: "kmem_wf s" "small_size n" "kmalloc n s = (NULL, s')"
  from *(3,1,2) show "heap_top s' = heap_top s"
    by (cases rule: kmalloc_cases) auto
qed

subsection \<open>Sequences of requests\<close>

fun kmalloc_seq :: "u32 list \<Rightarrow> 'a kmem_st_scheme \<Rightarrow> (ptr \<times> u32) list \<times> 'a kmem_st_scheme" where
  "kmalloc_seq [] st = ([], st)"
| "kmalloc_seq (sz # szs) st =
     (let (p, st1) = kmalloc sz st; (ps, st2) = kmalloc_seq szs st1
      in ((p, sz) # ps, st2))"

definition block :: "ptr \<times> u32 \<Rightarrow> nat set" where
  "block b = (if fst b = NULL then {} else {unat (fst b) ..< unat (fst b) + unat (snd b)})"

lemma kmalloc_seq_blocks:
  "kmem_wf st \<Longrightarrow> list_all small_size szs \<Longrightarrow> kmalloc_seq szs st = (bs, st') \<Longrightarrow>
     kmem_wf st' \<and> heap_top st \<le> heap_top st' \<and>
     (\<forall>b \<in> set bs. block b \<subseteq> {heap_top st ..< heap_top st'}) \<and>
     sorted_wrt (\<lambda>b c. block b \<inter> block c = {}) bs"
proof (induction szs arbitrary: st bs)
  case (Cons sz szs)
  obtain p st1 where a: "kmalloc sz st = (p, st1)" by fastforce
  obtain ps where r: "kmalloc_seq szs st1 = (ps, st')" "bs = (p, sz) # ps"
    using Cons.prems(3) a by (auto split: prod.splits)
  have fits: "small_size sz" "list_all small_size szs" using Cons.prems(2) by auto
  note wf1 = kheap.alloc_good [OF Cons.prems(1) fits(1) a]
  note mono = kheap.alloc_mono [OF Cons.prems(1) fits(1) a]
  have b: "block (p, sz) \<subseteq> {heap_top st ..< heap_top st1}"
    using kheap.alloc_top [OF Cons.prems(1) fits(1) a] by (auto simp: block_def)
  from Cons.IH [OF wf1 fits(2) r(1)] have IH: "kmem_wf st'" "heap_top st1 \<le> heap_top st'"
    "\<forall>b \<in> set ps. block b \<subseteq> {heap_top st1 ..< heap_top st'}"
    "sorted_wrt (\<lambda>b c. block b \<inter> block c = {}) ps" by blast+
  have "block (p, sz) \<inter> block c = {}" if "c \<in> set ps" for c
    using b IH(3) that by fastforce
  moreover have "block c \<subseteq> {heap_top st ..< heap_top st'}" if "c \<in> set bs" for c
    using that b IH(2,3) mono r(2) by fastforce
  ultimately show ?case using IH(1,2,4) mono r(2) by simp
qed simp

subsection \<open>Properties\<close>

definition kmem_st0 :: kmem_st where
  "kmem_st0 = page_st.extend page_st0 \<lparr>heap_offset = 0\<rparr>"

text \<open>
  in a well-formed heap a request that cannot wrap either fails, exactly when the block
  would reach the end of the heap, and leaves the heap alone, or returns the current top of
  the heap, inside the 1 MB region, and moves the top by the size.
\<close>

theorem kmalloc_spec:
  assumes "kmem_wf st" "small_size sz"
  shows "if unat (heap_offset st) + unat sz < 0x100000
    then \<exists>p st'. kmalloc sz st = (p, st') \<and> p \<noteq> NULL \<and> unat p = heap_top st \<and>
      heap_top st' = unat p + unat sz \<and> 0x1000000 \<le> unat p \<and> unat p + unat sz < 0x1100000 \<and>
      kmem_wf st'
    else \<exists>st'. kmalloc sz st = (NULL, st') \<and> heap_offset st' = heap_offset st"
proof -
  obtain p st' where a: "kmalloc sz st = (p, st')" by fastforce
  from a assms show ?thesis
  proof (cases rule: kmalloc_cases)
    case oom
    then have "\<not> unat (heap_offset st) + unat sz < 0x100000"
      using a kmalloc_ok [OF assms] unat_heap_ptr [OF assms(1)]
      by (auto simp: KHEAP_SIZE_def heap_top_def KHEAP_START_def)
    then show ?thesis using a oom by simp
  next
    case ok
    then have "unat (heap_offset st) + unat sz < 0x100000"
      by (simp add: kmem_wf_def heap_top_def KHEAP_SIZE_def)
    then show ?thesis using a ok by (auto simp: heap_top_def KHEAP_START_def)
  qed
qed

theorem kmalloc_spec_witness:
  "kmem_wf kmem_st0 \<and> small_size 56 \<and>
   (\<exists>p st'. kmalloc 56 kmem_st0 = (p, st') \<and> unat p = 0x1000000 \<and> heap_top st' = 0x1000038)"
proof -
  have h: "kmem_wf kmem_st0" "small_size 56" "heap_offset kmem_st0 = 0"
    by (simp_all add: kmem_wf_def kmem_st0_def page_st.defs small_size_def KHEAP_SIZE_def)
  show ?thesis
    using h kmalloc_spec [OF h(1,2)] by (auto simp: heap_top_def KHEAP_START_def)
qed

text \<open>
  C26: the blocks returned by any sequence of requests that cannot wrap are pairwise disjoint
  and lie inside the heap region.
\<close>

theorem kmalloc_blocks_disjoint:
  assumes "kmem_wf st" "list_all small_size szs" "kmalloc_seq szs st = (bs, st')"
    and "i < j" "j < length bs"
  shows "block (bs ! i) \<inter> block (bs ! j) = {} \<and> block (bs ! i) \<subseteq> {0x1000000 ..< 0x1100000}"
proof -
  note r = kmalloc_seq_blocks [OF assms(1-3)]
  have "block (bs ! i) \<inter> block (bs ! j) = {}"
    using r assms(4,5) by (auto simp: sorted_wrt_iff_nth_less)
  moreover have "block (bs ! i) \<subseteq> {heap_top st ..< heap_top st'}"
    using r assms(4,5) by simp
  moreover have "0x1000000 \<le> heap_top st" by (simp add: heap_top_def KHEAP_START_def)
  moreover have "heap_top st' < 0x1100000"
    using r by (simp add: heap_top_def kmem_wf_def KHEAP_START_def KHEAP_SIZE_def)
  ultimately show ?thesis by fastforce
qed

theorem kmalloc_blocks_disjoint_witness:
  "\<exists>bs st'. kmalloc_seq [56, 0x100000, 40] kmem_st0 = (bs, st') \<and>
     bs = [(0x1000000, 56), (NULL, 0x100000), (0x1000038, 40)] \<and>
     block (bs ! 0) \<inter> block (bs ! 2) = {}"
proof -
  have wf: "kmem_wf kmem_st0" "list_all small_size [56, 0x100000, 40]"
    by (simp_all add: kmem_wf_def kmem_st0_def page_st.defs small_size_def KHEAP_SIZE_def)
  obtain st' where e: "kmalloc_seq [56, 0x100000, 40] kmem_st0 =
      ([(0x1000000, 56), (NULL, 0x100000), (0x1000038, 40)], st')"
    by (simp add: kmalloc_def kmem_st0_def page_st.defs KHEAP_START_def KHEAP_SIZE_def con_call_def)
  show ?thesis using e kmalloc_blocks_disjoint [OF wf e, of 0 2] by simp
qed

lemma kmalloc_wrapped:
  assumes "kmem_wf st" "2 ^ 32 \<le> unat (heap_offset st) + unat sz"
  obtains p st' where "kmalloc sz st = (p, st')" "p \<noteq> NULL" "kmem_wf st'"
    "heap_top st' + 2 ^ 32 = heap_top st + unat sz"
proof -
  have sum: "unat (heap_offset st + sz) + 2 ^ 32 = unat (heap_offset st) + unat sz"
    using assms unat_u32_bound [of "heap_offset st"] unat_u32_bound [of sz]
    by (simp add: unat_word_ariths mod_if) linarith
  then have less: "unat (heap_offset st + sz) < unat (heap_offset st)"
    using unat_u32_bound [of sz] by simp
  have "KHEAP_START + heap_offset st \<noteq> NULL"
    using unat_heap_ptr [OF assms(1)] by (auto simp: heap_top_def KHEAP_START_def)
  moreover have "kmalloc sz st = (KHEAP_START + heap_offset st, st\<lparr>heap_offset := heap_offset st + sz\<rparr>)"
    using less assms(1) by (simp add: kmalloc_def Let_def word_le_nat_alt kmem_wf_def)
  ultimately show thesis
    using less sum assms(1)
      that [of "KHEAP_START + heap_offset st" "st\<lparr>heap_offset := heap_offset st + sz\<rparr>"]
    by (simp add: kmem_wf_def heap_top_def)
qed

text \<open>
  C27: the bound check adds two 32-bit numbers, so a request near 4 GB passes it. With a live
  block of \<open>n\<close> bytes at the top of the heap, a request of \<open>sz\<close> bytes, at most \<open>n\<close> short of
  4 GB, returns a pointer and moves the top of the heap down into that block, and the next
  request of \<open>m\<close> bytes, no more than \<open>sz\<close> is short of 4 GB, returns a block that lies inside it.
\<close>

theorem kmalloc_wraps:
  assumes "kmem_wf st" "small_size n" "kmalloc n st = (p, st1)" "p \<noteq> NULL"
    and "2 ^ 32 \<le> unat sz + unat n" "0 < m" "unat m + unat sz \<le> 2 ^ 32"
  shows "\<exists>q st2 r st3. kmalloc sz st1 = (q, st2) \<and> q \<noteq> NULL \<and> heap_top st2 < heap_top st1 \<and>
    kmalloc m st2 = (r, st3) \<and> r \<noteq> NULL \<and> block (r, m) \<noteq> {} \<and> block (r, m) \<subseteq> block (p, n)"
proof -
  note a = kheap.alloc_top [OF assms(1-4)]
  note wf1 = kheap.alloc_good [OF assms(1-3)]
  have off: "heap_top x = unat KHEAP_START + unat (heap_offset x)" for x :: "'a kmem_st_scheme"
    by (simp add: heap_top_def)
  have n: "unat n \<le> unat (heap_offset st1)" using a off [of st1] off [of st] by simp
  have wrap: "2 ^ 32 \<le> unat (heap_offset st1) + unat sz" using n assms(5) by simp
  obtain q st2 where q: "kmalloc sz st1 = (q, st2)" "q \<noteq> NULL" "kmem_wf st2"
    "heap_top st2 + 2 ^ 32 = heap_top st1 + unat sz"
    using kmalloc_wrapped [OF wf1 wrap] .
  have m: "0 < unat m" using assms(6) by (simp add: word_less_nat_alt)
  have top: "heap_top st2 < heap_top st1" "heap_top st \<le> heap_top st2" "heap_top st2 + unat m \<le> heap_top st1"
    using q(4) assms(5,7) a unat_u32_bound [of sz] by simp_all
  have small: "small_size m" "unat (heap_offset st2) + unat m < unat KHEAP_SIZE"
    using top wf1 off [of st1] off [of st2] by (simp_all add: kmem_wf_def small_size_def KHEAP_SIZE_def)
  note r = kmalloc_ok [OF q(3) small]
  have u: "unat (KHEAP_START + heap_offset st2) = heap_top st2" by (rule unat_heap_ptr [OF q(3)])
  moreover have "0 < heap_top st2" by (simp add: heap_top_def KHEAP_START_def)
  ultimately have "KHEAP_START + heap_offset st2 \<noteq> NULL" by (metis less_irrefl unat_0)
  then show ?thesis
    using q(1,2) r u top a assms(4) m by (auto simp: block_def)
qed

theorem kmalloc_wraps_witness:
  "\<exists>q st2 r st3. kmalloc 0xFFFFFFF0 (snd (kmalloc 56 kmem_st0)) = (q, st2) \<and> kmalloc 16 st2 = (r, st3) \<and>
     block (r, 16) \<noteq> {} \<and> block (r, 16) \<subseteq> block (0x1000000, 56)"
proof -
  have h: "kmem_wf kmem_st0" "small_size 56"
    by (simp_all add: kmem_wf_def kmem_st0_def page_st.defs small_size_def KHEAP_SIZE_def)
  have k: "kmalloc 56 kmem_st0 = (0x1000000, snd (kmalloc 56 kmem_st0))"
    by (simp add: kmalloc_def kmem_st0_def page_st.defs KHEAP_START_def KHEAP_SIZE_def)
  show ?thesis using kmalloc_wraps [OF h k, of "0xFFFFFFF0" 16] by auto
qed

text \<open>
  the frame allocator does not know the kernel heap: for a kernel that ends at or below
  16 MB, every frame of the heap region is free after \<open>phys_init\<close>, so frames and heap
  blocks can share memory.
\<close>

theorem phys_init_leaves_heap_free:
  assumes "unat kernel_end \<le> unat KHEAP_START" "phys_init kernel_end st = Some st'"
    and "unat KHEAP_START \<le> a" "a < unat KHEAP_START + unat KHEAP_SIZE"
  shows "a div 4096 \<in> free_frames (frame_bitmap st')"
proof -
  have "unat kernel_end \<le> 2 ^ 31" using assms(1) by (simp add: KHEAP_START_def)
  then obtain st1 where "phys_init kernel_end st = Some st1"
    "free_frames (frame_bitmap st1) = {f. f < 524288 \<and> unat kernel_end \<le> f * 4096}"
    using phys_init_free [of kernel_end st] by blast
  moreover have "0x1000 \<le> a div 4096" "a div 4096 < 524288"
    using assms(3,4) by (simp_all add: KHEAP_START_def KHEAP_SIZE_def)
  ultimately show ?thesis using assms(1,2) by (simp add: KHEAP_START_def)
qed

theorem phys_init_leaves_heap_free_witness:
  "\<exists>st'. phys_init 0x400000 phys_st0 = Some st' \<and>
     0x1000000 div 4096 \<in> free_frames (frame_bitmap st')"
proof -
  obtain st' where "phys_init 0x400000 phys_st0 = Some st'"
    using phys_init_free [of "0x400000" phys_st0] by auto
  then show ?thesis
    using phys_init_leaves_heap_free [of "0x400000" phys_st0 st' "0x1000000"]
    by (auto simp: KHEAP_START_def KHEAP_SIZE_def)
qed

end
