(* ===== verification/Crypto.thy ===== *)
theory Crypto
  imports Kmalloc
begin

text \<open>
  The file encryption, \<open>kernel/fs/crypto.c\<close>: the exclusive or with a repeated key of at
  most 32 bytes. Before a key is set its length is 0 and the index computation divides by
  zero, which is undefined (\<open>None\<close>); \<open>crypto_set_key\<close> never leaves an empty key.
\<close>

record crypto_st = kmem_st +
  g_key :: "u8 list"
  g_key_len :: nat

function set_key_loop :: "string \<Rightarrow> u8 list \<Rightarrow> nat \<Rightarrow> u8 list \<times> nat" where
  "set_key_loop key k len =
     (if len < length key \<and> len < 32
      then set_key_loop key (k[len := of_char (key ! len)]) (Suc len)
      else (k, len))"
  by pat_completeness auto
termination
  by (relation "measure (\<lambda>(key, k, len). 32 - len)") auto

declare set_key_loop.simps [simp del]

definition crypto_set_key :: "string \<Rightarrow> 'a crypto_st_scheme \<Rightarrow> 'a crypto_st_scheme" where
  "crypto_set_key key st =
     (let (k, len) = set_key_loop key (g_key st) 0
      in if len = 0 then st\<lparr>g_key := k[0 := 0x42], g_key_len := 1\<rparr>
         else st\<lparr>g_key := k, g_key_len := len\<rparr>)"

definition crypto_apply :: "'a crypto_st_scheme \<Rightarrow> u8 list \<Rightarrow> nat \<Rightarrow> u8 list option" where
  "crypto_apply st inp len =
     (if length inp < len \<or> (0 < len \<and> g_key_len st = 0) then None
      else Some (map (\<lambda>i. inp ! i XOR g_key st ! (i mod g_key_len st)) [0..<len]))"

definition crypto_encrypt :: "'a crypto_st_scheme \<Rightarrow> u8 list \<Rightarrow> nat \<Rightarrow> u8 list option" where
  "crypto_encrypt st inp len = crypto_apply st inp len"

definition crypto_decrypt :: "'a crypto_st_scheme \<Rightarrow> u8 list \<Rightarrow> nat \<Rightarrow> u8 list option" where
  "crypto_decrypt st inp len = crypto_apply st inp len"

definition crypto_ready :: "'a crypto_st_scheme \<Rightarrow> bool" where
  "crypto_ready st \<longleftrightarrow> length (g_key st) = 32 \<and> 0 < g_key_len st \<and> g_key_len st \<le> 32"

lemma set_key_loop_result:
  assumes "length k = 32" "i \<le> 32" "i \<le> length key" "take i k = map of_char (take i key)"
  shows "set_key_loop key k i = (k', len) \<Longrightarrow>
    len = min 32 (length key) \<and> length k' = 32 \<and> take len k' = map of_char (take 32 key)"
  using assms
proof (induction key k i rule: set_key_loop.induct)
  case (1 key k i)
  show ?case
  proof (cases "i < length key \<and> i < 32")
    case True
    have "take (Suc i) (k[i := of_char (key ! i)]) = map of_char (take (Suc i) key)"
      using True "1.prems" by (simp add: take_Suc_update take_Suc_conv_app_nth)
    moreover have "set_key_loop key (k[i := of_char (key ! i)]) (Suc i) = (k', len)"
      using "1.prems"(1) True by (simp add: set_key_loop.simps [of key k i])
    ultimately show ?thesis
      using "1.IH" [OF True] "1.prems"(2) True by (metis Suc_leI length_list_update)
  next
    case False
    then have "i = min 32 (length key)" using "1.prems"(3,4) by auto
    moreover have "k' = k" "len = i"
      using "1.prems"(1) False by (auto simp: set_key_loop.simps [of key k i])
    ultimately show ?thesis using "1.prems" by (simp add: min_def split: if_splits)
  qed
qed

lemma crypto_set_key_key:
  assumes "length (g_key st) = 32"
  shows "length (g_key (crypto_set_key key st)) = 32"
    "take (g_key_len (crypto_set_key key st)) (g_key (crypto_set_key key st)) =
      (if key = [] then [0x42] else map of_char (take 32 key))"
    "g_key_len (crypto_set_key key st) = (if key = [] then 1 else min 32 (length key))"
proof -
  obtain k len where r: "set_key_loop key (g_key st) 0 = (k, len)" by fastforce
  from set_key_loop_result [OF assms _ _ _ r]
  have k: "len = min 32 (length key)" "length k = 32" "take len k = map of_char (take 32 key)"
    by auto
  show "length (g_key (crypto_set_key key st)) = 32"
    using r k by (simp add: crypto_set_key_def)
  show "g_key_len (crypto_set_key key st) = (if key = [] then 1 else min 32 (length key))"
    using r k by (cases key) (simp_all add: crypto_set_key_def)
  have e: "take 1 (k[0 := 0x42]) = [0x42]" using k(2) by (cases k) auto
  show "take (g_key_len (crypto_set_key key st)) (g_key (crypto_set_key key st)) =
      (if key = [] then [0x42] else map of_char (take 32 key))"
  proof (cases "key = []")
    case True
    then show ?thesis using r k(1) e by (simp add: crypto_set_key_def)
  next
    case False
    then have "len \<noteq> 0" using k(1) by (cases key) auto
    then show ?thesis using r k(3) False by (simp add: crypto_set_key_def)
  qed
qed

lemma crypto_ready_set_key [intro]:
  "length (g_key st) = 32 \<Longrightarrow> crypto_ready (crypto_set_key key st)"
  by (cases key) (simp_all add: crypto_ready_def crypto_set_key_key)

subsection \<open>The cipher as an interface\<close>

text \<open>
  What the file system needs of the cipher: encryption is total once a key is set, keeps
  the length, reads no byte past the length, and decryption undoes it. The client lemma is
  about a stored buffer, which carries a terminator after the encrypted bytes.
\<close>

locale cipher =
  fixes ready :: "'s \<Rightarrow> bool"
    and enc :: "'s \<Rightarrow> u8 list \<Rightarrow> nat \<Rightarrow> u8 list option"
    and dec :: "'s \<Rightarrow> u8 list \<Rightarrow> nat \<Rightarrow> u8 list option"
  assumes enc_total: "ready s \<Longrightarrow> n \<le> length x \<Longrightarrow> \<exists>y. enc s x n = Some y \<and> length y = n"
    and dec_enc: "enc s x n = Some y \<Longrightarrow> dec s y n = Some (take n x)"
    and dec_append: "n \<le> length y \<Longrightarrow> dec s (y @ z) n = dec s y n"
begin

lemma stored_roundtrip:
  assumes "ready s"
  obtains y where "enc s x (length x) = Some y" "length y = length x"
    "dec s (y @ z) (length x) = Some x"
proof -
  obtain y where y: "enc s x (length x) = Some y" "length y = length x"
    using enc_total [OF assms, of "length x" x] by auto
  have "dec s (y @ z) (length x) = Some x"
    using dec_append [of "length x" y s z] dec_enc [OF y(1)] y(2) by simp
  with y show thesis using that by blast
qed

end

interpretation xor_cipher: cipher
  "crypto_ready :: 'a crypto_st_scheme \<Rightarrow> bool" crypto_encrypt crypto_decrypt
proof
  fix s :: "'a crypto_st_scheme" and n and x y :: "u8 list"
  assume "crypto_ready s" "n \<le> length x"
  then show "\<exists>y. crypto_encrypt s x n = Some y \<and> length y = n"
    by (simp add: crypto_encrypt_def crypto_apply_def crypto_ready_def)
next
  fix s :: "'a crypto_st_scheme" and n and x y :: "u8 list"
  assume "crypto_encrypt s x n = Some y"
  then have y: "y = map (\<lambda>i. x ! i XOR g_key s ! (i mod g_key_len s)) [0..<n]" "n \<le> length x"
    "\<not> (0 < n \<and> g_key_len s = 0)"
    by (auto simp: crypto_encrypt_def crypto_apply_def split: if_splits)
  then have "map (\<lambda>i. y ! i XOR g_key s ! (i mod g_key_len s)) [0..<n] = take n x"
    by (intro nth_equalityI) (auto simp: word_xor_cancel)
  with y show "crypto_decrypt s y n = Some (take n x)"
    by (simp add: crypto_decrypt_def crypto_apply_def)
next
  fix s :: "'a crypto_st_scheme" and n and y z :: "u8 list"
  assume "n \<le> length y"
  then have "map (\<lambda>i. (y @ z) ! i XOR g_key s ! (i mod g_key_len s)) [0..<n] =
      map (\<lambda>i. y ! i XOR g_key s ! (i mod g_key_len s)) [0..<n]"
    by (simp add: nth_append)
  with \<open>n \<le> length y\<close> show "crypto_decrypt s (y @ z) n = crypto_decrypt s y n"
    by (simp add: crypto_decrypt_def crypto_apply_def)
qed

subsection \<open>Properties\<close>

definition crypto_st0 :: crypto_st where
  "crypto_st0 = kmem_st.extend kmem_st0 \<lparr>g_key = replicate 32 0, g_key_len = 0\<rparr>"

text \<open>
  \<open>crypto_set_key\<close> always leaves a usable key: the first 32 bytes of the string given,
  or the one-byte fallback key when the string is empty.
\<close>

theorem crypto_set_key_spec:
  assumes "length (g_key st) = 32"
  shows "crypto_ready (crypto_set_key key st) \<and>
    take (g_key_len (crypto_set_key key st)) (g_key (crypto_set_key key st)) =
      (if key = [] then [0x42] else map of_char (take 32 key))"
  using crypto_set_key_key [OF assms] crypto_ready_set_key [OF assms] by blast

theorem crypto_set_key_spec_witness:
  "length (g_key crypto_st0) = 32 \<and> crypto_ready (crypto_set_key ''key'' crypto_st0) \<and>
   take 3 (g_key (crypto_set_key ''key'' crypto_st0)) = [0x6B, 0x65, 0x79]"
proof -
  have h: "length (g_key crypto_st0) = 32" by (simp add: crypto_st0_def kmem_st.defs)
  show ?thesis
    using h crypto_set_key_spec [OF h, of "''key''"] crypto_set_key_key(3) [OF h, of "''key''"]
    by (simp add: of_char_def numeral_3_eq_3)
qed

text \<open>
  C28: with any key set, encrypting a byte string of any length and decrypting the result
  gives the string back; a buffer longer than the data (a stored file ends with a
  terminator) makes no difference.
\<close>

theorem crypto_roundtrip:
  assumes "length (g_key st) = 32"
  shows "\<exists>y. crypto_encrypt (crypto_set_key key st) x (length x) = Some y \<and>
    length y = length x \<and>
    crypto_decrypt (crypto_set_key key st) (y @ z) (length x) = Some x"
  by (rule xor_cipher.stored_roundtrip [OF crypto_ready_set_key [OF assms]]) blast

theorem crypto_roundtrip_witness:
  "length (g_key crypto_st0) = 32 \<and>
   (\<exists>y. crypto_encrypt (crypto_set_key ''hypnos-default-key'' crypto_st0) [1, 2, 3] 3 = Some y \<and>
     crypto_decrypt (crypto_set_key ''hypnos-default-key'' crypto_st0) (y @ [0]) 3 = Some [1, 2, 3])"
proof -
  have h: "length (g_key crypto_st0) = 32" by (simp add: crypto_st0_def kmem_st.defs)
  show ?thesis
    using h crypto_roundtrip [OF h, of "''hypnos-default-key''" "[1, 2, 3]" "[0]"]
    by (auto simp: numeral_3_eq_3)
qed

end
