(* ===== verification/Fs.thy ===== *)
theory Fs
  imports Crypto
begin

text \<open>
  The in-memory file system, \<open>kernel/fs/fs.c\<close>: definitions. A node and a snapshot are
  records in a store from addresses, the store being the part of the kernel heap that holds
  them; a data buffer is a list of bytes with its terminator. \<open>kmalloc\<close> returns disjoint
  blocks (theory \<open>Kmalloc\<close>), so the three stores do not overlap. A name is the string held
  in its 32-byte array.

  A pointer argument that the code compares with \<open>NULL\<close> is a \<open>string option\<close>. The result
  \<open>None\<close> of an operation stands for undefined behaviour (an access outside an object) or for
  a loop that does not end; the return codes of the code, \<open>0\<close> and \<open>-1\<close>, are values. A loop
  over links of the heap is a \<open>partial_function\<close>, since only the invariant of theory
  \<open>Fs_Inv\<close> makes it end.
\<close>

definition MAX_NAME_LEN :: nat where "MAX_NAME_LEN = 32"
definition MAX_PATH_LEN :: nat where "MAX_PATH_LEN = 128"
definition MAX_SNAP_NAME :: nat where "MAX_SNAP_NAME = 32"

record fs_node =
  n_name :: string
  n_is_dir :: bool
  n_data :: ptr
  n_size :: u32
  n_parent :: ptr
  n_child :: ptr
  n_sibling :: ptr

record snap =
  s_name :: string
  s_root_copy :: ptr
  s_next :: ptr

text \<open>The sizes of the two structures on the 32-bit target.\<close>

definition sizeof_fs_node :: u32 where "sizeof_fs_node = 56"
definition sizeof_snap :: u32 where "sizeof_snap = 40"

record fs_st = crypto_st +
  fs_nodes :: "ptr \<Rightarrow> fs_node option"
  fs_bufs :: "ptr \<Rightarrow> u8 list option"
  fs_snaps :: "ptr \<Rightarrow> snap option"
  fs_root :: ptr
  fs_cwd :: ptr
  snap_head :: ptr

subsection \<open>Access to the store\<close>

definition upd_node :: "ptr \<Rightarrow> (fs_node \<Rightarrow> fs_node) \<Rightarrow> 'a fs_st_scheme \<Rightarrow> 'a fs_st_scheme option" where
  "upd_node p f st =
     (case fs_nodes st p of None \<Rightarrow> None
      | Some n \<Rightarrow> Some (st\<lparr>fs_nodes := (fs_nodes st)(p \<mapsto> f n)\<rparr>))"

definition put_buf :: "ptr \<Rightarrow> u8 list \<Rightarrow> 'a fs_st_scheme \<Rightarrow> 'a fs_st_scheme" where
  "put_buf p bs st = st\<lparr>fs_bufs := (fs_bufs st)(p \<mapsto> bs)\<rparr>"

text \<open>The first \<open>n\<close> bytes of a buffer, read in a loop over the index.\<close>

definition read_bytes :: "ptr \<Rightarrow> nat \<Rightarrow> 'a fs_st_scheme \<Rightarrow> u8 list option" where
  "read_bytes p n st =
     (case fs_bufs st p of None \<Rightarrow> None
      | Some bs \<Rightarrow> if n \<le> length bs then Some (take n bs) else None)"

subsection \<open>Nodes\<close>

definition fs_new_node :: "string \<Rightarrow> bool \<Rightarrow> 'a fs_st_scheme \<Rightarrow> ptr \<times> 'a fs_st_scheme" where
  "fs_new_node name isdir st =
     (let (n, st) = kmalloc sizeof_fs_node st
      in if n = NULL then (NULL, st)
         else (n, st\<lparr>fs_nodes := (fs_nodes st)(n \<mapsto>
           \<lparr>n_name = kstrncpy name MAX_NAME_LEN, n_is_dir = isdir, n_data = NULL, n_size = 0,
            n_parent = NULL, n_child = NULL, n_sibling = NULL\<rparr>)\<rparr>))"

text \<open>The copy of the data of a file in \<open>fs_clone_tree\<close>.\<close>

definition clone_data :: "fs_node \<Rightarrow> ptr \<Rightarrow> 'a fs_st_scheme \<Rightarrow> 'a fs_st_scheme option" where
  "clone_data n copy st =
     (if \<not> n_is_dir n \<and> n_data n \<noteq> NULL \<and> n_size n > 0
      then let (buf, st) = kmalloc (n_size n + 1) st
           in if buf \<noteq> NULL
              then do { bs \<leftarrow> read_bytes (n_data n) (unat (n_size n)) st;
                        upd_node copy (n_data_update (\<lambda>_. buf)) (put_buf buf (bs @ [0]) st) }
              else Some st
      else Some st)"

partial_function (option) fs_clone_tree ::
  "ptr \<Rightarrow> ptr \<Rightarrow> 'a fs_st_scheme \<Rightarrow> (ptr \<times> 'a fs_st_scheme) option" where
  "fs_clone_tree p par st =
     (if p = NULL then Some (NULL, st)
      else do {
        n \<leftarrow> fs_nodes st p;
        let (copy, st) = fs_new_node (n_name n) (n_is_dir n) st;
        if copy = NULL then Some (NULL, st)
        else do {
          st \<leftarrow> upd_node copy (\<lambda>c. c\<lparr>n_parent := par, n_size := n_size n\<rparr>) st;
          st \<leftarrow> clone_data n copy st;
          st \<leftarrow> (if n_child n \<noteq> NULL
                then do { (cc, st) \<leftarrow> fs_clone_tree (n_child n) copy st;
                          upd_node copy (n_child_update (\<lambda>_. cc)) st }
                else Some st);
          st \<leftarrow> (if n_sibling n \<noteq> NULL
                then do { (sc, st) \<leftarrow> fs_clone_tree (n_sibling n) par st;
                          upd_node copy (n_sibling_update (\<lambda>_. sc)) st }
                else Some st);
          Some (copy, st)
        }
      })"

subsection \<open>Paths\<close>

partial_function (option) find_loop ::
  "'a fs_st_scheme \<Rightarrow> ptr \<Rightarrow> string \<Rightarrow> ptr option" where
  "find_loop st cur name =
     (if cur = NULL then Some NULL
      else do {
        n \<leftarrow> fs_nodes st cur;
        if kstrcmp (n_name n) name = 0 then Some cur
        else find_loop st (n_sibling n) name
      })"

definition fs_find_in_dir :: "'a fs_st_scheme \<Rightarrow> ptr \<Rightarrow> string \<Rightarrow> ptr option" where
  "fs_find_in_dir st dir name =
     do { d \<leftarrow> fs_nodes st dir; find_loop st (n_child d) name }"

abbreviation slash :: char where "slash \<equiv> CHR ''/''"

fun skip_slashes :: "string \<Rightarrow> string" where
  "skip_slashes (c # s) = (if c = slash then skip_slashes s else c # s)"
| "skip_slashes [] = []"

fun comp_loop :: "string \<Rightarrow> nat \<Rightarrow> nat \<Rightarrow> string \<times> string" where
  "comp_loop (c # s) i out_sz =
     (if c \<noteq> slash \<and> i + 1 < out_sz
      then let (out, r) = comp_loop s (Suc i) out_sz in (c # out, r)
      else ([], c # s))"
| "comp_loop [] i out_sz = ([], [])"

text \<open>The component read, \<open>None\<close> for the return value 0, and the advanced path pointer.\<close>

definition fs_next_component :: "string \<Rightarrow> nat \<Rightarrow> string option \<times> string" where
  "fs_next_component p out_sz =
     (let s = skip_slashes p
      in if s = [] then (None, s)
         else let (out, s) = comp_loop s 0 out_sz
              in (Some out, skip_slashes s))"

lemma length_skip_slashes [simp]: "length (skip_slashes s) \<le> length s"
  by (induction s) auto

lemma comp_loop_length:
  "comp_loop s i n = (out, r) \<Longrightarrow> length s = length out + length r"
  by (induction s i n arbitrary: out rule: comp_loop.induct) (auto split: prod.splits if_splits)

lemma skip_slashes_hd: "skip_slashes s = c # r \<Longrightarrow> c \<noteq> slash"
  by (induction s) (auto split: if_splits)

lemma fs_next_component_shorter:
  assumes "fs_next_component p MAX_NAME_LEN = (Some c, p')"
  shows "length p' < length p"
proof -
  obtain a s where s: "skip_slashes p = a # s"
    using assms by (cases "skip_slashes p") (auto simp: fs_next_component_def)
  obtain out r where r: "comp_loop (a # s) 0 MAX_NAME_LEN = (out, r)" by fastforce
  have "out \<noteq> []"
    using r skip_slashes_hd [OF s] by (auto simp: MAX_NAME_LEN_def split: prod.splits)
  then have "length r < length (skip_slashes p)"
    using comp_loop_length [OF r] s by (cases out) auto
  moreover have "p' = skip_slashes r"
    using assms s r by (auto simp: fs_next_component_def split: prod.splits)
  ultimately show ?thesis
    using length_skip_slashes [of p] length_skip_slashes [of r]
    by (metis dual_order.trans linorder_not_less)
qed

text \<open>
  \<open>fs_resolve\<close> returns the node and what it stored through \<open>last_name\<close>, \<open>None\<close> when it
  stored nothing. The callers pass a buffer exactly when they ask for the parent.
\<close>

function resolve_loop :: "'a fs_st_scheme \<Rightarrow> bool \<Rightarrow> ptr \<Rightarrow> ptr \<Rightarrow> string \<Rightarrow>
    (ptr \<times> string option) option" where
  "resolve_loop st want_parent cur par p =
     (case fs_next_component p MAX_NAME_LEN of
        (Some c, p') \<Rightarrow>
          do {
            nxt \<leftarrow> fs_find_in_dir st cur c;
            if nxt = NULL
            then if want_parent \<and> p' = [] then Some (cur, Some (kstrncpy c MAX_NAME_LEN))
                 else Some (NULL, None)
            else resolve_loop st want_parent nxt cur p'
          }
      | (None, p') \<Rightarrow>
          Some (if want_parent then (if par \<noteq> NULL then par else cur, Some [])
                else (cur, None)))"
  by pat_completeness auto
termination
  by (relation "measure (\<lambda>(st, w, cur, par, p). length p)") (auto dest!: fs_next_component_shorter sym [of "(Some _, _)"])

declare resolve_loop.simps [simp del]

definition fs_resolve :: "'a fs_st_scheme \<Rightarrow> string option \<Rightarrow> bool \<Rightarrow>
    (ptr \<times> string option) option" where
  "fs_resolve st path want_parent =
     (case path of None \<Rightarrow> Some (NULL, None)
      | Some [] \<Rightarrow> Some (NULL, None)
      | Some (c # s) \<Rightarrow>
          resolve_loop st want_parent (if c = slash then fs_root st else fs_cwd st) NULL (c # s))"

subsection \<open>Directories and files\<close>

definition fs_init :: "'a fs_st_scheme \<Rightarrow> 'a fs_st_scheme option" where
  "fs_init st =
     (let (r, st) = fs_new_node [slash] True st;
          st = st\<lparr>fs_root := r\<rparr>
      in do {
        st \<leftarrow> upd_node r (n_parent_update (\<lambda>_. r)) st;
        Some (console_write Fs_c (''RAM filesystem with directories initialized.'' @ [newline])
          (st\<lparr>fs_cwd := r\<rparr>))
      })"

text \<open>The three stores that put a fresh node in front of the list of its parent.\<close>

definition link_child :: "ptr \<Rightarrow> ptr \<Rightarrow> 'a fs_st_scheme \<Rightarrow> 'a fs_st_scheme option" where
  "link_child par n st =
     do {
       st \<leftarrow> upd_node n (n_parent_update (\<lambda>_. par)) st;
       d \<leftarrow> fs_nodes st par;
       st \<leftarrow> upd_node n (n_sibling_update (\<lambda>_. n_child d)) st;
       upd_node par (n_child_update (\<lambda>_. n)) st
     }"

definition fs_mkdir :: "string option \<Rightarrow> 'a fs_st_scheme \<Rightarrow> (int \<times> 'a fs_st_scheme) option" where
  "fs_mkdir path st =
     (if path = None \<or> path = Some [] then Some (- 1, st)
      else if kstrlen (the path) \<ge> MAX_PATH_LEN then Some (- 1, st)
      else do {
        (par, lst) \<leftarrow> fs_resolve st path True;
        if par = NULL then Some (- 1, st)
        else do {
          d \<leftarrow> fs_nodes st par;
          if \<not> n_is_dir d then Some (- 1, st)
          else do {
            last \<leftarrow> lst;
            if last = [] then Some (- 1, st)
            else do {
              old \<leftarrow> fs_find_in_dir st par last;
              if old \<noteq> NULL then Some (- 1, st)
              else let (n, st) = fs_new_node last True st
                   in if n = NULL then Some (- 1, st)
                      else do { st \<leftarrow> link_child par n st; Some (0, st) }
            }
          }
        }
      })"

definition fs_touch :: "string option \<Rightarrow> 'a fs_st_scheme \<Rightarrow> (int \<times> 'a fs_st_scheme) option" where
  "fs_touch path st =
     (if path = None \<or> path = Some [] then Some (- 1, st)
      else if kstrlen (the path) \<ge> MAX_PATH_LEN then Some (- 1, st)
      else do {
        (par, lst) \<leftarrow> fs_resolve st path True;
        if par = NULL then Some (- 1, st)
        else do {
          d \<leftarrow> fs_nodes st par;
          if \<not> n_is_dir d then Some (- 1, st)
          else do {
            last \<leftarrow> lst;
            if last = [] then Some (- 1, st)
            else do {
              node \<leftarrow> fs_find_in_dir st par last;
              if node \<noteq> NULL
              then do { n \<leftarrow> fs_nodes st node;
                        Some (if n_is_dir n then - 1 else 0, st) }
              else let (node, st) = fs_new_node last False st
                   in if node = NULL then Some (- 1, st)
                      else do { st \<leftarrow> link_child par node st; Some (0, st) }
            }
          }
        }
      })"

text \<open>The second half of \<open>fs_write\<close> and \<open>fs_write_cwd\<close>: encrypt into a fresh buffer.\<close>

definition store_data :: "ptr \<Rightarrow> string \<Rightarrow> 'a fs_st_scheme \<Rightarrow> (int \<times> 'a fs_st_scheme) option" where
  "store_data node data st =
     do {
       n \<leftarrow> fs_nodes st node;
       if n_is_dir n then Some (- 1, st)
       else let len = kstrlen data;
                (buf, st) = kmalloc (of_nat (len + 1)) st
            in if buf = NULL then Some (- 1, st)
               else do {
                 bs \<leftarrow> crypto_encrypt st (map of_char data) len;
                 st \<leftarrow> upd_node node (\<lambda>n. n\<lparr>n_data := buf, n_size := of_nat len\<rparr>)
                   (put_buf buf (bs @ [0]) st);
                 Some (0, st)
               }
     }"

definition fs_write :: "string option \<Rightarrow> string option \<Rightarrow> 'a fs_st_scheme \<Rightarrow>
    (int \<times> 'a fs_st_scheme) option" where
  "fs_write path data st =
     (if path = None \<or> data = None then Some (- 1, st)
      else do {
        (par, lst) \<leftarrow> fs_resolve st path True;
        if par = NULL then Some (- 1, st)
        else do {
          d \<leftarrow> fs_nodes st par;
          if \<not> n_is_dir d then Some (- 1, st)
          else do {
            last \<leftarrow> lst;
            if last = [] then Some (- 1, st)
            else do {
              node \<leftarrow> fs_find_in_dir st par last;
              if node \<noteq> NULL then store_data node (the data) st
              else do {
                (r, st) \<leftarrow> fs_touch path st;
                if r \<noteq> 0 then Some (- 1, st)
                else do {
                  node \<leftarrow> fs_find_in_dir st par last;
                  if node = NULL then Some (- 1, st)
                  else store_data node (the data) st
                }
              }
            }
          }
        }
      })"

definition fs_write_cwd :: "string option \<Rightarrow> string option \<Rightarrow> 'a fs_st_scheme \<Rightarrow>
    (int \<times> 'a fs_st_scheme) option" where
  "fs_write_cwd name data st =
     (if name = None \<or> name = Some [] \<or> data = None then Some (- 1, st)
      else if fs_cwd st = NULL then Some (- 1, st)
      else do {
        d \<leftarrow> fs_nodes st (fs_cwd st);
        if \<not> n_is_dir d then Some (- 1, st)
        else do {
          node \<leftarrow> fs_find_in_dir st (fs_cwd st) (the name);
          if node \<noteq> NULL then store_data node (the data) st
          else let (node, st) = fs_new_node (the name) False st
               in if node = NULL then Some (- 1, st)
                  else do {
                    st \<leftarrow> link_child (fs_cwd st) node st;
                    store_data node (the data) st
                  }
        }
      })"

text \<open>\<open>fs_read\<close> returns a pointer to a fresh decrypted buffer.\<close>

definition fs_read :: "string option \<Rightarrow> 'a fs_st_scheme \<Rightarrow> (ptr \<times> 'a fs_st_scheme) option" where
  "fs_read path st =
     do {
       (node, _) \<leftarrow> fs_resolve st path False;
       if node = NULL then Some (NULL, st)
       else do {
         n \<leftarrow> fs_nodes st node;
         if n_is_dir n \<or> n_data n = NULL \<or> n_size n = 0 then Some (NULL, st)
         else let (buf, st) = kmalloc (n_size n + 1) st
              in if buf = NULL then Some (NULL, st)
                 else do {
                   src \<leftarrow> read_bytes (n_data n) (unat (n_size n)) st;
                   bs \<leftarrow> crypto_decrypt st src (unat (n_size n));
                   Some (buf, put_buf buf (bs @ [0]) st)
                 }
       }
     }"

subsection \<open>The working directory\<close>

definition fs_chdir :: "string option \<Rightarrow> 'a fs_st_scheme \<Rightarrow> (int \<times> 'a fs_st_scheme) option" where
  "fs_chdir path st =
     (if path = None \<or> path = Some [] then Some (- 1, st)
      else do {
        (n, _) \<leftarrow> fs_resolve st path False;
        if n = NULL then Some (- 1, st)
        else do {
          d \<leftarrow> fs_nodes st n;
          if \<not> n_is_dir d then Some (- 1, st) else Some (0, st\<lparr>fs_cwd := n\<rparr>)
        }
      })"

text \<open>
  The loop of \<open>fs_getcwd\<close>: \<open>tmp\<close> is the string built so far and \<open>pos\<close> its length; a step
  moves it right and puts the separator and the name in front. It stops at the root, at a
  null parent, or when the next name would not fit.
\<close>

function getcwd_loop :: "'a fs_st_scheme \<Rightarrow> ptr \<Rightarrow> string \<Rightarrow> string option" where
  "getcwd_loop st n tmp =
     (if n \<noteq> NULL \<and> n \<noteq> fs_root st
      then (case fs_nodes st n of
              None \<Rightarrow> None
            | Some d \<Rightarrow>
                if length tmp + kstrlen (n_name d) + 1 \<ge> MAX_PATH_LEN then Some tmp
                else getcwd_loop st (n_parent d) (slash # n_name d @ tmp))
      else Some tmp)"
  by pat_completeness auto
termination
  by (relation "measure (\<lambda>(st, n, tmp). MAX_PATH_LEN - length tmp)") (auto simp: kstrlen_def)

declare getcwd_loop.simps [simp del]

definition fs_getcwd :: "'a fs_st_scheme \<Rightarrow> string option" where
  "fs_getcwd st =
     (if fs_cwd st = fs_root st then Some [slash]
      else do {
        tmp \<leftarrow> getcwd_loop st (fs_cwd st) [];
        Some (if length tmp = 0 then [slash] else tmp)
      })"

text \<open>The callbacks are functions on the state.\<close>

type_synonym 'a list_cb = "string \<Rightarrow> bool \<Rightarrow> 'a \<Rightarrow> 'a"

partial_function (option) list_loop ::
  "'a fs_st_scheme list_cb \<Rightarrow> ptr \<Rightarrow> 'a fs_st_scheme \<Rightarrow> 'a fs_st_scheme option" where
  "list_loop cb cur st =
     (if cur = NULL then Some st
      else do {
        n \<leftarrow> fs_nodes st cur;
        let st = cb (n_name n) (n_is_dir n) st;
        n \<leftarrow> fs_nodes st cur;
        list_loop cb (n_sibling n) st
      })"

definition fs_list :: "'a fs_st_scheme list_cb \<Rightarrow> 'a fs_st_scheme \<Rightarrow> 'a fs_st_scheme option" where
  "fs_list cb st = do { d \<leftarrow> fs_nodes st (fs_cwd st); list_loop cb (n_child d) st }"

subsection \<open>Snapshots\<close>

text \<open>The search of the snapshot list, the same loop in \<open>create\<close> and \<open>restore\<close>.\<close>

partial_function (option) snap_find ::
  "'a fs_st_scheme \<Rightarrow> ptr \<Rightarrow> string \<Rightarrow> ptr option" where
  "snap_find st cur name =
     (if cur = NULL then Some NULL
      else do {
        s \<leftarrow> fs_snaps st cur;
        if kstrcmp (s_name s) name = 0 then Some cur else snap_find st (s_next s) name
      })"

definition fs_snap_create :: "string option \<Rightarrow> 'a fs_st_scheme \<Rightarrow>
    (int \<times> 'a fs_st_scheme) option" where
  "fs_snap_create name st =
     (if name = None \<or> name = Some [] then Some (- 1, st)
      else if kstrlen (the name) \<ge> MAX_SNAP_NAME then Some (- 1, st)
      else do {
        old \<leftarrow> snap_find st (snap_head st) (the name);
        if old \<noteq> NULL then Some (- 1, st)
        else do {
          (root_copy, st) \<leftarrow> fs_clone_tree (fs_root st) NULL st;
          if root_copy = NULL then Some (- 1, st)
          else do {
            st \<leftarrow> upd_node root_copy (n_parent_update (\<lambda>_. root_copy)) st;
            let (s, st) = kmalloc sizeof_snap st;
            if s = NULL then Some (- 1, st)
            else Some (0, st\<lparr>fs_snaps := (fs_snaps st)(s \<mapsto>
                   \<lparr>s_name = kstrncpy (the name) MAX_SNAP_NAME, s_root_copy = root_copy,
                    s_next = snap_head st\<rparr>), snap_head := s\<rparr>)
          }
        }
      })"

definition fs_snap_restore :: "string option \<Rightarrow> 'a fs_st_scheme \<Rightarrow>
    (int \<times> 'a fs_st_scheme) option" where
  "fs_snap_restore name st =
     (if name = None \<or> name = Some [] then Some (- 1, st)
      else do {
        cur \<leftarrow> snap_find st (snap_head st) (the name);
        if cur = NULL then Some (- 1, st)
        else do {
          s \<leftarrow> fs_snaps st cur;
          Some (0, st\<lparr>fs_root := s_root_copy s, fs_cwd := s_root_copy s\<rparr>)
        }
      })"

partial_function (option) snap_list_loop ::
  "(string \<Rightarrow> 'a fs_st_scheme \<Rightarrow> 'a fs_st_scheme) \<Rightarrow> ptr \<Rightarrow> 'a fs_st_scheme \<Rightarrow>
    'a fs_st_scheme option" where
  "snap_list_loop cb cur st =
     (if cur = NULL then Some st
      else do {
        s \<leftarrow> fs_snaps st cur;
        let st = cb (s_name s) st;
        s \<leftarrow> fs_snaps st cur;
        snap_list_loop cb (s_next s) st
      })"

definition fs_snap_list :: "(string \<Rightarrow> 'a fs_st_scheme \<Rightarrow> 'a fs_st_scheme) \<Rightarrow>
    'a fs_st_scheme \<Rightarrow> 'a fs_st_scheme option" where
  "fs_snap_list cb st = snap_list_loop cb (snap_head st) st"

subsection \<open>Removal, renaming and copy\<close>

text \<open>The links a pointer to a pointer can point to, in \<open>fs_detach_from_parent\<close>.\<close>

datatype link = Child_of ptr | Sibling_of ptr

fun read_link :: "link \<Rightarrow> 'a fs_st_scheme \<Rightarrow> ptr option" where
  "read_link (Child_of p) st = map_option n_child (fs_nodes st p)"
| "read_link (Sibling_of p) st = map_option n_sibling (fs_nodes st p)"

fun write_link :: "link \<Rightarrow> ptr \<Rightarrow> 'a fs_st_scheme \<Rightarrow> 'a fs_st_scheme option" where
  "write_link (Child_of p) q st = upd_node p (n_child_update (\<lambda>_. q)) st"
| "write_link (Sibling_of p) q st = upd_node p (n_sibling_update (\<lambda>_. q)) st"

partial_function (option) detach_loop ::
  "link \<Rightarrow> ptr \<Rightarrow> 'a fs_st_scheme \<Rightarrow> 'a fs_st_scheme option" where
  "detach_loop curp node st =
     do {
       cur \<leftarrow> read_link curp st;
       if cur = NULL then Some st
       else if cur = node
       then do {
         n \<leftarrow> fs_nodes st node;
         st \<leftarrow> write_link curp (n_sibling n) st;
         st \<leftarrow> upd_node node (n_sibling_update (\<lambda>_. NULL)) st;
         upd_node node (n_parent_update (\<lambda>_. NULL)) st
       }
       else detach_loop (Sibling_of cur) node st
     }"

definition fs_detach_from_parent :: "ptr \<Rightarrow> 'a fs_st_scheme \<Rightarrow> 'a fs_st_scheme option" where
  "fs_detach_from_parent node st =
     (if node = NULL then Some st
      else do {
        n \<leftarrow> fs_nodes st node;
        if n_parent n = NULL then Some st else detach_loop (Child_of (n_parent n)) node st
      })"

definition fs_unlink :: "string option \<Rightarrow> 'a fs_st_scheme \<Rightarrow> (int \<times> 'a fs_st_scheme) option" where
  "fs_unlink path st =
     (if path = None \<or> path = Some [] then Some (- 1, st)
      else do {
        (node, _) \<leftarrow> fs_resolve st path False;
        if node = NULL then Some (- 1, st)
        else do {
          n \<leftarrow> fs_nodes st node;
          if n_is_dir n \<or> n_parent n = NULL then Some (- 1, st)
          else do { st \<leftarrow> fs_detach_from_parent node st; Some (0, st) }
        }
      })"

definition fs_rmdir :: "string option \<Rightarrow> 'a fs_st_scheme \<Rightarrow> (int \<times> 'a fs_st_scheme) option" where
  "fs_rmdir path st =
     (if path = None \<or> path = Some [] then Some (- 1, st)
      else do {
        (node, _) \<leftarrow> fs_resolve st path False;
        if node = NULL then Some (- 1, st)
        else do {
          n \<leftarrow> fs_nodes st node;
          if \<not> n_is_dir n \<or> n_child n \<noteq> NULL \<or> node = fs_root st then Some (- 1, st)
          else do { st \<leftarrow> fs_detach_from_parent node st; Some (0, st) }
        }
      })"

definition fs_rename :: "string option \<Rightarrow> string option \<Rightarrow> 'a fs_st_scheme \<Rightarrow>
    (int \<times> 'a fs_st_scheme) option" where
  "fs_rename oldpath newpath st =
     (if oldpath = None \<or> newpath = None then Some (- 1, st)
      else do {
        (src, _) \<leftarrow> fs_resolve st oldpath False;
        if src = NULL then Some (- 1, st)
        else do {
          (par, lst) \<leftarrow> fs_resolve st newpath True;
          if par = NULL then Some (- 1, st)
          else do {
            d \<leftarrow> fs_nodes st par;
            if \<not> n_is_dir d then Some (- 1, st)
            else do {
              last \<leftarrow> lst;
              if last = [] then Some (- 1, st)
              else do {
                old \<leftarrow> fs_find_in_dir st par last;
                if old \<noteq> NULL \<or> src = fs_root st then Some (- 1, st)
                else do {
                  st \<leftarrow> fs_detach_from_parent src st;
                  st \<leftarrow> upd_node src (n_name_update (\<lambda>_. kstrncpy last MAX_NAME_LEN)) st;
                  st \<leftarrow> link_child par src st;
                  Some (0, st)
                }
              }
            }
          }
        }
      })"

text \<open>The data of the copy, after the copy is linked in its directory.\<close>

definition copy_data :: "ptr \<Rightarrow> ptr \<Rightarrow> 'a fs_st_scheme \<Rightarrow> (int \<times> 'a fs_st_scheme) option" where
  "copy_data src n st =
     do {
       s \<leftarrow> fs_nodes st src;
       if n_data s \<noteq> NULL \<and> n_size s > 0
       then let (buf, st) = kmalloc (n_size s + 1) st
            in if buf = NULL then Some (- 1, st)
               else do {
                 bs \<leftarrow> read_bytes (n_data s) (unat (n_size s)) st;
                 st \<leftarrow> upd_node n (\<lambda>c. c\<lparr>n_data := buf, n_size := n_size s\<rparr>)
                   (put_buf buf (bs @ [0]) st);
                 Some (0, st)
               }
       else Some (0, st)
     }"

definition fs_copy :: "string option \<Rightarrow> string option \<Rightarrow> 'a fs_st_scheme \<Rightarrow>
    (int \<times> 'a fs_st_scheme) option" where
  "fs_copy src_path dst_path st =
     (if src_path = None \<or> dst_path = None then Some (- 1, st)
      else do {
        (src, _) \<leftarrow> fs_resolve st src_path False;
        if src = NULL then Some (- 1, st)
        else do {
          s \<leftarrow> fs_nodes st src;
          if n_is_dir s then Some (- 1, st)
          else do {
            (par, lst) \<leftarrow> fs_resolve st dst_path True;
            if par = NULL then Some (- 1, st)
            else do {
              d \<leftarrow> fs_nodes st par;
              if \<not> n_is_dir d then Some (- 1, st)
              else do {
                last \<leftarrow> lst;
                if last = [] then Some (- 1, st)
                else do {
                  old \<leftarrow> fs_find_in_dir st par last;
                  if old \<noteq> NULL then Some (- 1, st)
                  else let (n, st) = fs_new_node last False st
                       in if n = NULL then Some (- 1, st)
                          else do { st \<leftarrow> link_child par n st; copy_data src n st }
                }
              }
            }
          }
        }
      })"

subsection \<open>Traversals\<close>

text \<open>
  \<open>fs_find_walk\<close> keeps the path of the node it visits in a buffer of 128 bytes. The copies
  of a name are bounded, the length is advanced by the whole name all the same, and the
  terminator is written at the new length without a test: a store past the buffer is
  undefined. \<open>find_path\<close> is the first half of the loop body.
\<close>

definition put_char :: "char list \<Rightarrow> nat \<Rightarrow> char \<Rightarrow> char list option" where
  "put_char buf i c = (if i < length buf then Some (buf[i := c]) else None)"

fun copy_name :: "char list \<Rightarrow> nat \<Rightarrow> string \<Rightarrow> char list" where
  "copy_name buf k [] = buf"
| "copy_name buf k (c # cs) =
     (if k + 1 < MAX_PATH_LEN then copy_name (buf[k := c]) (k + 1) cs else buf)"

definition find_path :: "string \<Rightarrow> char list \<Rightarrow> nat \<Rightarrow> (char list \<times> nat) option" where
  "find_path name pathbuf pathlen =
     (if pathlen = 1 \<and> pathbuf ! 0 = slash
      then let pathbuf = copy_name pathbuf 1 name;
               len = pathlen + kstrlen name
           in do { pathbuf \<leftarrow> put_char pathbuf len NUL; Some (pathbuf, len) }
      else do {
        (pathbuf, pathlen) \<leftarrow>
          (if pathlen + 1 < MAX_PATH_LEN
           then do { pathbuf \<leftarrow> put_char pathbuf pathlen slash;
                     pathbuf \<leftarrow> put_char pathbuf (pathlen + 1) NUL;
                     Some (pathbuf, pathlen + 1) }
           else Some (pathbuf, pathlen));
        let pathbuf = copy_name pathbuf pathlen name;
        let len = pathlen + kstrlen name;
        pathbuf \<leftarrow> put_char pathbuf len NUL;
        Some (pathbuf, len)
      })"

partial_function (option) fs_find_walk ::
  "ptr \<Rightarrow> char list \<Rightarrow> nat \<Rightarrow> string \<Rightarrow> 'a fs_st_scheme \<Rightarrow> (char list \<times> 'a fs_st_scheme) option" where
  "fs_find_walk node pathbuf pathlen needle st =
     (if node = NULL then Some (pathbuf, st)
      else do {
        n \<leftarrow> fs_nodes st node;
        (buf, len) \<leftarrow> find_path (n_name n) pathbuf pathlen;
        let st = (if kstrstr (n_name n) needle \<noteq> None
                  then console_write Fs_c [newline] (console_write Fs_c (cstr buf) st) else st);
        (buf, st) \<leftarrow> (if n_is_dir n \<and> n_child n \<noteq> NULL
                       then fs_find_walk (n_child n) buf len needle st else Some (buf, st));
        buf \<leftarrow> put_char buf pathlen NUL;
        fs_find_walk (n_sibling n) buf pathlen needle st
      })"

definition fs_find :: "string option \<Rightarrow> 'a fs_st_scheme \<Rightarrow> (int \<times> 'a fs_st_scheme) option" where
  "fs_find name st =
     (if name = None \<or> name = Some [] then Some (- 1, st)
      else if fs_root st = NULL then Some (- 1, st)
      else do {
        r \<leftarrow> fs_nodes st (fs_root st);
        if n_child r \<noteq> NULL
        then do { (_, st) \<leftarrow> fs_find_walk (n_child r)
                    (slash # replicate (MAX_PATH_LEN - 1) NUL) 1 (the name) st;
                  Some (0, st) }
        else Some (0, st)
      })"

type_synonym 'a tree_cb = "string \<Rightarrow> bool \<Rightarrow> int \<Rightarrow> 'a \<Rightarrow> 'a"

partial_function (option) fs_tree_walk ::
  "ptr \<Rightarrow> 'a fs_st_scheme tree_cb \<Rightarrow> int \<Rightarrow> 'a fs_st_scheme \<Rightarrow> 'a fs_st_scheme option" where
  "fs_tree_walk node cb depth st =
     (if node = NULL then Some st
      else do {
        n \<leftarrow> fs_nodes st node;
        let st = cb (n_name n) (n_is_dir n) depth st;
        n \<leftarrow> fs_nodes st node;
        st \<leftarrow> (if n_is_dir n \<and> n_child n \<noteq> NULL
               then fs_tree_walk (n_child n) cb (depth + 1) st else Some st);
        n \<leftarrow> fs_nodes st node;
        fs_tree_walk (n_sibling n) cb depth st
      })"

definition fs_tree_cwd :: "'a fs_st_scheme tree_cb option \<Rightarrow> 'a fs_st_scheme \<Rightarrow>
    'a fs_st_scheme option" where
  "fs_tree_cwd cb st =
     (case cb of None \<Rightarrow> Some st
      | Some cb \<Rightarrow>
          if fs_cwd st = NULL then Some st
          else do {
            d \<leftarrow> fs_nodes st (fs_cwd st);
            if \<not> n_is_dir d then Some st else fs_tree_walk (n_child d) cb 0 st
          })"

end
