(* ===== verification/Fs_Inv.thy ===== *)
theory Fs_Inv
  imports Fs
begin

text \<open>
  The invariant of the file system and what it gives. The links of the heap are described by
  a ghost function \<open>K\<close>, the list of the children of every node: the child pointer of a node
  starts the chain of its list, a child points back to its parent, siblings have distinct
  names, and the edges from a node to its children are acyclic. Nodes that nothing points to
  (a removed file, an old root) stay in the store, since the allocator never frees, and
  satisfy the same conditions, so no operation has to say what it leaves behind.
\<close>

type_synonym kids = "ptr \<Rightarrow> ptr list"

type_synonym nodes = "ptr \<Rightarrow> fs_node option"

fun chain :: "nodes \<Rightarrow> ptr \<Rightarrow> ptr list \<Rightarrow> bool" where
  "chain h p [] \<longleftrightarrow> p = NULL"
| "chain h p (c # cs) \<longleftrightarrow> p = c \<and> c \<noteq> NULL \<and> (\<exists>n. h c = Some n \<and> chain h (n_sibling n) cs)"

definition edges :: "kids \<Rightarrow> (ptr \<times> ptr) set" where
  "edges K = {(d, c). c \<in> set (K d)}"

definition name_of :: "nodes \<Rightarrow> ptr \<Rightarrow> string" where
  "name_of h p = (case h p of None \<Rightarrow> [] | Some n \<Rightarrow> n_name n)"

definition valid_name :: "string \<Rightarrow> bool" where
  "valid_name s \<longleftrightarrow> cstring s \<and> s \<noteq> [] \<and> length s < MAX_NAME_LEN \<and> slash \<notin> set s"

definition node_ok :: "nodes \<Rightarrow> kids \<Rightarrow> ptr \<Rightarrow> fs_node \<Rightarrow> bool" where
  "node_ok h K d n \<longleftrightarrow>
     chain h (n_child n) (K d) \<and> cstring (n_name n) \<and> length (n_name n) < MAX_NAME_LEN \<and>
     (n_parent n = NULL \<or> h (n_parent n) \<noteq> None) \<and>
     (K d \<noteq> [] \<longrightarrow> n_is_dir n) \<and> distinct (map (name_of h) (K d)) \<and>
     (\<forall>c \<in> set (K d). \<exists>m. h c = Some m \<and> n_parent m = d \<and> valid_name (n_name m))"

definition tree_ok :: "nodes \<Rightarrow> kids \<Rightarrow> bool" where
  "tree_ok h K \<longleftrightarrow>
     h NULL = None \<and> (\<forall>d. h d = None \<longrightarrow> K d = []) \<and>
     (\<forall>d n. h d = Some n \<longrightarrow> node_ok h K d n) \<and> acyclic (edges K)"

definition dir_at :: "nodes \<Rightarrow> ptr \<Rightarrow> bool" where
  "dir_at h p \<longleftrightarrow> (\<exists>n. h p = Some n \<and> n_is_dir n)"

definition root_at :: "nodes \<Rightarrow> ptr \<Rightarrow> bool" where
  "root_at h p \<longleftrightarrow> (\<exists>n. h p = Some n \<and> n_is_dir n \<and> n_parent n = p \<and> n_sibling n = NULL)"

fun snap_chain :: "(ptr \<Rightarrow> snap option) \<Rightarrow> ptr \<Rightarrow> snap list \<Rightarrow> bool" where
  "snap_chain m p [] \<longleftrightarrow> p = NULL"
| "snap_chain m p (s # ss) \<longleftrightarrow> p \<noteq> NULL \<and> m p = Some s \<and> snap_chain m (s_next s) ss"

definition snaps_ok :: "nodes \<Rightarrow> snap list \<Rightarrow> bool" where
  "snaps_ok h ss \<longleftrightarrow> distinct (map s_name ss) \<and>
     (\<forall>s \<in> set ss. root_at h (s_root_copy s) \<and> cstring (s_name s) \<and> s_name s \<noteq> [])"

definition data_ok :: "nodes \<Rightarrow> (ptr \<Rightarrow> u8 list option) \<Rightarrow> bool" where
  "data_ok h b \<longleftrightarrow> (\<forall>p n. h p = Some n \<longrightarrow> unat (n_size n) < 2 ^ 20 \<and>
     (n_data n \<noteq> NULL \<longrightarrow> (\<exists>bs. b (n_data n) = Some bs \<and> unat (n_size n) < length bs)))"

definition below_top :: "'a fs_st_scheme \<Rightarrow> bool" where
  "below_top st \<longleftrightarrow>
     (\<forall>p \<in> dom (fs_nodes st) \<union> dom (fs_bufs st) \<union> dom (fs_snaps st). unat p < heap_top st)"

definition fs_ok :: "kids \<Rightarrow> 'a fs_st_scheme \<Rightarrow> bool" where
  "fs_ok K st \<longleftrightarrow>
     kmem_wf st \<and> crypto_ready st \<and> below_top st \<and> tree_ok (fs_nodes st) K \<and>
     data_ok (fs_nodes st) (fs_bufs st) \<and>
     root_at (fs_nodes st) (fs_root st) \<and> dir_at (fs_nodes st) (fs_cwd st) \<and>
     (\<exists>ss. snap_chain (fs_snaps st) (snap_head st) ss \<and> snaps_ok (fs_nodes st) ss)"

definition fs_inv :: "'a fs_st_scheme \<Rightarrow> bool" where
  "fs_inv st \<longleftrightarrow> (\<exists>K. fs_ok K st)"

subsection \<open>Chains and trees\<close>

lemma chain_frame:
  assumes "\<And>c. c \<in> set cs \<Longrightarrow> map_option n_sibling (h' c) = map_option n_sibling (h c)"
  shows "chain h p cs \<Longrightarrow> chain h' p cs"
  using assms
proof (induction cs arbitrary: p)
  case (Cons c cs)
  then obtain n where n: "h c = Some n" "chain h (n_sibling n) cs" "p = c" "c \<noteq> NULL" by auto
  from Cons.prems(2) [of c] n(1) obtain n' where n': "h' c = Some n'" "n_sibling n' = n_sibling n"
    by auto
  have "chain h' (n_sibling n) cs" using Cons n by simp
  with n n' show ?case by simp
qed simp


lemma chain_null: "chain h NULL cs \<longleftrightarrow> cs = []"
  by (cases cs) auto

lemma chain_nonnull: "p \<noteq> NULL \<Longrightarrow> chain h p cs \<Longrightarrow>
    \<exists>n cs'. cs = p # cs' \<and> h p = Some n \<and> chain h (n_sibling n) cs'"
  by (cases cs) auto

lemma tree_okD:
  assumes "tree_ok h K"
  shows "h NULL = None" "h d = None \<Longrightarrow> K d = []" "h d = Some n \<Longrightarrow> node_ok h K d n"
    "acyclic (edges K)"
  using assms by (auto simp: tree_ok_def)

lemma node_okD:
  assumes "node_ok h K d n"
  shows "chain h (n_child n) (K d)" "cstring (n_name n)" "length (n_name n) < MAX_NAME_LEN"
    "K d \<noteq> [] \<Longrightarrow> n_is_dir n" "distinct (map (name_of h) (K d))"
    "c \<in> set (K d) \<Longrightarrow> \<exists>m. h c = Some m \<and> n_parent m = d \<and> valid_name (n_name m)"
    "n_parent n = NULL \<or> h (n_parent n) \<noteq> None"
  using assms by (auto simp: node_ok_def)

lemma kidD:
  assumes "tree_ok h K" "c \<in> set (K d)"
  obtains n m where "h d = Some n" "n_is_dir n" "h c = Some m" "n_parent m = d"
    "valid_name (n_name m)" "c \<noteq> NULL" "c \<noteq> d"
proof -
  from assms obtain n where n: "h d = Some n"
    using tree_okD(2) [OF assms(1), of d] by (cases "h d") auto
  note ok = tree_okD(3) [OF assms(1) n]
  obtain m where m: "h c = Some m" "n_parent m = d" "valid_name (n_name m)"
    using node_okD(6) [OF ok assms(2)] by blast
  have "c \<noteq> NULL" using m(1) tree_okD(1) [OF assms(1)] by auto
  moreover have "c \<noteq> d"
  proof
    assume "c = d"
    then have "(d, d) \<in> edges K" using assms(2) by (simp add: edges_def)
    then show False using tree_okD(4) [OF assms(1)] by (auto simp: acyclic_def)
  qed
  moreover have "K d \<noteq> []" using assms(2) by auto
  then have "n_is_dir n" by (rule node_okD(4) [OF ok])
  ultimately show thesis using that n m by blast
qed

lemma kid_unique: "tree_ok h K \<Longrightarrow> c \<in> set (K d) \<Longrightarrow> c \<in> set (K d') \<Longrightarrow> d = d'"
  by (metis kidD option.inject)

lemma node_unlisted:
  "tree_ok h K \<Longrightarrow> h n = None \<Longrightarrow> n \<notin> set (K d)"
  by (metis kidD option.distinct(1))

lemma root_unlisted: "tree_ok h K \<Longrightarrow> root_at h r \<Longrightarrow> r \<notin> set (K d)"
  unfolding root_at_def by (metis kidD option.inject)

lemma name_of_Some [simp]: "h p = Some n \<Longrightarrow> name_of h p = n_name n"
  by (simp add: name_of_def)

text \<open>The tree sees five of the seven fields.\<close>

definition shape :: "fs_node \<Rightarrow> string \<times> bool \<times> ptr \<times> ptr \<times> ptr" where
  "shape n = (n_name n, n_is_dir n, n_parent n, n_child n, n_sibling n)"

lemma shape_upd [simp]:
  "shape (n\<lparr>n_data := x\<rparr>) = shape n" "shape (n\<lparr>n_size := s\<rparr>) = shape n"
  by (simp_all add: shape_def)

lemma tree_ok_shape:
  assumes "\<And>p. map_option shape (h' p) = map_option shape (h p)" "tree_ok h K"
  shows "tree_ok h' K"
proof -
  have ex: "\<exists>n. h p = Some n \<and> shape n = shape n'" if "h' p = Some n'" for p n'
    using assms(1) [of p] that by (cases "h p") auto
  have ex': "\<exists>n. h' p = Some n \<and> shape n = shape n'" if "h p = Some n'" for p n'
    using assms(1) [of p] that by (cases "h' p") auto
  have "name_of h' p = name_of h p" for p
    using assms(1) [of p] by (cases "h p"; cases "h' p") (auto simp: name_of_def shape_def)
  then have nm: "name_of h' = name_of h" by blast
  have "node_ok h' K d n'" if h': "h' d = Some n'" for d n'
  proof -
    obtain n where n: "h d = Some n" "shape n = shape n'" using ex [OF h'] by blast
    note ok = tree_okD(3) [OF assms(2) n(1)]
    have "map_option n_sibling (h' c) = map_option n_sibling (h c)" for c
      using assms(1) [of c] by (cases "h c"; cases "h' c") (auto simp: shape_def)
    then have "chain h' (n_child n') (K d)"
      using chain_frame [OF _ node_okD(1) [OF ok]] n(2) by (auto simp: shape_def)
    moreover have "\<exists>m. h' c = Some m \<and> n_parent m = d \<and> valid_name (n_name m)"
      if "c \<in> set (K d)" for c
      using node_okD(6) [OF ok that] ex' by (fastforce simp: shape_def)
    moreover have "h (n_parent n) \<noteq> None \<Longrightarrow> h' (n_parent n') \<noteq> None"
      using ex' n(2) by (fastforce simp: shape_def)
    ultimately show ?thesis
      using n(2) ok nm by (auto simp: node_ok_def shape_def)
  qed
  moreover have "h' p = None \<longleftrightarrow> h p = None" for p
    using assms(1) [of p] by (cases "h p"; cases "h' p") auto
  ultimately show ?thesis using assms(2) by (auto simp: tree_ok_def)
qed

subsection \<open>Changes of the tree\<close>

lemma name_of_upd: "name_of (h(p \<mapsto> n)) c = (if c = p then n_name n else name_of h c)"
  by (simp add: name_of_def)

lemma chain_upd_other: "chain h p cs \<Longrightarrow> a \<notin> set cs \<Longrightarrow> chain (h(a \<mapsto> n)) p cs"
  by (rule chain_frame) auto

text \<open>A store into a node that no list holds, keeping its children.\<close>

lemma tree_ok_unlisted:
  assumes t: "tree_ok h K" and u: "\<And>d. p \<notin> set (K d)" and "p \<noteq> NULL"
    and x: "cstring (n_name x)" "length (n_name x) < MAX_NAME_LEN" "K p \<noteq> [] \<Longrightarrow> n_is_dir x"
      "n_parent x = NULL \<or> n_parent x = p \<or> h (n_parent x) \<noteq> None"
    and c: "chain h (n_child x) (K p)"
  shows "tree_ok (h(p \<mapsto> x)) K"
proof -
  have nm: "map (name_of (h(p \<mapsto> x))) (K d) = map (name_of h) (K d)" for d
    using u [of d] by (auto simp: name_of_upd)
  have "node_ok (h(p \<mapsto> x)) K d n" if "(h(p \<mapsto> x)) d = Some n" for d n
  proof (cases "d = p")
    case True
    with that have n: "n = x" by simp
    have "distinct (map (name_of h) (K p)) \<and>
        (\<forall>c \<in> set (K p). \<exists>m. h c = Some m \<and> n_parent m = p \<and> valid_name (n_name m))"
    proof (cases "h p")
      case None
      then show ?thesis using tree_okD(2) [OF t] by simp
    next
      case (Some m)
      then show ?thesis using tree_okD(3) [OF t Some] by (auto simp: node_ok_def)
    qed
    moreover have "c \<noteq> p" if "c \<in> set (K p)" for c using u that by metis
    ultimately show ?thesis
      using x c u [of p] True n by (auto simp: node_ok_def chain_upd_other nm)
  next
    case False
    with that have n: "h d = Some n" by simp
    have "c \<noteq> p" if "c \<in> set (K d)" for c using u that by metis
    with tree_okD(3) [OF t n] u [of d] show ?thesis
      by (auto simp: node_ok_def chain_upd_other nm)
  qed
  moreover have "K d = []" if "(h(p \<mapsto> x)) d = None" for d
    using that tree_okD(2) [OF t] by (simp split: if_splits)
  ultimately show ?thesis using t \<open>p \<noteq> NULL\<close> by (simp add: tree_ok_def)
qed

lemma tree_ok_new:
  assumes "tree_ok h K" "h p = None" "p \<noteq> NULL" "cstring (n_name x)"
    "length (n_name x) < MAX_NAME_LEN" "n_child x = NULL" "n_parent x = NULL \<or> n_parent x = p"
  shows "tree_ok (h(p \<mapsto> x)) K"
  using assms tree_okD(2) [OF assms(1,2)] node_unlisted [OF assms(1,2)]
  by (intro tree_ok_unlisted) auto

text \<open>A node that no list holds put in front of the list of a directory.\<close>

lemma tree_ok_link:
  assumes t: "tree_ok h K" and u: "\<And>d. a \<notin> set (K d)" and x: "h a = Some x"
    and d: "h par = Some d" "n_is_dir d" and ne: "a \<noteq> par"
    and nocycle: "(a, par) \<notin> (edges K)\<^sup>*"
    and name: "valid_name (n_name x)" "n_name x \<notin> name_of h ` set (K par)"
    and h': "h' = h(a \<mapsto> x\<lparr>n_parent := par, n_sibling := n_child d\<rparr>,
      par \<mapsto> d\<lparr>n_child := a\<rparr>)"
  shows "tree_ok h' (K(par := a # K par))"
proof -
  let ?K = "K(par := a # K par)"
  have nm: "name_of h' = name_of h" using x d(1) ne by (auto simp: h' name_of_def fun_eq_iff)
  have par0: "par \<noteq> NULL" "a \<noteq> NULL" using tree_okD(1) [OF t] d(1) x by auto
  have fr: "map_option n_sibling (h' c) = map_option n_sibling (h c)" if "c \<noteq> a" for c
    using that d(1) by (auto simp: h')
  have ch: "chain h' p cs" if "chain h p cs" "a \<notin> set cs" for p cs
    using that fr by (intro chain_frame [OF _ that(1)]) metis
  note okp = tree_okD(3) [OF t d(1)]
  have dm: "h' p \<noteq> None" if "h p \<noteq> None" for p using that by (simp add: h')
  have "node_ok h' ?K e n" if "h' e = Some n" for e n
  proof -
    have kids: "\<exists>m. h' c = Some m \<and> n_parent m = e \<and> valid_name (n_name m)" if "c \<in> set (K e)" for c
    proof -
      from t that obtain m where m: "h c = Some m" "n_parent m = e" "valid_name (n_name m)"
        by (rule kidD)
      have "c \<noteq> a" using u that by metis
      then show ?thesis using m d by (auto simp: h')
    qed
    show ?thesis
    proof (cases "e = par")
      case True
      with that have n: "n = d\<lparr>n_child := a\<rparr>" by (simp add: h')
      have "chain h' (n_child d) (K par)" using ch node_okD(1) [OF okp] u by blast
      moreover have a: "h' a = Some (x\<lparr>n_parent := par, n_sibling := n_child d\<rparr>)"
        using ne by (simp add: h')
      ultimately have "chain h' a (a # K par)" using par0 by simp
      moreover have "\<exists>m. h' c = Some m \<and> n_parent m = e \<and> valid_name (n_name m)"
        if "c \<in> set (a # K par)" for c
        using that kids [of c] a name(1) True by auto
      moreover have "distinct (map (name_of h') (a # K par))"
        using okp name(2) x by (simp add: node_ok_def nm)
      ultimately show ?thesis
        using True n okp d(2) dm [of "n_parent d"] by (auto simp: node_ok_def)
    next
      case False
      show ?thesis
      proof (cases "e = a")
        case True
        with that False have "n = x\<lparr>n_parent := par, n_sibling := n_child d\<rparr>" by (simp add: h')
        then show ?thesis
          using True False tree_okD(3) [OF t x] kids ch u dm [of par] d(1)
          by (auto simp: node_ok_def nm)
      next
        case e: False
        with that False have n: "h e = Some n" by (simp add: h')
        then show ?thesis
          using False tree_okD(3) [OF t n] kids ch u dm [of "n_parent n"] by (auto simp: node_ok_def nm)
      qed
    qed
  qed
  moreover have "?K e = []" if "h' e = None" for e
    using that tree_okD(2) [OF t] by (auto simp: h' split: if_splits)
  moreover have "edges ?K = insert (par, a) (edges K)" by (auto simp: edges_def split: if_splits)
  then have "acyclic (edges ?K)" using tree_okD(4) [OF t] nocycle by (simp add: acyclic_insert)
  moreover have "h' NULL = None" using par0 tree_okD(1) [OF t] by (simp add: h')
  ultimately show ?thesis by (auto simp: tree_ok_def)
qed

text \<open>The store of \<open>detach\<close>: the link that points to the node skips it.\<close>

fun set_link :: "link \<Rightarrow> ptr \<Rightarrow> nodes \<Rightarrow> nodes" where
  "set_link (Child_of p) q h = h(p := map_option (n_child_update (\<lambda>_. q)) (h p))"
| "set_link (Sibling_of p) q h = h(p := map_option (n_sibling_update (\<lambda>_. q)) (h p))"

lemma write_link_eq:
  "read_link l st \<noteq> None \<Longrightarrow> write_link l q st = Some (st\<lparr>fs_nodes := set_link l q (fs_nodes st)\<rparr>)"
  by (cases l) (auto simp: upd_node_def)

definition link_to :: "ptr \<Rightarrow> ptr list \<Rightarrow> link" where
  "link_to d as = (if as = [] then Child_of d else Sibling_of (last as))"

definition unlinked :: "ptr \<Rightarrow> ptr list \<Rightarrow> ptr \<Rightarrow> fs_node \<Rightarrow> nodes \<Rightarrow> nodes" where
  "unlinked d as a n h =
     (set_link (link_to d as) (n_sibling n) h)(a \<mapsto> n\<lparr>n_sibling := NULL, n_parent := NULL\<rparr>)"

lemma chain_skip:
  assumes "chain h p (as @ a # bs)" "distinct (as @ a # bs)" "h a = Some n" "as \<noteq> []"
  shows "chain (set_link (Sibling_of (last as)) (n_sibling n) h) p (as @ bs)"
  using assms
proof (induction as arbitrary: p)
  case (Cons b as)
  then obtain m where m: "p = b" "b \<noteq> NULL" "h b = Some m" "chain h (n_sibling m) (as @ a # bs)"
    by auto
  show ?case
  proof (cases "as = []")
    case True
    have "chain h (n_sibling n) bs" using m(4) True Cons.prems(3) by auto
    then have "chain (set_link (Sibling_of b) (n_sibling n) h) (n_sibling n) bs"
      by (rule chain_frame [rotated]) (use Cons.prems(2) in auto)
    moreover have "set_link (Sibling_of b) (n_sibling n) h b = Some (m\<lparr>n_sibling := n_sibling n\<rparr>)"
      using m(3) by simp
    ultimately show ?thesis using m(1,2) True by (simp del: set_link.simps)
  next
    case False
    with Cons.prems m have "chain (set_link (Sibling_of (last as)) (n_sibling n) h) (n_sibling m) (as @ bs)"
      by (intro Cons.IH) auto
    moreover have "last as \<noteq> b" using Cons.prems(2) False by auto
    then have "set_link (Sibling_of (last as)) (n_sibling n) h b = Some m" using m(3) by simp
    ultimately show ?thesis using m(1,2) False by (simp del: set_link.simps)
  qed
qed simp

lemma unlinked_other:
  assumes "h c = Some m" "c \<noteq> a"
  obtains m' where "unlinked d as a n h c = Some m'" "n_name m' = n_name m"
    "n_is_dir m' = n_is_dir m" "n_parent m' = n_parent m" "n_data m' = n_data m"
    "n_size m' = n_size m"
    "c \<noteq> d \<or> as \<noteq> [] \<Longrightarrow> n_child m' = n_child m"
    "c = d \<Longrightarrow> as = [] \<Longrightarrow> n_child m' = n_sibling n"
    "as = [] \<or> c \<noteq> last as \<Longrightarrow> n_sibling m' = n_sibling m"
proof -
  define m' where "m' = (if as = [] \<and> c = d then m\<lparr>n_child := n_sibling n\<rparr>
    else if as \<noteq> [] \<and> c = last as then m\<lparr>n_sibling := n_sibling n\<rparr> else m)"
  have "unlinked d as a n h c = Some m'"
    using assms by (cases "as = []"; cases "c = d"; cases "c = last as")
      (simp_all add: unlinked_def link_to_def m'_def)
  then show thesis by (rule that) (auto simp: m'_def)
qed

lemma unlinked_None: "h a = Some n \<Longrightarrow> unlinked d as a n h c = None \<longleftrightarrow> h c = None"
  by (cases "as = []"; cases "c = a") (simp_all add: unlinked_def link_to_def)

lemma unlinked_self: "unlinked d as a n h a = Some (n\<lparr>n_sibling := NULL, n_parent := NULL\<rparr>)"
  by (simp add: unlinked_def)

lemma tree_ok_unlink:
  assumes t: "tree_ok h K" and k: "K d = as @ a # bs" and n: "h a = Some n"
  shows "tree_ok (unlinked d as a n h) (K(d := as @ bs))" (is "tree_ok ?h ?K")
proof -
  have a: "a \<in> set (K d)" using k by simp
  from t a obtain dn where d: "h d = Some dn" "a \<noteq> d" "a \<noteq> NULL" "n_parent n = d"
    by (rule kidD) (use n in auto)
  note okd = tree_okD(3) [OF t d(1)]
  have dist: "distinct (as @ a # bs)" using node_okD(5) [OF okd] k by (metis distinct_map)
  have only: "a \<notin> set (K e)" if "e \<noteq> d" for e using kid_unique [OF t a] that by metis
  have last_as: "last as \<in> set (K d)" if "as \<noteq> []" using that k by simp
  have nm: "name_of ?h = name_of h"
  proof
    fix c
    show "name_of ?h c = name_of h c"
    proof (cases "h c")
      case None
      then have "?h c = None" using n by (simp add: unlinked_None)
      then show ?thesis using None by (simp add: name_of_def)
    next
      case (Some m)
      show ?thesis
      proof (cases "c = a")
        case True
        then show ?thesis using n by (simp add: unlinked_def)
      next
        case False
        with Some obtain m' where "?h c = Some m'" "n_name m' = n_name m" by (rule unlinked_other)
        then show ?thesis using Some by simp
      qed
    qed
  qed
  have sub: "set (?K e) \<subseteq> set (K e) - {a}" for e using k dist only [of e] by auto
  have kids: "\<exists>m. ?h c = Some m \<and> n_parent m = e \<and> valid_name (n_name m)" if c: "c \<in> set (?K e)" for c e
  proof -
    have c': "c \<in> set (K e)" "c \<noteq> a" using sub [of e] c by auto
    from t c'(1) obtain m where m: "h c = Some m" "n_parent m = e" "valid_name (n_name m)"
      by (rule kidD)
    from m(1) c'(2) obtain m' where "?h c = Some m'" "n_name m' = n_name m" "n_parent m' = n_parent m"
      by (rule unlinked_other)
    then show ?thesis using m by simp
  qed
  have chd: "chain ?h (n_child m') (as @ bs)"
    if "?h d = Some m'" "as = [] \<Longrightarrow> n_child m' = n_sibling n" "as \<noteq> [] \<Longrightarrow> n_child m' = n_child dn" for m'
  proof (cases "as = []")
    case True
    have "chain h (n_sibling n) bs" using node_okD(1) [OF okd] k True n by simp
    then have "chain ?h (n_sibling n) bs"
      by (rule chain_frame [rotated]) (use dist True in \<open>auto simp: unlinked_def link_to_def option.map_comp o_def\<close>)
    then show ?thesis using True that by simp
  next
    case False
    have "chain (set_link (Sibling_of (last as)) (n_sibling n) h) (n_child dn) (as @ bs)"
      using chain_skip [of h "n_child dn" as a bs n] dist n False node_okD(1) [OF okd] k by simp
    then show ?thesis
      using False that dist by (auto simp: unlinked_def link_to_def intro!: chain_upd_other)
  qed
  have che: "chain ?h p (K e)" if "chain h p (K e)" "e \<noteq> d" for p e
  proof (rule chain_frame [OF _ that(1)])
    fix c
    assume c: "c \<in> set (K e)"
    then have "c \<noteq> a" "as = [] \<or> c \<noteq> last as"
      using only [OF that(2)] last_as kid_unique [OF t _ c] that(2) by blast+
    then show "map_option n_sibling (?h c) = map_option n_sibling (h c)"
      by (auto simp: unlinked_def link_to_def option.map_comp o_def)
  qed
  have "node_ok ?h ?K e m" if e: "?h e = Some m" for e m
  proof (cases "e = a")
    case True
    then have "m = n\<lparr>n_sibling := NULL, n_parent := NULL\<rparr>" using e by (simp add: unlinked_def)
    then show ?thesis
      using True d tree_okD(3) [OF t n] kids [of _ e] che by (auto simp: node_ok_def nm)
  next
    case False
    then obtain m0 where m0: "h e = Some m0"
      using e n unlinked_None [of h a n d as e] by (cases "h e") auto
    from m0 False obtain m' where m': "?h e = Some m'" "n_name m' = n_name m0"
      "n_is_dir m' = n_is_dir m0" "e \<noteq> d \<or> as \<noteq> [] \<Longrightarrow> n_child m' = n_child m0"
      "e = d \<Longrightarrow> as = [] \<Longrightarrow> n_child m' = n_sibling n" "n_parent m' = n_parent m0"
      by (rule unlinked_other) blast
    have mm: "m' = m" using e m' by simp
    note ok = tree_okD(3) [OF t m0]
    show ?thesis
    proof (cases "e = d")
      case True
      with m0 d(1) have "m0 = dn" by simp
      then show ?thesis
        using True ok k m' mm kids [of _ e] chd [of m] dist unlinked_None [of h a n d as "n_parent m"] n
        by (auto simp: node_ok_def nm)
    next
      case F: False
      then show ?thesis
        using ok m' mm kids [of _ e] che unlinked_None [of h a n d as "n_parent m"] n
        by (auto simp: node_ok_def nm)
    qed
  qed
  moreover have "?K e = []" if "?h e = None" for e
  proof -
    have "h e = None" using that n by (simp add: unlinked_None)
    then show ?thesis using tree_okD(2) [OF t] d(1) by auto
  qed
  moreover have "acyclic (edges ?K)"
    by (rule acyclic_subset [OF tree_okD(4) [OF t]]) (use sub in \<open>auto simp: edges_def\<close>)
  moreover have "?h NULL = None"
    using tree_okD(1) [OF t] n by (simp add: unlinked_None)
  ultimately show ?thesis by (auto simp: tree_ok_def)
qed

end
