(* ===== verification/Fs_Path.thy ===== *)
theory Fs_Path
  imports Fs_Inv
begin

text \<open>
  Path resolution. \<open>components\<close> is the list of names that repeated calls of
  \<open>fs_next_component\<close> return, and \<open>fs_lookup\<close> walks such a list from a directory with
  \<open>fs_find_in_dir\<close>. Under the invariant both loops of \<open>fs_resolve\<close> end and the function is
  the lookup of the components of the path; the lookup of a path after an operation is then
  what the operation's properties speak of.
\<close>

function components :: "string \<Rightarrow> string list" where
  "components p =
     (case fs_next_component p MAX_NAME_LEN of
        (Some c, p') \<Rightarrow> c # components p' | (None, _) \<Rightarrow> [])"
  by pat_completeness auto
termination
  by (relation "measure length") (auto dest!: fs_next_component_shorter sym [of "(Some _, _)"])

declare components.simps [simp del]

fun fs_lookup :: "'a fs_st_scheme \<Rightarrow> ptr \<Rightarrow> string list \<Rightarrow> ptr option" where
  "fs_lookup st d [] = Some d"
| "fs_lookup st d (x # xs) =
     (case fs_find_in_dir st d x of None \<Rightarrow> None
      | Some c \<Rightarrow> if c = NULL then None else fs_lookup st c xs)"

definition path_base :: "'a fs_st_scheme \<Rightarrow> string \<Rightarrow> ptr" where
  "path_base st path = (if hd path = slash then fs_root st else fs_cwd st)"

text \<open>The absolute path of a list of names.\<close>

definition path_of :: "string list \<Rightarrow> string" where
  "path_of cs = concat (map (\<lambda>c. slash # c) cs)"

subsection \<open>Components\<close>

lemma comp_loop_split:
  "comp_loop s i n = (out, r) \<Longrightarrow>
     s = out @ r \<and> slash \<notin> set out \<and> (i < n \<longrightarrow> i + length out < n) \<and>
     (r = [] \<or> hd r = slash \<or> n \<le> i + length out + 1)"
  by (induction s i n arbitrary: out rule: comp_loop.induct) (auto split: prod.splits if_splits)

lemma comp_loop_whole:
  "slash \<notin> set c \<Longrightarrow> i + length c < n \<Longrightarrow> (r = [] \<or> hd r = slash) \<Longrightarrow> comp_loop (c @ r) i n = (c, r)"
proof (induction c arbitrary: i)
  case Nil
  then show ?case by (cases r) auto
qed auto

lemma skip_slashes_idem [simp]: "skip_slashes (skip_slashes s) = skip_slashes s"
  by (induction s) auto

lemma set_skip_slashes: "set (skip_slashes s) \<subseteq> set s"
  by (induction s) auto

lemma next_componentD:
  assumes "fs_next_component p MAX_NAME_LEN = (Some c, p')"
  shows "c \<noteq> []" "length c < MAX_NAME_LEN" "slash \<notin> set c" "set c \<subseteq> set p" "set p' \<subseteq> set p"
    "skip_slashes p' = p'"
proof -
  obtain a s where s: "skip_slashes p = a # s"
    using assms by (cases "skip_slashes p") (auto simp: fs_next_component_def)
  obtain r where r: "comp_loop (a # s) 0 MAX_NAME_LEN = (c, r)" "p' = skip_slashes r"
    using assms s by (auto simp: fs_next_component_def split: prod.splits)
  from comp_loop_split [OF r(1)]
  have sp: "a # s = c @ r" "slash \<notin> set c" "length c < MAX_NAME_LEN"
    by (auto simp: MAX_NAME_LEN_def)
  show "c \<noteq> []" using r(1) skip_slashes_hd [OF s] by (auto simp: MAX_NAME_LEN_def split: prod.splits)
  show "length c < MAX_NAME_LEN" "slash \<notin> set c" using sp by auto
  have "set (a # s) \<subseteq> set p" using set_skip_slashes [of p] s by simp
  then have cr: "set c \<subseteq> set p" "set r \<subseteq> set p" using sp(1) by auto
  then show "set c \<subseteq> set p" "set p' \<subseteq> set p" using set_skip_slashes [of r] r(2) by auto
  show "skip_slashes p' = p'" using r(2) by simp
qed

lemma next_component_None: "fst (fs_next_component p n) = None \<longleftrightarrow> skip_slashes p = []"
  by (auto simp: fs_next_component_def Let_def split: prod.splits)

lemma components_Nil_iff: "components p = [] \<longleftrightarrow> skip_slashes p = []"
  using next_component_None [of p MAX_NAME_LEN]
  by (subst components.simps) (auto split: prod.splits option.splits)

lemma components_valid:
  "cstring p \<Longrightarrow> c \<in> set (components p) \<Longrightarrow> valid_name c"
proof (induction p rule: components.induct)
  case (1 p)
  obtain oc p' where nc: "fs_next_component p MAX_NAME_LEN = (oc, p')" by fastforce
  show ?case
  proof (cases oc)
    case None
    then show ?thesis using 1 nc by (simp add: components.simps [of p])
  next
    case (Some x)
    note d = next_componentD [OF nc [unfolded Some]]
    have "cstring p'" "valid_name x"
      using d "1.prems"(1) by (auto simp: cstring_def valid_name_def)
    then show ?thesis
      using "1.IH" [OF nc [symmetric] Some] "1.prems" nc Some by (auto simp: components.simps [of p])
  qed
qed

lemma components_name:
  assumes "valid_name c" "r = [] \<or> hd r = slash"
  shows "components (c @ r) = c # components r"
proof -
  obtain a c' where c: "c = a # c'" "a \<noteq> slash" using assms(1) by (cases c) (auto simp: valid_name_def)
  have "comp_loop (c @ r) 0 MAX_NAME_LEN = (c, r)"
    using assms by (intro comp_loop_whole) (auto simp: valid_name_def)
  then have "fs_next_component (c @ r) MAX_NAME_LEN = (Some c, skip_slashes r)"
    using c by (simp add: fs_next_component_def)
  moreover have "fs_next_component (skip_slashes r) n = fs_next_component r n" for n
    by (simp add: fs_next_component_def)
  then have "components (skip_slashes r) = components r"
    by (subst (1 2) components.simps) simp
  ultimately show ?thesis by (subst components.simps) simp
qed

lemma components_slash [simp]: "components (slash # p) = components p"
proof -
  have "fs_next_component (slash # p) n = fs_next_component p n" for n
    by (simp add: fs_next_component_def)
  then show ?thesis by (subst (1 2) components.simps) simp
qed

lemma components_nil [simp]: "components [] = []"
  by (simp add: components_Nil_iff)

lemma components_path_of: "list_all valid_name cs \<Longrightarrow> components (path_of cs) = cs"
proof (induction cs)
  case (Cons c cs)
  have "path_of cs = [] \<or> hd (path_of cs) = slash" by (cases cs) (auto simp: path_of_def)
  with Cons show ?case
    using components_name [of c "path_of cs"] by (simp add: path_of_def)
qed (simp add: path_of_def)

subsection \<open>Search in a directory\<close>

definition kid :: "nodes \<Rightarrow> kids \<Rightarrow> ptr \<Rightarrow> string \<Rightarrow> ptr option" where
  "kid h K d nm = find (\<lambda>c. name_of h c = nm) (K d)"

lemma find_loop_chain:
  assumes "chain (fs_nodes st) p cs" "\<And>c. c \<in> set cs \<Longrightarrow> cstring (name_of (fs_nodes st) c)" "cstring nm"
  shows "find_loop st p nm =
    Some (case find (\<lambda>c. name_of (fs_nodes st) c = nm) cs of None \<Rightarrow> NULL | Some c \<Rightarrow> c)"
  using assms
proof (induction cs arbitrary: p)
  case Nil
  then show ?case by (simp add: find_loop.simps)
next
  case (Cons c cs)
  then obtain n where n: "p = c" "c \<noteq> NULL" "fs_nodes st c = Some n"
    "chain (fs_nodes st) (n_sibling n) cs" by auto
  moreover have "cstring (n_name n)" using Cons.prems(2) [of c] n(3) by simp
  ultimately show ?case using Cons by (simp add: find_loop.simps [of st c])
qed

lemma fs_find_in_dir_kid:
  assumes "tree_ok (fs_nodes st) K" "fs_nodes st d = Some n" "cstring nm"
  shows "fs_find_in_dir st d nm =
    Some (case kid (fs_nodes st) K d nm of None \<Rightarrow> NULL | Some c \<Rightarrow> c)"
proof -
  have "cstring (name_of (fs_nodes st) c)" if c: "c \<in> set (K d)" for c
    using assms(1) c by (rule kidD) (simp add: valid_name_def)
  then show ?thesis
    using find_loop_chain [OF node_okD(1) [OF tree_okD(3) [OF assms(1,2)]] _ assms(3)] assms(2)
    by (simp add: fs_find_in_dir_def kid_def)
qed

lemma kidI: "kid h K d nm = Some c \<Longrightarrow> c \<in> set (K d) \<and> name_of h c = nm"
  by (auto simp: kid_def find_Some_iff)

lemma kid_None: "kid h K d nm = None \<longleftrightarrow> nm \<notin> name_of h ` set (K d)"
  by (auto simp: kid_def find_None_iff)

lemma kid_member:
  assumes "tree_ok h K" "c \<in> set (K d)" "name_of h c = nm"
  shows "kid h K d nm = Some c"
proof -
  from assms(1,2) obtain n where "h d = Some n" by (rule kidD)
  then have inj: "inj_on (name_of h) (set (K d))"
    using node_okD(5) [OF tree_okD(3) [OF assms(1)]] by (simp add: distinct_map)
  have "kid h K d nm \<noteq> None" using assms(2,3) by (auto simp: kid_None)
  then obtain c' where c': "kid h K d nm = Some c'" by auto
  from kidI [OF this] have "c' = c" using inj assms(2,3) by (auto dest: inj_onD)
  with c' show ?thesis by simp
qed

lemma fs_find_in_dir_cases:
  assumes "tree_ok (fs_nodes st) K" "fs_nodes st d = Some n" "cstring nm"
  obtains (none) "fs_find_in_dir st d nm = Some NULL" "kid (fs_nodes st) K d nm = None"
  | (some) c m where "fs_find_in_dir st d nm = Some c" "kid (fs_nodes st) K d nm = Some c"
      "c \<noteq> NULL" "fs_nodes st c = Some m" "n_name m = nm" "n_parent m = d" "c \<in> set (K d)"
proof (cases "kid (fs_nodes st) K d nm")
  case None
  then show thesis using none fs_find_in_dir_kid [OF assms] by simp
next
  case (Some c)
  note c = kidI [OF Some]
  from assms(1) conjunct1 [OF c] obtain m where
    "fs_nodes st c = Some m" "n_parent m = d" "c \<noteq> NULL" by (rule kidD)
  then show thesis using some [of c m] Some c fs_find_in_dir_kid [OF assms] by simp
qed

subsection \<open>Resolution\<close>

lemma fs_lookup_node:
  assumes "tree_ok (fs_nodes st) K"
  shows "fs_nodes st d \<noteq> None \<Longrightarrow> list_all cstring cs \<Longrightarrow> fs_lookup st d cs = Some p \<Longrightarrow>
    fs_nodes st p \<noteq> None"
proof (induction cs arbitrary: d)
  case (Cons x xs)
  from Cons.prems obtain n where n: "fs_nodes st d = Some n" "cstring x" "list_all cstring xs" by auto
  from assms n(1,2) show ?case
    by (cases rule: fs_find_in_dir_cases) (use Cons n in auto)
qed simp

lemma fs_lookup_append:
  "fs_lookup st d (xs @ ys) = (case fs_lookup st d xs of None \<Rightarrow> None | Some c \<Rightarrow> fs_lookup st c ys)"
  by (induction xs arbitrary: d) (auto split: option.splits)

text \<open>One step of the loop: the three ways to leave it and the step to the next component.\<close>

lemma resolve_loop_nil:
  "components p = [] \<Longrightarrow> resolve_loop st w cur par p =
     Some (if w then (if par \<noteq> NULL then par else cur, Some []) else (cur, None))"
  using next_component_None [of p MAX_NAME_LEN]
  by (subst resolve_loop.simps) (auto simp: components_Nil_iff split: prod.splits option.splits)

lemma resolve_loop_cons:
  assumes "components p = c # cs"
  obtains p' where "components p' = cs" "cstring p \<Longrightarrow> cstring p'" "length c < MAX_NAME_LEN"
    "resolve_loop st w cur par p =
      do { nxt \<leftarrow> fs_find_in_dir st cur c;
           if nxt = NULL
           then if w \<and> cs = [] then Some (cur, Some c) else Some (NULL, None)
           else resolve_loop st w nxt cur p' }"
proof -
  obtain oc p' where nc: "fs_next_component p MAX_NAME_LEN = (oc, p')" by fastforce
  with assms have p': "oc = Some c" "components p' = cs"
    by (auto simp: components.simps [of p] split: option.splits)
  note d = next_componentD [OF nc [unfolded p'(1)]]
  have "p' = [] \<longleftrightarrow> cs = []" using d(6) p'(2) components_Nil_iff [of p'] by auto
  moreover have "kstrncpy c MAX_NAME_LEN = c" using d(2) by (rule kstrncpy_short)
  moreover have "cstring p \<Longrightarrow> cstring p'" using d(5) by (auto simp: cstring_def)
  ultimately show thesis
    using that [OF p'(2) _ d(2)] nc p'
    by (simp add: resolve_loop.simps [of st w cur par p] cong: if_cong)
qed

lemma resolve_loop_lookup:
  assumes t: "tree_ok (fs_nodes st) K"
  shows "cstring p \<Longrightarrow> fs_nodes st cur \<noteq> None \<Longrightarrow> components p = cs \<Longrightarrow>
    resolve_loop st False cur par p =
      Some (case fs_lookup st cur cs of None \<Rightarrow> NULL | Some q \<Rightarrow> q, None)"
proof (induction cs arbitrary: p cur par)
  case Nil
  then show ?case by (simp add: resolve_loop_nil)
next
  case (Cons c cs)
  obtain p' where p': "components p' = cs" "cstring p \<Longrightarrow> cstring p'"
    "resolve_loop st False cur par p =
      do { nxt \<leftarrow> fs_find_in_dir st cur c;
           if nxt = NULL
           then if False \<and> cs = [] then Some (cur, Some c) else Some (NULL, None)
           else resolve_loop st False nxt cur p' }"
    by (rule resolve_loop_cons [OF Cons.prems(3)]) blast
  obtain n where n: "fs_nodes st cur = Some n" using Cons.prems(2) by auto
  have "cstring c" using components_valid [OF Cons.prems(1), of c] Cons.prems(3)
    by (simp add: valid_name_def)
  with t n show ?case
  proof (cases rule: fs_find_in_dir_cases)
    case none
    then show ?thesis using p'(3) by simp
  next
    case (some q m)
    then show ?thesis using p' Cons.IH [of p' q cur] Cons.prems(1) by simp
  qed
qed

lemma resolve_loop_parent:
  assumes t: "tree_ok (fs_nodes st) K"
  shows "cstring p \<Longrightarrow> fs_nodes st cur \<noteq> None \<Longrightarrow> components p = cs @ [c] \<Longrightarrow>
    resolve_loop st True cur par p =
      Some (case fs_lookup st cur cs of None \<Rightarrow> (NULL, None)
        | Some d \<Rightarrow> (d, Some (if fs_find_in_dir st d c = Some NULL then c else [])))"
proof (induction cs arbitrary: p cur par)
  case Nil
  obtain p' where p': "components p' = []"
    "resolve_loop st True cur par p =
      do { nxt \<leftarrow> fs_find_in_dir st cur c;
           if nxt = NULL
           then if True \<and> ([] :: string list) = [] then Some (cur, Some c) else Some (NULL, None)
           else resolve_loop st True nxt cur p' }"
    by (rule resolve_loop_cons [OF Nil.prems(3) [unfolded append_Nil]]) blast
  obtain n where n: "fs_nodes st cur = Some n" using Nil.prems(2) by auto
  then have "cur \<noteq> NULL" using tree_okD(1) [OF t] by auto
  moreover have "cstring c" using components_valid [OF Nil.prems(1), of c] Nil.prems(3)
    by (simp add: valid_name_def)
  with t n show ?case
    by (cases rule: fs_find_in_dir_cases)
      (use p' \<open>cur \<noteq> NULL\<close> in \<open>auto simp: resolve_loop_nil\<close>)
next
  case (Cons x xs)
  obtain p' where p': "components p' = xs @ [c]" "cstring p \<Longrightarrow> cstring p'"
    "resolve_loop st True cur par p =
      do { nxt \<leftarrow> fs_find_in_dir st cur x;
           if nxt = NULL
           then if True \<and> xs @ [c] = [] then Some (cur, Some x) else Some (NULL, None)
           else resolve_loop st True nxt cur p' }"
    by (rule resolve_loop_cons [OF Cons.prems(3) [unfolded append_Cons]]) blast
  obtain n where n: "fs_nodes st cur = Some n" using Cons.prems(2) by auto
  have "cstring x" using components_valid [OF Cons.prems(1), of x] Cons.prems(3)
    by (simp add: valid_name_def)
  with t n show ?case
  proof (cases rule: fs_find_in_dir_cases)
    case none
    then show ?thesis using p'(3) by simp
  next
    case (some q m)
    then show ?thesis using p' Cons.IH [of p' q cur] Cons.prems(1) by simp
  qed
qed

end
