(* ===== verification/Fs_Ops.thy ===== *)
theory Fs_Ops
  imports Fs_Path
begin

text \<open>
  The operations that create nodes and store data: \<open>fs_init\<close>, \<open>fs_mkdir\<close>, \<open>fs_touch\<close>,
  \<open>fs_write\<close>, \<open>fs_write_cwd\<close>, \<open>fs_copy\<close>, and \<open>fs_read\<close>. Each keeps the invariant; each
  either fails and leaves every lookup as it was, or has the effect stated on the lookups
  and on the content.
\<close>

subsection \<open>Frame lemmas\<close>

lemma fs_fields_con_call [simp, frame_simps]:
  "fs_nodes (con_call f c st) = fs_nodes st"
  "fs_bufs (con_call f c st) = fs_bufs st"
  "fs_snaps (con_call f c st) = fs_snaps st"
  "fs_root (con_call f c st) = fs_root st"
  "fs_cwd (con_call f c st) = fs_cwd st"
  "snap_head (con_call f c st) = snap_head st"
  "g_key (con_call f c st) = g_key st"
  "g_key_len (con_call f c st) = g_key_len st"
  by (simp_all add: con_call_def)

lemma fs_ok_con_call [simp]: "fs_ok K (con_call f c st) = fs_ok K st"
  by (simp add: fs_ok_def crypto_ready_def below_top_def)

lemma fs_okD:
  assumes "fs_ok K st"
  shows "kmem_wf st" "crypto_ready st" "below_top st" "tree_ok (fs_nodes st) K"
    "data_ok (fs_nodes st) (fs_bufs st)" "root_at (fs_nodes st) (fs_root st)"
    "dir_at (fs_nodes st) (fs_cwd st)"
  using assms by (auto simp: fs_ok_def)

lemma path_base_node: "fs_ok K st \<Longrightarrow> fs_nodes st (path_base st p) \<noteq> None"
  by (auto simp: path_base_def fs_ok_def root_at_def dir_at_def)

lemma fs_ok_heap:
  assumes "fs_ok K st" "kmem_wf (st\<lparr>heap_offset := x\<rparr>)" "heap_top st \<le> heap_top (st\<lparr>heap_offset := x\<rparr>)"
  shows "fs_ok K (st\<lparr>heap_offset := x\<rparr>)"
proof -
  have "below_top (st\<lparr>heap_offset := x\<rparr>)"
    unfolding below_top_def
  proof
    fix p
    assume "p \<in> dom (fs_nodes (st\<lparr>heap_offset := x\<rparr>)) \<union> dom (fs_bufs (st\<lparr>heap_offset := x\<rparr>)) \<union>
      dom (fs_snaps (st\<lparr>heap_offset := x\<rparr>))"
    then have "unat p < heap_top st" using assms(1) by (simp add: fs_ok_def below_top_def)
    with assms(3) show "unat p < heap_top (st\<lparr>heap_offset := x\<rparr>)" by linarith
  qed
  then show ?thesis using assms(1,2) by (simp add: fs_ok_def crypto_ready_def)
qed

lemma kmalloc_null:
  assumes "kmalloc sz st = (NULL, st')" "kmem_wf st" "small_size sz"
  shows "0x100000 \<le> unat (heap_offset st) + unat sz"
proof (rule ccontr)
  assume "\<not> ?thesis"
  then have "kmalloc sz st = (KHEAP_START + heap_offset st, st\<lparr>heap_offset := heap_offset st + sz\<rparr>)"
    using assms by (intro kmalloc_ok) (auto simp: KHEAP_SIZE_def)
  with assms(1) have "KHEAP_START + heap_offset st = NULL" by simp
  then show False using unat_heap_ptr [OF assms(2)] by (simp add: heap_top_def KHEAP_START_def)
qed

lemma fs_kmalloc:
  assumes "kmalloc sz st = (p, st')" "fs_ok K st" "small_size sz" "0 < sz"
  obtains (oom) "p = NULL" "st' = console_write Kmalloc_c (''kmalloc: OUT OF MEMORY!'' @ [newline]) st"
      "fs_ok K st'" "0x100000 \<le> unat (heap_offset st) + unat sz"
  | (ok) "p \<noteq> NULL" "st' = st\<lparr>heap_offset := heap_offset st + sz\<rparr>" "fs_ok K st'"
      "fs_nodes st p = None" "fs_bufs st p = None" "fs_snaps st p = None"
      "unat p < heap_top st'" "heap_top st \<le> unat p"
      "unat (heap_offset st') = unat (heap_offset st) + unat sz"
  using assms(1) fs_okD(1) [OF assms(2)] assms(3)
proof (cases rule: kmalloc_cases)
  case oom
  then show thesis
    using that(1) assms(1,2) kmalloc_null [of sz st st'] fs_okD(1) [OF assms(2)] assms(3) by simp
next
  case ok
  have "heap_top st \<le> heap_top st'" using ok(3) by simp
  then have "fs_ok K st'" using fs_ok_heap [OF assms(2)] ok(4,5) by simp
  moreover have "q \<noteq> p" if "q \<in> dom (fs_nodes st) \<union> dom (fs_bufs st) \<union> dom (fs_snaps st)" for q
    using fs_okD(3) [OF assms(2), unfolded below_top_def, rule_format, OF that] ok(2) by auto
  then have "p \<notin> dom (fs_nodes st) \<union> dom (fs_bufs st) \<union> dom (fs_snaps st)" by blast
  moreover have "0 < unat sz" using assms(4) by (simp add: word_less_nat_alt)
  ultimately show thesis using that(2) ok by (auto simp: heap_top_def)
qed

text \<open>A new node store: what has to hold for the invariant to carry over.\<close>

lemma fs_ok_nodes:
  assumes "fs_ok K st" "tree_ok h' K'" "dom h' \<subseteq> dom (fs_nodes st) \<union> {a}" "unat a < heap_top st"
    and "data_ok h' (fs_bufs st)"
    and "\<And>p. dir_at (fs_nodes st) p \<Longrightarrow> dir_at h' p"
    and "\<And>p. root_at (fs_nodes st) p \<Longrightarrow> root_at h' p"
  shows "fs_ok K' (st\<lparr>fs_nodes := h'\<rparr>)"
proof -
  have "below_top (st\<lparr>fs_nodes := h'\<rparr>)"
    using fs_okD(3) [OF assms(1)] assms(3,4) by (fastforce simp: below_top_def heap_top_def)
  moreover have "snaps_ok h' ss" if "snaps_ok (fs_nodes st) ss" for ss
    using that assms(7) by (auto simp: snaps_ok_def)
  ultimately show ?thesis
    using assms(1,2,5,6,7) by (auto simp: fs_ok_def crypto_ready_def kmem_wf_def)
qed

subsection \<open>Resolution under the invariant\<close>

lemma fs_resolve_node:
  assumes "fs_ok K st" "cstring path" "path \<noteq> []"
  shows "fs_resolve st (Some path) False =
    Some (case fs_lookup st (path_base st path) (components path) of None \<Rightarrow> NULL | Some q \<Rightarrow> q, None)"
  using resolve_loop_lookup [OF fs_okD(4) [OF assms(1)] assms(2) path_base_node [OF assms(1), of path] refl,
      of NULL] assms(3)
  by (cases path) (auto simp: fs_resolve_def path_base_def)

definition create_target :: "'a fs_st_scheme \<Rightarrow> string \<Rightarrow> (ptr \<times> string) option" where
  "create_target st path =
     (if path = [] \<or> components path = [] then None
      else do {
        d \<leftarrow> fs_lookup st (path_base st path) (butlast (components path));
        n \<leftarrow> fs_nodes st d;
        if n_is_dir n \<and> fs_find_in_dir st d (last (components path)) = Some NULL
        then Some (d, last (components path)) else None
      })"

text \<open>
  The prologue that \<open>fs_mkdir\<close>, \<open>fs_touch\<close>, \<open>fs_write\<close>, \<open>fs_rename\<close> and \<open>fs_copy\<close> share:
  either one of its tests fails, or the target is a name that the directory does not have.
\<close>

lemma resolve_target:
  assumes ok: "fs_ok K st" and p: "cstring path" "path \<noteq> []"
  obtains (fail) par lst where "create_target st path = None"
      "fs_resolve st (Some path) True = Some (par, lst)"
      "par = NULL \<or> (\<exists>d. fs_nodes st par = Some d \<and> (\<not> n_is_dir d \<or> lst = Some []))"
  | (target) d dn c where "create_target st path = Some (d, c)"
      "fs_resolve st (Some path) True = Some (d, Some c)" "valid_name c"
      "fs_nodes st d = Some dn" "n_is_dir dn" "fs_find_in_dir st d c = Some NULL" "d \<noteq> NULL"
      "fs_lookup st (path_base st path) (butlast (components path)) = Some d"
      "components path \<noteq> []" "c = last (components path)"
proof (cases "components path = []")
  case True
  have "fs_resolve st (Some path) True = Some (path_base st path, Some [])"
    using resolve_loop_nil [OF True, of st True _ NULL] p(2)
    by (cases path) (auto simp: fs_resolve_def path_base_def)
  then show thesis using fail [of "path_base st path" "Some []"] True path_base_node [OF ok, of path]
    by (auto simp: create_target_def)
next
  case False
  define cs c where "cs = butlast (components path)" and "c = last (components path)"
  have split: "components path = cs @ [c]" using False by (simp add: cs_def c_def)
  have vc: "valid_name c" "list_all cstring cs"
    using components_valid [OF p(1)] split by (auto simp: valid_name_def list_all_iff)
  note t = fs_okD(4) [OF ok]
  have r: "fs_resolve st (Some path) True =
      Some (case fs_lookup st (path_base st path) cs of None \<Rightarrow> (NULL, None)
        | Some d \<Rightarrow> (d, Some (if fs_find_in_dir st d c = Some NULL then c else [])))"
    using resolve_loop_parent [OF t p(1) path_base_node [OF ok, of path] split, of NULL] p(2)
    by (cases path) (auto simp: fs_resolve_def path_base_def)
  show thesis
  proof (cases "fs_lookup st (path_base st path) cs")
    case None
    with r have "fs_resolve st (Some path) True = Some (NULL, None)" by simp
    then show thesis using fail [of NULL None] None by (simp add: create_target_def cs_def)
  next
    case (Some d)
    obtain dn where dn: "fs_nodes st d = Some dn"
      using fs_lookup_node [OF t path_base_node [OF ok] vc(2) Some] by auto
    show thesis
    proof (cases "n_is_dir dn \<and> fs_find_in_dir st d c = Some NULL")
      case True
      then have "create_target st path = Some (d, c)"
        using False p Some dn by (simp add: create_target_def cs_def c_def)
      moreover have "fs_resolve st (Some path) True = Some (d, Some c)" using r Some True by simp
      moreover have "d \<noteq> NULL" using dn tree_okD(1) [OF t] by auto
      ultimately show thesis using target [of d c dn] True dn vc(1) Some False
        by (simp add: cs_def c_def)
    next
      case F: False
      then have "create_target st path = None"
        using False p Some dn by (auto simp: create_target_def cs_def c_def)
      then show thesis using fail F r Some dn by (auto split: if_splits)
    qed
  qed
qed

subsection \<open>A new node in a directory\<close>

abbreviation new_node :: "string \<Rightarrow> bool \<Rightarrow> ptr \<Rightarrow> ptr \<Rightarrow> fs_node" where
  "new_node c isd par sib \<equiv> \<lparr>n_name = c, n_is_dir = isd, n_data = NULL, n_size = 0,
     n_parent = par, n_child = NULL, n_sibling = sib\<rparr>"

lemma small_fs_node [simp]: "small_size sizeof_fs_node" "0 < sizeof_fs_node"
  "unat sizeof_fs_node = 56" "small_size sizeof_snap" "0 < sizeof_snap" "unat sizeof_snap = 40"
  by (simp_all add: small_size_def sizeof_fs_node_def sizeof_snap_def)

lemma fs_new_node_cases:
  assumes inv: "fs_ok K st" and new: "fs_new_node c isd st = (n, st1)" and c: "cstring c"
  obtains (oom) "n = NULL" "st1 = console_write Kmalloc_c (''kmalloc: OUT OF MEMORY!'' @ [newline]) st"
      "0x100000 \<le> unat (heap_offset st) + 56"
  | (ok) "n \<noteq> NULL" "fs_nodes st n = None" "K n = []" "\<And>d. n \<notin> set (K d)"
      "fs_ok K st1" "heap_top st \<le> unat n"
      "unat (heap_offset st1) = unat (heap_offset st) + 56"
      "st1 = st\<lparr>heap_offset := heap_offset st + 56,
         fs_nodes := (fs_nodes st)(n \<mapsto> new_node (kstrncpy c MAX_NAME_LEN) isd NULL NULL)\<rparr>"
proof -
  obtain p st' where a: "kmalloc sizeof_fs_node st = (p, st')" by fastforce
  from a inv small_fs_node(1,2) show thesis
  proof (cases rule: fs_kmalloc)
    case oom
    then show thesis using that(1) new a by (simp add: fs_new_node_def)
  next
    case ok
    note t = fs_okD(4) [OF inv]
    let ?x = "new_node (kstrncpy c MAX_NAME_LEN) isd NULL NULL"
    let ?h = "(fs_nodes st)(p \<mapsto> ?x)"
    have nodes': "fs_nodes st' = fs_nodes st" "fs_bufs st' = fs_bufs st" using ok(2) by simp_all
    have st1: "n = p" "st1 = st'\<lparr>fs_nodes := ?h\<rparr>"
      using new a ok(1) nodes' by (auto simp: fs_new_node_def)
    have "tree_ok ?h K"
      using t ok(1,4) c by (intro tree_ok_new) (auto simp: MAX_NAME_LEN_def)
    moreover have "data_ok ?h (fs_bufs st')"
      using fs_okD(5) [OF inv] nodes' by (auto simp: data_ok_def)
    ultimately have "fs_ok K st1"
      unfolding st1(2) using ok(3,4,7) nodes'
      by (intro fs_ok_nodes [where a = p]) (auto simp: dir_at_def root_at_def)
    moreover have "st1 = st\<lparr>heap_offset := heap_offset st + 56, fs_nodes := (fs_nodes st)(n \<mapsto> ?x)\<rparr>"
      using st1 ok(2) by (simp add: sizeof_fs_node_def)
    moreover have "unat (heap_offset st1) = unat (heap_offset st) + 56"
      using ok(9) st1(2) by simp
    moreover have "n \<notin> set (K d)" for d using node_unlisted [OF t ok(4)] st1(1) by simp
    ultimately show thesis
      using ok(1,4,8) st1(1) tree_okD(2) [OF t ok(4)] by (intro that(2)) simp_all
  qed
qed

lemma link_child_eq:
  assumes "fs_nodes st n = Some x" "fs_nodes st d = Some dn" "n \<noteq> d"
  shows "link_child d n st = Some (st\<lparr>fs_nodes := (fs_nodes st)
    (n \<mapsto> x\<lparr>n_parent := d, n_sibling := n_child dn\<rparr>, d \<mapsto> dn\<lparr>n_child := n\<rparr>)\<rparr>)"
  using assms by (simp add: link_child_def upd_node_def)

lemma fs_create:
  assumes inv: "fs_ok K st" and d: "fs_nodes st d = Some dn" "n_is_dir dn"
    and c: "valid_name c" "fs_find_in_dir st d c = Some NULL"
    and new: "fs_new_node c isd st = (n, st1)"
  obtains (oom) "n = NULL" "st1 = console_write Kmalloc_c (''kmalloc: OUT OF MEMORY!'' @ [newline]) st"
      "0x100000 \<le> unat (heap_offset st) + 56"
  | (ok) st2 where "n \<noteq> NULL" "fs_nodes st n = None" "K n = []" "n \<noteq> d" "heap_top st \<le> unat n"
      "link_child d n st1 = Some st2" "fs_ok (K(d := n # K d)) st2"
      "unat (heap_offset st2) = unat (heap_offset st) + 56"
      "st2 = st\<lparr>heap_offset := heap_offset st + 56, fs_nodes := (fs_nodes st)
         (n \<mapsto> new_node c isd d (n_child dn), d \<mapsto> dn\<lparr>n_child := n\<rparr>)\<rparr>"
proof -
  have "cstring c" "kstrncpy c MAX_NAME_LEN = c"
    using c(1) by (auto simp: valid_name_def intro: kstrncpy_short)
  from inv new this(1) show thesis
  proof (cases rule: fs_new_node_cases)
    case oom
    then show thesis by (rule that(1))
  next
    case new: ok
    note t = fs_okD(4) [OF new(5)]
    let ?x = "new_node c isd NULL NULL"
    have ne: "n \<noteq> d" using new(2) d(1) by auto
    have n1: "fs_nodes st1 n = Some ?x" "fs_nodes st1 d = Some dn"
      using new(8) d(1) ne \<open>kstrncpy c MAX_NAME_LEN = c\<close> by auto
    let ?h = "(fs_nodes st1)(n \<mapsto> ?x\<lparr>n_parent := d, n_sibling := n_child dn\<rparr>, d \<mapsto> dn\<lparr>n_child := n\<rparr>)"
    have nocycle: "(n, d) \<notin> (edges K)\<^sup>*"
    proof
      assume "(n, d) \<in> (edges K)\<^sup>*"
      then show False using ne new(3) by (auto simp: edges_def elim: converse_rtranclE)
    qed
    have "kid (fs_nodes st) K d c = None"
      using fs_okD(4) [OF inv] d(1) \<open>cstring c\<close> by (cases rule: fs_find_in_dir_cases) (use c(2) in auto)
    moreover have "name_of (fs_nodes st1) b = name_of (fs_nodes st) b" if "b \<in> set (K d)" for b
      using new(4,8) that by (auto simp: name_of_def)
    ultimately have fresh: "c \<notin> name_of (fs_nodes st1) ` set (K d)" by (auto simp: kid_None)
    have tree: "tree_ok ?h (K(d := n # K d))"
      by (rule tree_ok_link [OF t new(4) n1(1) n1(2) d(2) ne nocycle _ _ refl]) (use c(1) fresh in auto)
    have "fs_ok (K(d := n # K d)) (st1\<lparr>fs_nodes := ?h\<rparr>)"
    proof (rule fs_ok_nodes [OF new(5) tree, where a = n])
      show "dom ?h \<subseteq> dom (fs_nodes st1) \<union> {n}" using n1 by auto
      show "unat n < heap_top st1" using fs_okD(3) [OF new(5)] n1(1) by (auto simp: below_top_def)
      show "data_ok ?h (fs_bufs st1)"
        using fs_okD(5) [OF new(5)] n1 by (auto simp: data_ok_def)
      show "dir_at ?h p" if "dir_at (fs_nodes st1) p" for p
        using that n1 ne by (auto simp: dir_at_def)
      have "\<not> root_at (fs_nodes st1) n" using n1 new(1) by (auto simp: root_at_def)
      then show "root_at ?h p" if "root_at (fs_nodes st1) p" for p
        using that n1 ne by (auto simp: root_at_def)
    qed
    moreover have "link_child d n st1 = Some (st1\<lparr>fs_nodes := ?h\<rparr>)" by (rule link_child_eq [OF n1 ne])
    ultimately show thesis
      using that(2) new ne \<open>kstrncpy c MAX_NAME_LEN = c\<close> by (simp add: fun_upd_twist)
  qed
qed

text \<open>What a successful creation leaves behind.\<close>

definition created :: "kids \<Rightarrow> 'a fs_st_scheme \<Rightarrow> ptr \<Rightarrow> string \<Rightarrow> bool \<Rightarrow> ptr \<Rightarrow>
    'a fs_st_scheme \<Rightarrow> bool" where
  "created K st d c isd n st2 \<longleftrightarrow>
     n \<noteq> NULL \<and> fs_nodes st n = None \<and> K n = [] \<and> n \<noteq> d \<and> heap_top st \<le> unat n \<and>
     valid_name c \<and> fs_find_in_dir st d c = Some NULL \<and>
     fs_ok K st \<and> fs_ok (K(d := n # K d)) st2 \<and>
     unat (heap_offset st2) = unat (heap_offset st) + 56 \<and>
     (\<exists>dn. fs_nodes st d = Some dn \<and> n_is_dir dn \<and>
       st2 = st\<lparr>heap_offset := heap_offset st + 56, fs_nodes := (fs_nodes st)
         (n \<mapsto> new_node c isd d (n_child dn), d \<mapsto> dn\<lparr>n_child := n\<rparr>)\<rparr>)"

lemma createdD:
  assumes "created K st d c isd n st2"
  shows "n \<noteq> NULL" "fs_nodes st n = None" "K n = []" "n \<noteq> d" "heap_top st \<le> unat n"
    "valid_name c" "fs_find_in_dir st d c = Some NULL" "fs_ok K st"
    "fs_ok (K(d := n # K d)) st2" "unat (heap_offset st2) = unat (heap_offset st) + 56"
    "fs_root st2 = fs_root st" "fs_cwd st2 = fs_cwd st" "g_key st2 = g_key st"
    "g_key_len st2 = g_key_len st" "snap_head st2 = snap_head st" "fs_snaps st2 = fs_snaps st"
    "fs_bufs st2 = fs_bufs st" "con_out st2 = con_out st"
    "fs_nodes st2 n = Some (new_node c isd d (n_child (the (fs_nodes st d))))"
    "fs_nodes st2 d = Some ((the (fs_nodes st d))\<lparr>n_child := n\<rparr>)"
    "p \<noteq> n \<Longrightarrow> p \<noteq> d \<Longrightarrow> fs_nodes st2 p = fs_nodes st p"
  using assms by (auto simp: created_def)

definition oom_msg :: "'a fs_st_scheme \<Rightarrow> 'a fs_st_scheme" where
  "oom_msg st = console_write Kmalloc_c (''kmalloc: OUT OF MEMORY!'' @ [newline]) st"

lemma oom_msg_simps [simp]:
  "fs_nodes (oom_msg st) = fs_nodes st" "fs_bufs (oom_msg st) = fs_bufs st"
  "fs_root (oom_msg st) = fs_root st" "fs_cwd (oom_msg st) = fs_cwd st"
  "fs_ok K (oom_msg st) = fs_ok K st" "heap_offset (oom_msg st) = heap_offset st"
  by (simp_all add: oom_msg_def)

definition room :: "'a fs_st_scheme \<Rightarrow> nat \<Rightarrow> bool" where
  "room st k \<longleftrightarrow> unat (heap_offset st) + k < 0x100000"

lemma fs_create_or_oom:
  assumes "fs_ok K st" "fs_nodes st d = Some dn" "n_is_dir dn" "valid_name c"
    "fs_find_in_dir st d c = Some NULL"
  obtains (oom) "fs_new_node c isd st = (NULL, oom_msg st)" "\<not> room st 56"
  | (ok) n st1 st2 where "fs_new_node c isd st = (n, st1)" "n \<noteq> NULL"
      "link_child d n st1 = Some st2" "created K st d c isd n st2"
proof -
  obtain n st1 where new: "fs_new_node c isd st = (n, st1)" by fastforce
  from assms new show thesis
    by (cases rule: fs_create) (use that assms new in \<open>auto simp: created_def oom_msg_def room_def\<close>)
qed

lemma fs_mkdir_cases:
  assumes inv: "fs_ok K st" and p: "cstring path"
  obtains (fail) st' where "fs_mkdir (Some path) st = Some (- 1, st')" "st' = st \<or> st' = oom_msg st"
      "path = [] \<or> MAX_PATH_LEN \<le> length path \<or> create_target st path = None \<or> \<not> room st 56"
  | (ok) d c n st' where "fs_mkdir (Some path) st = Some (0, st')" "create_target st path = Some (d, c)"
      "created K st d c True n st'"
      "fs_lookup st (path_base st path) (butlast (components path)) = Some d"
      "components path \<noteq> []" "c = last (components path)"
proof (cases "path = [] \<or> MAX_PATH_LEN \<le> length path")
  case True
  then show thesis using fail [of st] by (auto simp: fs_mkdir_def kstrlen_def)
next
  case False
  then have "path \<noteq> []" by simp
  with inv p show thesis
  proof (cases rule: resolve_target)
    case (fail par lst)
    then have "fs_mkdir (Some path) st = Some (- 1, st)"
      using False by (auto simp: fs_mkdir_def kstrlen_def)
    then show thesis using that(1) fail by blast
  next
    case (target d dn c)
    have c: "c \<noteq> []" using target(3) by (simp add: valid_name_def)
    from inv target(4,5,3,6) show thesis
    proof (cases rule: fs_create_or_oom [where isd = True])
      case oom
      then have "fs_mkdir (Some path) st = Some (- 1, oom_msg st)"
        using False target c by (simp add: fs_mkdir_def kstrlen_def)
      then show thesis using that(1) oom by blast
    next
      case (ok n st1 st2)
      then have "fs_mkdir (Some path) st = Some (0, st2)"
        using False target c by (simp add: fs_mkdir_def kstrlen_def)
      then show thesis using that(2) target ok by blast
    qed
  qed
qed

lemma fs_touch_cases:
  assumes inv: "fs_ok K st" and p: "cstring path"
  obtains (fail) st' where "fs_touch (Some path) st = Some (- 1, st')" "st' = st \<or> st' = oom_msg st"
      "path = [] \<or> MAX_PATH_LEN \<le> length path \<or> create_target st path = None \<or> \<not> room st 56"
  | (ok) d c n st' where "fs_touch (Some path) st = Some (0, st')" "create_target st path = Some (d, c)"
      "created K st d c False n st'"
      "fs_lookup st (path_base st path) (butlast (components path)) = Some d"
      "components path \<noteq> []" "c = last (components path)"
proof (cases "path = [] \<or> MAX_PATH_LEN \<le> length path")
  case True
  then show thesis using fail [of st] by (auto simp: fs_touch_def kstrlen_def)
next
  case False
  then have "path \<noteq> []" by simp
  with inv p show thesis
  proof (cases rule: resolve_target)
    case (fail par lst)
    then have "fs_touch (Some path) st = Some (- 1, st)"
      using False by (auto simp: fs_touch_def kstrlen_def)
    then show thesis using that(1) fail by blast
  next
    case (target d dn c)
    have c: "c \<noteq> []" using target(3) by (simp add: valid_name_def)
    from inv target(4,5,3,6) show thesis
    proof (cases rule: fs_create_or_oom [where isd = False])
      case oom
      then have "fs_touch (Some path) st = Some (- 1, oom_msg st)"
        using False target c by (simp add: fs_touch_def kstrlen_def)
      then show thesis using that(1) oom by blast
    next
      case (ok n st1 st2)
      then have "fs_touch (Some path) st = Some (0, st2)"
        using False target c by (simp add: fs_touch_def kstrlen_def)
      then show thesis using that(2) target ok by blast
    qed
  qed
qed

subsection \<open>Lookups after a creation\<close>

lemma created_find:
  assumes cr: "created K st d c isd n st2" and x: "fs_nodes st x = Some xn" "cstring y"
  shows "fs_find_in_dir st2 x y = (if x = d \<and> y = c then Some n else fs_find_in_dir st x y)"
proof -
  note C = createdD [OF cr]
  have xn: "x \<noteq> n" using x C(2) by auto
  have t: "tree_ok (fs_nodes st) K" "tree_ok (fs_nodes st2) (K(d := n # K d))"
    using C(8,9) by (auto dest: fs_okD)
  have nm: "name_of (fs_nodes st2) b = name_of (fs_nodes st) b" if "fs_nodes st b \<noteq> None" for b
    using cr that by (auto simp: created_def name_of_def)
  have "fs_nodes st b \<noteq> None" if "b \<in> set (K x)" for b using t(1) that by (rule kidD) simp
  then have eq: "find (\<lambda>b. name_of (fs_nodes st2) b = y) (K x) = find (\<lambda>b. name_of (fs_nodes st) b = y) (K x)"
    using nm by (intro find_cong) auto
  obtain xn' where x': "fs_nodes st2 x = Some xn'" using C(20) C(21) [OF xn] x(1) by (cases "x = d") auto
  have nn: "name_of (fs_nodes st2) n = c" using C(19) by simp
  have none: "kid (fs_nodes st) K d c = None"
  proof -
    obtain dn where dn: "fs_nodes st d = Some dn" using cr by (auto simp: created_def)
    have "cstring c" using C(6) by (simp add: valid_name_def)
    with t(1) dn show ?thesis by (cases rule: fs_find_in_dir_cases) (use C(7) in auto)
  qed
  show ?thesis
    unfolding fs_find_in_dir_kid [OF t(1) x] fs_find_in_dir_kid [OF t(2) x' x(2)]
    using nn none eq by (auto simp: kid_def)
qed

lemma created_find_new:
  assumes cr: "created K st d c isd n st2" and "cstring y"
  shows "fs_find_in_dir st2 n y = Some NULL"
  using fs_find_in_dir_kid [of st2 "K(d := n # K d)" n _ y] createdD(3,4,9,19) [OF cr] assms(2)
  by (auto simp: kid_def dest: fs_okD)

lemma created_lookup:
  assumes cr: "created K st d c isd n st2" and x: "fs_nodes st x \<noteq> None"
  shows "list_all cstring cs \<Longrightarrow> fs_lookup st2 x cs =
    (if cs \<noteq> [] \<and> fs_lookup st x (butlast cs) = Some d \<and> last cs = c then Some n
     else fs_lookup st x cs)"
proof (induction cs rule: rev_induct)
  case (snoc y ys)
  note C = createdD [OF cr]
  have t: "tree_ok (fs_nodes st) K" using C(8) by (rule fs_okD)
  have dn: "fs_nodes st d \<noteq> None" using cr by (auto simp: created_def)
  from snoc.prems have ys: "list_all cstring ys" "cstring y" by auto
  note IH = snoc.IH [OF ys(1)]
  show ?case
  proof (cases "ys \<noteq> [] \<and> fs_lookup st x (butlast ys) = Some d \<and> last ys = c")
    case True
    have "fs_lookup st x ys = fs_lookup st x (butlast ys @ [last ys])" using True by (metis append_butlast_last_id)
    also have "\<dots> = None" using True C(7) unfolding fs_lookup_append by simp
    finally have "fs_lookup st x ys = None" .
    then show ?thesis using True IH created_find_new [OF cr ys(2)] by (simp add: fs_lookup_append)
  next
    case False
    show ?thesis
    proof (cases "fs_lookup st x ys")
      case None
      then show ?thesis using IH False by (simp add: fs_lookup_append)
    next
      case (Some e)
      obtain en where "fs_nodes st e = Some en" using fs_lookup_node [OF t x ys(1) Some] by auto
      then show ?thesis
        using IH False Some created_find [OF cr _ ys(2), of e en] C(1)
        by (auto simp: fs_lookup_append split: option.split)
    qed
  qed
qed simp

lemma fs_find_shape:
  assumes "tree_ok (fs_nodes st) K"
    and sh: "\<And>p. map_option shape (fs_nodes st' p) = map_option shape (fs_nodes st p)"
    and d: "fs_nodes st d = Some n" "cstring y"
  shows "fs_find_in_dir st' d y = fs_find_in_dir st d y"
proof -
  have t': "tree_ok (fs_nodes st') K" using tree_ok_shape [OF sh assms(1)] .
  have "name_of (fs_nodes st') p = name_of (fs_nodes st) p" for p
    using sh [of p] by (cases "fs_nodes st p"; cases "fs_nodes st' p") (auto simp: name_of_def shape_def)
  moreover obtain n' where "fs_nodes st' d = Some n'" using sh [of d] d(1) by auto
  ultimately show ?thesis
    using fs_find_in_dir_kid [OF assms(1) d] fs_find_in_dir_kid [OF t' _ d(2)] by (simp add: kid_def)
qed

lemma fs_lookup_shape:
  assumes "tree_ok (fs_nodes st) K"
    and sh: "\<And>p. map_option shape (fs_nodes st' p) = map_option shape (fs_nodes st p)"
  shows "fs_nodes st d \<noteq> None \<Longrightarrow> list_all cstring cs \<Longrightarrow> fs_lookup st' d cs = fs_lookup st d cs"
proof (induction cs arbitrary: d)
  case (Cons y ys)
  then obtain n where n: "fs_nodes st d = Some n" "cstring y" by auto
  note eq = fs_find_shape [OF assms n]
  from assms(1) n show ?case by (cases rule: fs_find_in_dir_cases) (use eq Cons in auto)
qed simp

subsection \<open>Data\<close>

definition data_fits :: "string \<Rightarrow> bool" where
  "data_fits data \<longleftrightarrow> length data + 1 < 2 ^ 32 - 2 ^ 20"

text \<open>Storing a fresh buffer in a file keeps the invariant and every lookup.\<close>

lemma fs_ok_set_data:
  assumes inv: "fs_ok K st" and n: "fs_nodes st p = Some n"
    and b: "fs_bufs st buf = None" "unat buf < heap_top st"
    and s: "unat s < length bs" "unat s < 2 ^ 20"
    and st': "st' = st\<lparr>fs_bufs := (fs_bufs st)(buf \<mapsto> bs),
      fs_nodes := (fs_nodes st)(p \<mapsto> n\<lparr>n_data := buf, n_size := s\<rparr>)\<rparr>"
  shows "fs_ok K st'"
proof -
  let ?h = "(fs_nodes st)(p \<mapsto> n\<lparr>n_data := buf, n_size := s\<rparr>)"
  have t: "tree_ok ?h K"
    by (rule tree_ok_shape [OF _ fs_okD(4) [OF inv]]) (use n in auto)
  have "below_top (st\<lparr>fs_bufs := (fs_bufs st)(buf \<mapsto> bs)\<rparr>)"
    using fs_okD(3) [OF inv] b(2) by (auto simp: below_top_def heap_top_def)
  moreover have d: "data_ok (fs_nodes st) ((fs_bufs st)(buf \<mapsto> bs))"
    using fs_okD(5) [OF inv] b(1) by (fastforce simp: data_ok_def)
  ultimately have "fs_ok K (st\<lparr>fs_bufs := (fs_bufs st)(buf \<mapsto> bs)\<rparr>)"
    using inv by (auto simp: fs_ok_def crypto_ready_def kmem_wf_def)
  then have "fs_ok K (st\<lparr>fs_bufs := (fs_bufs st)(buf \<mapsto> bs)\<rparr>\<lparr>fs_nodes := ?h\<rparr>)"
  proof (rule fs_ok_nodes [OF _ t, where a = p])
    show "unat p < heap_top (st\<lparr>fs_bufs := (fs_bufs st)(buf \<mapsto> bs)\<rparr>)"
      using fs_okD(3) [OF inv] n by (auto simp: below_top_def heap_top_def)
    show "data_ok ?h (fs_bufs (st\<lparr>fs_bufs := (fs_bufs st)(buf \<mapsto> bs)\<rparr>))"
      using d s by (auto simp: data_ok_def)
  qed (use n in \<open>auto simp: dir_at_def root_at_def\<close>)
  then show ?thesis using st' by simp
qed

lemma crypto_heap [simp]:
  "crypto_encrypt (st\<lparr>heap_offset := x\<rparr>) = crypto_encrypt (st :: 'a crypto_st_scheme)"
  "crypto_decrypt (st\<lparr>heap_offset := x\<rparr>) = crypto_decrypt (st :: 'a crypto_st_scheme)"
  by (simp_all add: fun_eq_iff crypto_encrypt_def crypto_decrypt_def crypto_apply_def)

lemma small_data:
  assumes "data_fits data"
  shows "small_size (of_nat (length data + 1))" "0 < (of_nat (length data + 1) :: u32)"
    "unat (of_nat (length data + 1) :: u32) = length data + 1"
    "unat (of_nat (length data) :: u32) = length data"
proof -
  show u: "unat (of_nat (length data + 1) :: u32) = length data + 1"
    "unat (of_nat (length data) :: u32) = length data"
    using assms by (intro unat_of_nat32; simp add: data_fits_def)+
  show "small_size (of_nat (length data + 1))" using assms u(1) by (simp add: small_size_def data_fits_def)
  show "0 < (of_nat (length data + 1) :: u32)" using u(1) by (simp add: word_less_nat_alt)
qed

lemma store_data_cases:
  assumes inv: "fs_ok K st" and n: "fs_nodes st p = Some n" "\<not> n_is_dir n" and fits: "data_fits data"
  obtains (oom) "store_data p data st = Some (- 1, oom_msg st)" "\<not> room st (length data + 1)"
  | (ok) buf bs st' where "store_data p data st = Some (0, st')" "buf \<noteq> NULL" "fs_bufs st buf = None"
      "crypto_encrypt st (map of_char data) (length data) = Some bs" "length bs = length data"
      "st' = st\<lparr>heap_offset := heap_offset st + of_nat (length data + 1),
         fs_bufs := (fs_bufs st)(buf \<mapsto> bs @ [0]),
         fs_nodes := (fs_nodes st)(p \<mapsto> n\<lparr>n_data := buf, n_size := of_nat (length data)\<rparr>)\<rparr>"
      "unat (heap_offset st') = unat (heap_offset st) + length data + 1"
      "length data < 2 ^ 20" "fs_ok K st'"
proof -
  note sm = small_data [OF fits]
  obtain buf st1 where a: "kmalloc (of_nat (length data + 1)) st = (buf, st1)" by fastforce
  from a inv sm(1,2) show thesis
  proof (cases rule: fs_kmalloc)
    case oom
    have "\<not> room st (length data + 1)" using oom(4) sm(3) by (simp add: room_def)
    moreover have "store_data p data st = Some (- 1, oom_msg st)"
      using n a oom(1,2) by (simp add: store_data_def kstrlen_def oom_msg_def)
    ultimately show thesis by (intro that(1))
  next
    case ok
    have "crypto_ready st" using fs_okD(2) [OF inv] .
    then obtain bs where bs: "crypto_encrypt st (map of_char data) (length data) = Some bs"
      "length bs = length data"
      using xor_cipher.enc_total [of st "length data" "map of_char data"] by auto
    let ?st' = "st1\<lparr>fs_bufs := (fs_bufs st)(buf \<mapsto> bs @ [0]),
      fs_nodes := (fs_nodes st)(p \<mapsto> n\<lparr>n_data := buf, n_size := of_nat (length data)\<rparr>)\<rparr>"
    have off: "unat (heap_offset st1) = unat (heap_offset st) + length data + 1" using ok(9) sm(3) by simp
    have "unat (heap_offset st1) < 2 ^ 20"
      using fs_okD(1) [OF ok(3)] by (simp add: kmem_wf_def KHEAP_SIZE_def)
    with off have len: "length data < 2 ^ 20" by linarith
    have r: "store_data p data st = Some (0, ?st')"
      using n a ok(1,2) bs by (simp add: store_data_def kstrlen_def put_buf_def upd_node_def Let_def)
    have inv': "fs_ok K ?st'"
    proof (rule fs_ok_set_data [OF ok(3)])
      show "fs_nodes st1 p = Some n" "fs_bufs st1 buf = None" using ok(2,5) n(1) by simp_all
      show "unat buf < heap_top st1" by (rule ok(7))
      show "unat (of_nat (length data) :: u32) < length (bs @ [0])" "unat (of_nat (length data) :: u32) < 2 ^ 20"
        using sm(4) bs(2) len by simp_all
    qed (use ok(2) in simp)
    show thesis
      by (rule that(2) [OF r ok(1,5) bs _ _ len inv']) (use ok(2) off in simp_all)
  qed
qed

lemma copy_data_cases:
  assumes inv: "fs_ok K st" and s: "fs_nodes st src = Some s"
    and n: "fs_nodes st p = Some n" "src \<noteq> p"
  obtains (empty) "copy_data src p st = Some (0, st)" "n_data s = NULL \<or> n_size s = 0"
  | (oom) "copy_data src p st = Some (- 1, oom_msg st)" "\<not> room st (unat (n_size s) + 1)"
  | (ok) buf bs st' where "copy_data src p st = Some (0, st')" "buf \<noteq> NULL" "fs_bufs st buf = None"
      "n_data s \<noteq> NULL" "n_size s \<noteq> 0"
      "fs_bufs st (n_data s) = Some bs" "unat (n_size s) < length bs"
      "st' = st\<lparr>heap_offset := heap_offset st + (n_size s + 1),
         fs_bufs := (fs_bufs st)(buf \<mapsto> take (unat (n_size s)) bs @ [0]),
         fs_nodes := (fs_nodes st)(p \<mapsto> n\<lparr>n_data := buf, n_size := n_size s\<rparr>)\<rparr>"
      "fs_ok K st'"
proof (cases "n_data s = NULL \<or> n_size s = 0")
  case True
  then show thesis using s by (intro that(1)) (auto simp: copy_data_def)
next
  case False
  from fs_okD(5) [OF inv] s False obtain bs where bs: "fs_bufs st (n_data s) = Some bs"
    "unat (n_size s) < length bs" and sz: "unat (n_size s) < 2 ^ 20"
    by (auto simp: data_ok_def)
  have u: "unat (n_size s + 1) = unat (n_size s) + 1"
    using sz unat_add_no_wrap [of "n_size s" 1] by simp
  have sm: "small_size (n_size s + 1)" "0 < n_size s + 1"
    using sz u by (simp_all add: small_size_def word_less_nat_alt)
  have pos: "0 < n_size s" using False by (simp add: word_gt_0)
  obtain buf st1 where a: "kmalloc (n_size s + 1) st = (buf, st1)" by fastforce
  from a inv sm show thesis
  proof (cases rule: fs_kmalloc)
    case oom
    have "copy_data src p st = Some (- 1, oom_msg st)"
      using s a oom(1,2) False pos by (simp add: copy_data_def oom_msg_def)
    then show thesis using oom(4) u by (intro that(2)) (simp_all add: room_def)
  next
    case ok
    let ?bs = "take (unat (n_size s)) bs @ [0]"
    let ?st' = "st1\<lparr>fs_bufs := (fs_bufs st)(buf \<mapsto> ?bs),
      fs_nodes := (fs_nodes st)(p \<mapsto> n\<lparr>n_data := buf, n_size := n_size s\<rparr>)\<rparr>"
    have r: "copy_data src p st = Some (0, ?st')"
      using s n(1) a ok(1,2) bs False pos
      by (simp add: copy_data_def read_bytes_def put_buf_def upd_node_def)
    have inv': "fs_ok K ?st'"
    proof (rule fs_ok_set_data [OF ok(3)])
      show "fs_nodes st1 p = Some n" "fs_bufs st1 buf = None" using ok(2,5) n(1) by simp_all
      show "unat buf < heap_top st1" by (rule ok(7))
      show "unat (n_size s) < length ?bs" "unat (n_size s) < 2 ^ 20" using bs(2) sz by simp_all
    qed (use ok(2) in simp)
    show thesis
      by (rule that(3) [OF r ok(1,5) _ _ bs _ inv']) (use ok(2) False in simp_all)
  qed
qed

end
