(* ===== verification/Fs_Files.thy ===== *)
theory Fs_Files
  imports Fs_Ops
begin

text \<open>
  Files and directories: what \<open>fs_init\<close>, \<open>fs_mkdir\<close>, \<open>fs_touch\<close>, \<open>fs_write\<close>,
  \<open>fs_write_cwd\<close>, \<open>fs_copy\<close> and \<open>fs_read\<close> do, from any state that satisfies the invariant.
\<close>

subsection \<open>Reading and writing\<close>

lemma create_target_lookup:
  assumes "fs_ok K st" "create_target st path = Some (d, c)" "cstring path"
  shows "fs_lookup st (path_base st path) (components path) = None"
proof -
  have ne: "components path \<noteq> []" using assms(2) by (auto simp: create_target_def)
  have d: "fs_lookup st (path_base st path) (butlast (components path)) = Some d"
    "fs_find_in_dir st d c = Some NULL" "c = last (components path)"
    using assms(2) ne by (auto simp: create_target_def split: if_splits bind_splits)
  have "fs_lookup st (path_base st path) (butlast (components path) @ [last (components path)]) = None"
    using d by (simp only: fs_lookup_append) simp
  with ne show ?thesis by simp
qed

lemma fs_write_cases:
  assumes inv: "fs_ok K st" and p: "cstring path" and fits: "data_fits data"
  obtains (fail) st' where "fs_write (Some path) (Some data) st = Some (- 1, st')"
      "st' = st \<or> st' = oom_msg st"
      "path = [] \<or> MAX_PATH_LEN \<le> length path \<or> create_target st path = None \<or> \<not> room st 56"
  | (half) d c n st2 where "fs_write (Some path) (Some data) st = Some (- 1, oom_msg st2)"
      "created K st d c False n st2" "create_target st path = Some (d, c)"
      "\<not> room st (length data + 57)"
  | (ok) d c n st2 st' where "fs_write (Some path) (Some data) st = Some (0, st')"
      "create_target st path = Some (d, c)" "path \<noteq> []" "length path < MAX_PATH_LEN"
      "created K st d c False n st2" "store_data n data st2 = Some (0, st')"
      "fs_nodes st2 n = Some (new_node c False d (n_child (the (fs_nodes st d))))"
      "fs_lookup st (path_base st path) (butlast (components path)) = Some d"
      "components path \<noteq> []" "c = last (components path)"
proof (cases "path = []")
  case True
  then show thesis using that(1) [of st] by (auto simp: fs_write_def fs_resolve_def)
next
  case False
  from inv p False show thesis
  proof (cases rule: resolve_target)
    case (fail par lst)
    then show thesis using that(1) [of st] by (auto simp: fs_write_def)
  next
    case (target d dn c)
    have c: "c \<noteq> []" "cstring c" using target(3) by (auto simp: valid_name_def)
    from inv p show thesis
    proof (cases rule: fs_touch_cases)
      case (fail st')
      then have "fs_write (Some path) (Some data) st = Some (- 1, st')"
        using target c by (simp add: fs_write_def)
      then show thesis using fail by (intro that(1))
    next
      case (ok d' c' n st2)
      have same: "d' = d" "c' = c" using ok(2) target(1) by simp_all
      note cr = ok(3) [unfolded same]
      have "length path < MAX_PATH_LEN"
        using ok(1) by (auto simp: fs_touch_def kstrlen_def split: if_splits)
      note C = createdD [OF cr]
      have f: "fs_find_in_dir st2 d c = Some n"
        using created_find [OF cr target(4) c(2)] by simp
      have w: "fs_write (Some path) (Some data) st =
          do { (r, s) \<leftarrow> store_data n data st2; Some (r, s) }"
        using target c ok(1) f C(1) by (simp add: fs_write_def)
      have "\<not> n_is_dir (new_node c False d (n_child (the (fs_nodes st d))))" by simp
      with C(9,19) show thesis
        using fits
      proof (cases rule: store_data_cases)
        case oom
        then have "\<not> room st (length data + 57)" using C(10) by (simp add: room_def)
        then show thesis using that(2) w oom(1) cr target(1) by simp
      next
        case (ok buf bs st')
        show thesis
          by (rule that(3) [OF _ target(1) False _ cr ok(1) C(19)])
            (use w ok(1) target \<open>length path < MAX_PATH_LEN\<close> in simp_all)
      qed
    qed
  qed
qed

lemma fs_read_cases:
  assumes inv: "fs_ok K st" and p: "cstring path" "path \<noteq> []"
    and n: "fs_lookup st (path_base st path) (components path) = Some q" "fs_nodes st q = Some n"
    and f: "\<not> n_is_dir n" "n_data n \<noteq> NULL" "n_size n \<noteq> 0"
    and b: "fs_bufs st (n_data n) = Some bs"
    and dec: "crypto_decrypt st (take (unat (n_size n)) bs) (unat (n_size n)) = Some out"
  obtains (oom) "fs_read (Some path) st = Some (NULL, oom_msg st)" "\<not> room st (unat (n_size n) + 1)"
  | (ok) buf st' where "fs_read (Some path) st = Some (buf, st')" "buf \<noteq> NULL"
      "st' = st\<lparr>heap_offset := heap_offset st + (n_size n + 1),
         fs_bufs := (fs_bufs st)(buf \<mapsto> out @ [0])\<rparr>"
      "fs_bufs st buf = None" "fs_ok K st'"
proof -
  have q: "q \<noteq> NULL" using n(2) tree_okD(1) [OF fs_okD(4) [OF inv]] by auto
  have res: "fs_resolve st (Some path) False = Some (q, None)"
    using fs_resolve_node [OF inv p] n(1) by simp
  from fs_okD(5) [OF inv] n(2) f(2) b have sz: "unat (n_size n) < 2 ^ 20" "unat (n_size n) < length bs"
    by (fastforce simp: data_ok_def)+
  have u: "unat (n_size n + 1) = unat (n_size n) + 1"
    using sz unat_add_no_wrap [of "n_size n" 1] by simp
  have sm: "small_size (n_size n + 1)" "0 < n_size n + 1"
    using sz u by (simp_all add: small_size_def word_less_nat_alt)
  obtain buf st1 where a: "kmalloc (n_size n + 1) st = (buf, st1)" by fastforce
  from a inv sm show thesis
  proof (cases rule: fs_kmalloc)
    case oom
    have "fs_read (Some path) st = Some (NULL, oom_msg st)"
      using res q n(2) f a oom(1,2) by (simp add: fs_read_def oom_msg_def)
    then show thesis using oom(4) u by (intro that(1)) (simp_all add: room_def)
  next
    case ok
    let ?st' = "st1\<lparr>fs_bufs := (fs_bufs st)(buf \<mapsto> out @ [0])\<rparr>"
    have r: "fs_read (Some path) st = Some (buf, ?st')"
      using res q n(2) f a ok(1,2) b sz dec by (simp add: fs_read_def read_bytes_def put_buf_def)
    have "data_ok (fs_nodes st) ((fs_bufs st)(buf \<mapsto> out @ [0]))"
      using fs_okD(5) [OF inv] ok(5) by (fastforce simp: data_ok_def)
    then have inv': "fs_ok K ?st'"
      using ok(2,3,7) by (auto simp: fs_ok_def crypto_ready_def kmem_wf_def below_top_def heap_top_def)
    show thesis
      by (rule that(2) [OF r ok(1) _ ok(5) inv']) (use ok(2) in simp)
  qed
qed

text \<open>
  The file just stored is read back: the node holds the encrypted bytes, and the lookup
  that found the place of the new node finds the node.
\<close>

lemma stored_read:
  assumes inv: "fs_ok K st" and n: "fs_nodes st q = Some n" "\<not> n_is_dir n" and fits: "data_fits data"
    and st: "store_data q data st = Some (0, st')"
  shows "fs_ok K st'"
    "\<And>d cs. fs_nodes st d \<noteq> None \<Longrightarrow> list_all cstring cs \<Longrightarrow> fs_lookup st' d cs = fs_lookup st d cs"
    "path_base st' path = path_base st path"
    "\<exists>n' bs. fs_nodes st' q = Some n' \<and> \<not> n_is_dir n' \<and> n_data n' \<noteq> NULL \<and>
       unat (n_size n') = length data \<and> fs_bufs st' (n_data n') = Some (bs @ [0]) \<and>
       length bs = length data \<and>
       crypto_decrypt st' bs (length data) = Some (map of_char data)"
    "unat (heap_offset st') = unat (heap_offset st) + length data + 1"
proof -
  from inv n fits have "fs_ok K st' \<and>
    (\<forall>d cs. fs_nodes st d \<noteq> None \<longrightarrow> list_all cstring cs \<longrightarrow> fs_lookup st' d cs = fs_lookup st d cs) \<and>
    path_base st' path = path_base st path \<and>
    (\<exists>n' bs. fs_nodes st' q = Some n' \<and> \<not> n_is_dir n' \<and> n_data n' \<noteq> NULL \<and>
       unat (n_size n') = length data \<and> fs_bufs st' (n_data n') = Some (bs @ [0]) \<and>
       length bs = length data \<and>
       crypto_decrypt st' bs (length data) = Some (map of_char data)) \<and>
    unat (heap_offset st') = unat (heap_offset st) + length data + 1"
  proof (cases rule: store_data_cases)
    case oom
    then show ?thesis using st by simp
  next
    case (ok buf bs st'')
    have eq: "st'' = st'" using st ok(1) by simp
    have lk: "fs_lookup st' d cs = fs_lookup st d cs"
      if "fs_nodes st d \<noteq> None" "list_all cstring cs" for d cs
      by (rule fs_lookup_shape [OF fs_okD(4) [OF inv] _ that])
        (use n(1) ok(6) eq in \<open>auto simp: shape_def\<close>)
    have "crypto_decrypt st bs (length data) = Some (map of_char data)"
      using xor_cipher.dec_enc [OF ok(4)] by simp
    moreover have "g_key st' = g_key st" "g_key_len st' = g_key_len st" using eq ok(6) by auto
    then have "crypto_decrypt st' = crypto_decrypt st"
      by (simp add: fun_eq_iff crypto_decrypt_def crypto_apply_def)
    ultimately have dec: "crypto_decrypt st' bs (length data) = Some (map of_char data)" by simp
    have node: "fs_nodes st' q = Some (n\<lparr>n_data := buf, n_size := of_nat (length data)\<rparr>)"
      "fs_bufs st' buf = Some (bs @ [0])" "path_base st' path = path_base st path"
      using eq ok(6) by (auto simp: path_base_def)
    show ?thesis
      using lk dec node ok(2,5,7,9) eq n(2) small_data(4) [OF fits] by auto
  qed
  then show "fs_ok K st'"
    "\<And>d cs. fs_nodes st d \<noteq> None \<Longrightarrow> list_all cstring cs \<Longrightarrow> fs_lookup st' d cs = fs_lookup st d cs"
    "path_base st' path = path_base st path"
    "\<exists>n' bs. fs_nodes st' q = Some n' \<and> \<not> n_is_dir n' \<and> n_data n' \<noteq> NULL \<and>
       unat (n_size n') = length data \<and> fs_bufs st' (n_data n') = Some (bs @ [0]) \<and>
       length bs = length data \<and>
       crypto_decrypt st' bs (length data) = Some (map of_char data)"
    "unat (heap_offset st') = unat (heap_offset st) + length data + 1"
    by blast+
qed

subsection \<open>Initialisation\<close>

lemma fs_init_ok:
  assumes st: "kmem_wf st" "crypto_ready st" "room st 56"
    and e: "fs_nodes st = Map.empty" "fs_bufs st = Map.empty" "fs_snaps st = Map.empty" "snap_head st = NULL"
  shows "\<exists>r st'. fs_init st = Some st' \<and> fs_ok (\<lambda>_. []) st' \<and> fs_root st' = r \<and> fs_cwd st' = r \<and>
    fs_nodes st' = [r \<mapsto> new_node [slash] True r NULL] \<and> r \<noteq> NULL \<and>
    fs_bufs st' = Map.empty \<and> fs_snaps st' = Map.empty \<and> snap_head st' = NULL \<and>
    heap_offset st' = heap_offset st + 56 \<and> unat (heap_offset st') = unat (heap_offset st) + 56 \<and>
    con_out st' = con_out st @ [(Fs_c, Con_write (''RAM filesystem with directories initialized.'' @ [newline]))]"
proof -
  obtain r st1 where a: "kmalloc sizeof_fs_node st = (r, st1)" by fastforce
  from a st(1) small_fs_node(1) show ?thesis
  proof (cases rule: kmalloc_cases)
    case oom
    then have "0x100000 \<le> unat (heap_offset st) + unat sizeof_fs_node"
      using kmalloc_null a st(1) small_fs_node(1) by blast
    then show ?thesis using st(3) by (simp add: room_def)
  next
    case ok
    let ?h = "[r \<mapsto> new_node [slash] True r NULL]"
    define st' where "st' = console_write Fs_c (''RAM filesystem with directories initialized.'' @ [newline])
      (st1\<lparr>fs_root := r, fs_nodes := ?h, fs_cwd := r\<rparr>)"
    have st1: "st1 = st\<lparr>heap_offset := heap_offset st + 56\<rparr>" using ok(4) by (simp add: sizeof_fs_node_def)
    have k: "kstrncpy [slash] MAX_NAME_LEN = [slash]" by (simp add: kstrncpy_def MAX_NAME_LEN_def)
    have run: "fs_init st = Some st'"
      using a ok(1) st1 e by (simp add: fs_init_def fs_new_node_def upd_node_def k st'_def)
    have tree: "tree_ok ?h (\<lambda>_. [])"
      using ok(1) by (auto simp: tree_ok_def node_ok_def MAX_NAME_LEN_def edges_def acyclic_def)
    have below: "unat r < heap_top st1" using ok(2,3) by simp
    have "fs_ok (\<lambda>_. []) st'"
      unfolding st'_def fs_ok_con_call using st(2) e st1 tree below ok(5)
      by (auto simp: fs_ok_def kmem_wf_def crypto_ready_def below_top_def heap_top_def data_ok_def
          root_at_def dir_at_def snaps_ok_def intro!: exI [of _ "[] :: snap list"])
    moreover have "unat (heap_offset st1) = unat (heap_offset st) + 56"
      using ok(3) by (simp add: heap_top_def)
    moreover have "heap_offset (con_call f c s) = heap_offset s" for f c and s :: "'a fs_st_scheme"
      by simp
    ultimately show ?thesis
      using run st1 e ok(1) by (auto simp: st'_def)
  qed
qed

text \<open>
  A concrete boot state: an empty heap and the key that \<open>fs_bootstrap\<close> sets, and the state
  after \<open>fs_init\<close>.
\<close>

definition fs_st0 :: fs_st where
  "fs_st0 = crypto_st.extend (crypto_set_key ''hypnos-default-key'' crypto_st0)
     \<lparr>fs_nodes = Map.empty, fs_bufs = Map.empty, fs_snaps = Map.empty,
      fs_root = NULL, fs_cwd = NULL, snap_head = NULL\<rparr>"

definition fs_st1 :: fs_st where
  "fs_st1 = the (fs_init fs_st0)"

lemma crypto_set_key_frame [simp]:
  "heap_offset (crypto_set_key k st) = heap_offset st"
  "con_out (crypto_set_key k st) = con_out st"
  by (auto simp: crypto_set_key_def split: prod.splits)

lemma fs_st0_ok: "kmem_wf fs_st0" "crypto_ready fs_st0" "heap_offset fs_st0 = 0"
  "fs_nodes fs_st0 = Map.empty" "fs_bufs fs_st0 = Map.empty" "fs_snaps fs_st0 = Map.empty"
  "snap_head fs_st0 = NULL"
proof -
  have l: "length (g_key crypto_st0) = 32" by (simp add: crypto_st0_def kmem_st.defs)
  show h: "heap_offset fs_st0 = 0"
    by (simp add: fs_st0_def crypto_st.defs crypto_st0_def kmem_st.defs kmem_st0_def page_st.defs)
  then show "kmem_wf fs_st0" by (simp add: kmem_wf_def KHEAP_SIZE_def)
  show "crypto_ready fs_st0"
    using crypto_ready_set_key [OF l, of "''hypnos-default-key''"]
    by (simp add: fs_st0_def crypto_st.defs crypto_ready_def)
qed (simp_all add: fs_st0_def crypto_st.defs)

lemma fs_st1_ok:
  "fs_ok (\<lambda>_. []) fs_st1" "fs_cwd fs_st1 = fs_root fs_st1" "fs_root fs_st1 \<noteq> NULL"
  "fs_nodes fs_st1 = [fs_root fs_st1 \<mapsto> new_node [slash] True (fs_root fs_st1) NULL]"
  "unat (heap_offset fs_st1) = 56" "snap_head fs_st1 = NULL" "fs_init fs_st0 = Some fs_st1"
  "fs_snaps fs_st1 = Map.empty"
proof -
  have "room fs_st0 56" by (simp add: room_def fs_st0_ok)
  from fs_init_ok [OF fs_st0_ok(1,2) this fs_st0_ok(4-7)] obtain r st' where st':
    "fs_init fs_st0 = Some st'" "fs_ok (\<lambda>_. []) st'" "fs_root st' = r" "fs_cwd st' = r"
    "fs_nodes st' = [r \<mapsto> new_node [slash] True r NULL]" "r \<noteq> NULL"
    "snap_head st' = NULL" "unat (heap_offset st') = 56" "fs_snaps st' = Map.empty"
    by (auto simp: fs_st0_ok)
  then have "fs_st1 = st'" by (simp add: fs_st1_def)
  with st' show "fs_ok (\<lambda>_. []) fs_st1" "fs_cwd fs_st1 = fs_root fs_st1" "fs_root fs_st1 \<noteq> NULL"
    "fs_nodes fs_st1 = [fs_root fs_st1 \<mapsto> new_node [slash] True (fs_root fs_st1) NULL]"
    "unat (heap_offset fs_st1) = 56" "snap_head fs_st1 = NULL" "fs_init fs_st0 = Some fs_st1"
    "fs_snaps fs_st1 = Map.empty"
    by simp_all
qed

lemma components_one: "valid_name c \<Longrightarrow> components c = [c]"
  using components_name [of c "[]"] by simp

lemma fs_st1_find: "fs_find_in_dir fs_st1 (fs_root fs_st1) c = Some NULL"
  by (simp add: fs_find_in_dir_def fs_st1_ok find_loop.simps)

lemma fs_st1_target:
  "valid_name c \<Longrightarrow> create_target fs_st1 (slash # c) = Some (fs_root fs_st1, c)"
  using fs_st1_find [of c] fs_st1_ok(4)
  by (simp add: create_target_def components_one path_base_def)

subsection \<open>Properties\<close>

text \<open>
  with an empty heap and a key, \<open>fs_init\<close> establishes the invariant of the file system:
  a root directory that is its own parent, is the working directory and has no entry.
\<close>

theorem fs_init_establishes:
  assumes "kmem_wf st" "crypto_ready st" "room st 56"
    and "fs_nodes st = Map.empty" "fs_bufs st = Map.empty" "fs_snaps st = Map.empty" "snap_head st = NULL"
  shows "\<exists>st'. fs_init st = Some st' \<and> fs_inv st' \<and> fs_cwd st' = fs_root st' \<and>
    root_at (fs_nodes st') (fs_root st') \<and>
    (\<forall>name. fs_find_in_dir st' (fs_root st') name = Some NULL)"
proof -
  obtain r st' where st': "fs_init st = Some st'" "fs_ok (\<lambda>_. []) st'" "fs_root st' = r" "fs_cwd st' = r"
    "fs_nodes st' = [r \<mapsto> new_node [slash] True r NULL]" "r \<noteq> NULL"
    using fs_init_ok [OF assms] by auto
  have "fs_find_in_dir st' r name = Some NULL" for name
    using st' by (simp add: fs_find_in_dir_def find_loop.simps)
  then show ?thesis
    using st' fs_okD(6) [OF st'(2)] by (auto simp: fs_inv_def)
qed

theorem fs_init_establishes_witness:
  "kmem_wf fs_st0 \<and> crypto_ready fs_st0 \<and> room fs_st0 56 \<and>
   (\<exists>st'. fs_init fs_st0 = Some st' \<and> fs_inv st')"
  using fs_init_establishes [of fs_st0] fs_st0_ok by (auto simp: room_def)

text \<open>
  C2: \<open>fs_mkdir\<close> always returns and keeps the invariant. It returns 0 exactly when the path
  is neither empty nor 128 characters or longer, its parent resolves to a directory that has
  no entry of the last name, and the heap has room for a node; then the only change a lookup
  can see is the new empty directory. Otherwise it returns -1 and no node changes.
\<close>

theorem fs_mkdir_spec:
  assumes "fs_inv st" "cstring path"
  shows "\<exists>r st'. fs_mkdir (Some path) st = Some (r, st') \<and> fs_inv st' \<and>
    (r = 0 \<longleftrightarrow> path \<noteq> [] \<and> length path < 128 \<and> create_target st path \<noteq> None \<and> room st 56) \<and>
    (r \<noteq> 0 \<longrightarrow> r = - 1 \<and> fs_nodes st' = fs_nodes st) \<and>
    (r = 0 \<longrightarrow> (\<exists>d c n. create_target st path = Some (d, c) \<and> n \<noteq> NULL \<and> fs_nodes st n = None \<and>
       dir_at (fs_nodes st') n \<and> fs_find_in_dir st' d c = Some n \<and>
       (\<forall>x cs. fs_nodes st x \<noteq> None \<longrightarrow> list_all cstring cs \<longrightarrow> fs_lookup st' x cs =
         (if cs \<noteq> [] \<and> fs_lookup st x (butlast cs) = Some d \<and> last cs = c then Some n
          else fs_lookup st x cs))))"
proof -
  from assms(1) obtain K where inv: "fs_ok K st" by (auto simp: fs_inv_def)
  from inv assms(2) show ?thesis
  proof (cases rule: fs_mkdir_cases)
    case (fail st')
    then show ?thesis using inv by (auto simp: fs_inv_def MAX_PATH_LEN_def)
  next
    case (ok d c n st')
    note C = createdD [OF ok(3)]
    have "length path < 128" "path \<noteq> []"
      using ok(1) by (auto simp: fs_mkdir_def kstrlen_def MAX_PATH_LEN_def split: if_splits)
    moreover have "unat (heap_offset st') < 0x100000"
      using fs_okD(1) [OF C(9)] by (simp add: kmem_wf_def KHEAP_SIZE_def)
    then have "room st 56" using C(10) by (simp add: room_def)
    moreover have "fs_find_in_dir st' d c = Some n"
      using created_find [OF ok(3)] ok(3) C(6) by (auto simp: created_def valid_name_def)
    moreover have "dir_at (fs_nodes st') n" using C(19) by (simp add: dir_at_def)
    ultimately show ?thesis
      using ok(1,2) C(1,2,9) created_lookup [OF ok(3)] by (auto simp: fs_inv_def)
  qed
qed

theorem fs_mkdir_spec_witness:
  "fs_inv fs_st1 \<and> (\<exists>st' n. fs_mkdir (Some ''/bin'') fs_st1 = Some (0, st') \<and> fs_inv st' \<and>
     fs_lookup st' (fs_root fs_st1) [''bin''] = Some n \<and> dir_at (fs_nodes st') n)"
proof -
  have inv: "fs_inv fs_st1" using fs_st1_ok(1) by (auto simp: fs_inv_def)
  have t: "create_target fs_st1 ''/bin'' = Some (fs_root fs_st1, ''bin'')"
    using fs_st1_target [of "''bin''"] by (simp add: valid_name_def MAX_NAME_LEN_def)
  show ?thesis
    using inv fs_mkdir_spec [OF inv, of "''/bin''"] t fs_st1_ok(3,4,5) by (auto simp: room_def)
qed

text \<open>
  \<open>fs_touch\<close> has the same contract for files, and the new file is empty. In
  particular it fails on a file that exists.
\<close>

theorem fs_touch_spec:
  assumes "fs_inv st" "cstring path"
  shows "\<exists>r st'. fs_touch (Some path) st = Some (r, st') \<and> fs_inv st' \<and>
    (r = 0 \<longleftrightarrow> path \<noteq> [] \<and> length path < 128 \<and> create_target st path \<noteq> None \<and> room st 56) \<and>
    (r \<noteq> 0 \<longrightarrow> r = - 1 \<and> fs_nodes st' = fs_nodes st) \<and>
    (r = 0 \<longrightarrow> (\<exists>d c n f. create_target st path = Some (d, c) \<and> n \<noteq> NULL \<and> fs_nodes st n = None \<and>
       fs_nodes st' n = Some f \<and> \<not> n_is_dir f \<and> n_size f = 0 \<and> fs_find_in_dir st' d c = Some n \<and>
       (\<forall>x cs. fs_nodes st x \<noteq> None \<longrightarrow> list_all cstring cs \<longrightarrow> fs_lookup st' x cs =
         (if cs \<noteq> [] \<and> fs_lookup st x (butlast cs) = Some d \<and> last cs = c then Some n
          else fs_lookup st x cs))))"
proof -
  from assms(1) obtain K where inv: "fs_ok K st" by (auto simp: fs_inv_def)
  from inv assms(2) show ?thesis
  proof (cases rule: fs_touch_cases)
    case (fail st')
    then show ?thesis using inv by (auto simp: fs_inv_def MAX_PATH_LEN_def)
  next
    case (ok d c n st')
    note C = createdD [OF ok(3)]
    have "length path < 128" "path \<noteq> []"
      using ok(1) by (auto simp: fs_touch_def kstrlen_def MAX_PATH_LEN_def split: if_splits)
    moreover have "unat (heap_offset st') < 0x100000"
      using fs_okD(1) [OF C(9)] by (simp add: kmem_wf_def KHEAP_SIZE_def)
    then have "room st 56" using C(10) by (simp add: room_def)
    moreover have "fs_find_in_dir st' d c = Some n"
      using created_find [OF ok(3)] ok(3) C(6) by (auto simp: created_def valid_name_def)
    ultimately show ?thesis
      using ok(1,2) C(1,2,9,19) created_lookup [OF ok(3)] by (auto simp: fs_inv_def)
  qed
qed

theorem fs_touch_spec_witness:
  "fs_inv fs_st1 \<and> (\<exists>st' n. fs_touch (Some ''notes'') fs_st1 = Some (0, st') \<and> fs_inv st' \<and>
     fs_lookup st' (fs_root fs_st1) [''notes''] = Some n)"
proof -
  have inv: "fs_inv fs_st1" using fs_st1_ok(1) by (auto simp: fs_inv_def)
  have v: "valid_name ''notes''" by (simp add: valid_name_def MAX_NAME_LEN_def)
  have t: "create_target fs_st1 ''notes'' = Some (fs_root fs_st1, ''notes'')"
    using fs_st1_find [of "''notes''"] fs_st1_ok(2,4) components_one [OF v]
    by (simp add: create_target_def path_base_def)
  show ?thesis
    using inv fs_touch_spec [OF inv, of "''notes''"] t fs_st1_ok(3,4,5) by (auto simp: room_def)
qed

text \<open>
  C1: what is written to a new path is read back. The path has less than 128 characters and
  the data at least one (of an empty file \<open>fs_read\<close> returns the null pointer): \<open>fs_write\<close> returns
  0 when the heap has room, and \<open>fs_read\<close> of the same path then returns a fresh buffer that holds
  the data, decrypted, with a terminator.
\<close>

theorem fs_write_read:
  assumes "fs_inv st" "cstring path" "path \<noteq> []" "length path < 128"
    and "create_target st path \<noteq> None" "data \<noteq> []" "data_fits data" "room st (2 * length data + 58)"
  shows "\<exists>st1 buf st2. fs_write (Some path) (Some data) st = Some (0, st1) \<and> fs_inv st1 \<and>
    fs_read (Some path) st1 = Some (buf, st2) \<and> fs_inv st2 \<and> buf \<noteq> NULL \<and>
    fs_bufs st1 buf = None \<and> fs_bufs st2 buf = Some (map of_char data @ [0])"
proof -
  from assms(1) obtain K where inv: "fs_ok K st" by (auto simp: fs_inv_def)
  from inv assms(2,7) show ?thesis
  proof (cases rule: fs_write_cases)
    case (fail st')
    then show ?thesis using assms(3,4,5,8) by (auto simp: MAX_PATH_LEN_def room_def)
  next
    case (half d c n st2)
    then show ?thesis using assms(8) by (auto simp: room_def)
  next
    case (ok d c n st2 st')
    note C = createdD [OF ok(5)]
    have "\<not> n_is_dir (new_node c False d (n_child (the (fs_nodes st d))))" by simp
    note R = stored_read [OF C(9) C(19) this assms(7) ok(6)]
    from R(4) obtain f bs where f: "fs_nodes st' n = Some f" "\<not> n_is_dir f" "n_data f \<noteq> NULL"
      "unat (n_size f) = length data" "fs_bufs st' (n_data f) = Some (bs @ [0])"
      "length bs = length data" "crypto_decrypt st' bs (length data) = Some (map of_char data)"
      by blast
    have cs: "list_all cstring (components path)"
      using components_valid [OF assms(2)] by (auto simp: list_all_iff valid_name_def)
    have base: "path_base st' path = path_base st path" "fs_nodes st (path_base st path) \<noteq> None"
      "fs_nodes st2 (path_base st path) \<noteq> None"
      using R(3) [of path] C(11,12) path_base_node [OF inv, of path] path_base_node [OF C(9), of path]
      by (auto simp: path_base_def)
    have "fs_lookup st' (path_base st' path) (components path) = fs_lookup st2 (path_base st path) (components path)"
      using R(2) [OF base(3) cs] base(1) by simp
    also have "\<dots> = Some n"
      using created_lookup [OF ok(5) base(2) cs] ok(8,9,10) by simp
    finally have lk: "fs_lookup st' (path_base st' path) (components path) = Some n" .
    have sz: "n_size f \<noteq> 0" using f(4) assms(6) by auto
    have dec: "crypto_decrypt st' (take (unat (n_size f)) (bs @ [0])) (unat (n_size f)) = Some (map of_char data)"
      using f(4,6,7) by simp
    have rm: "room st' (unat (n_size f) + 1)"
      using assms(8) R(5) C(10) f(4) by (simp add: room_def)
    from R(1) assms(2,3) lk f(1,2,3) sz f(5) dec show ?thesis
    proof (cases rule: fs_read_cases)
      case oom
      then show ?thesis using rm by simp
    next
      case rd: (ok buf st3)
      then show ?thesis using ok(1) R(1) by (auto simp: fs_inv_def)
    qed
  qed
qed

theorem fs_write_read_witness:
  "fs_inv fs_st1 \<and> (\<exists>st1 buf st2. fs_write (Some ''/motd'') (Some ''hello'') fs_st1 = Some (0, st1) \<and>
     fs_read (Some ''/motd'') st1 = Some (buf, st2) \<and>
     fs_bufs st2 buf = Some [0x68, 0x65, 0x6C, 0x6C, 0x6F, 0])"
proof -
  have inv: "fs_inv fs_st1" using fs_st1_ok(1) by (auto simp: fs_inv_def)
  have t: "create_target fs_st1 ''/motd'' = Some (fs_root fs_st1, ''motd'')"
    using fs_st1_target [of "''motd''"] by (simp add: valid_name_def MAX_NAME_LEN_def)
  show ?thesis
    using inv fs_write_read [OF inv, of "''/motd''" "''hello''"] t fs_st1_ok(5)
    by (auto simp: room_def data_fits_def of_char_def)
qed

text \<open>
  C13: \<open>fs_write\<close> and \<open>fs_touch\<close> fail on every path that exists, because \<open>fs_resolve\<close> hands
  out an empty last name when the whole path resolves; their branches for an existing node
  are never reached, and a file can only be written through its path when it is created.
\<close>

theorem fs_write_existing_fails:
  assumes "fs_inv st" "cstring path" "fs_lookup st (path_base st path) (components path) = Some p"
  shows "fs_write (Some path) (Some data) st = Some (- 1, st) \<and> fs_touch (Some path) st = Some (- 1, st)"
proof -
  from assms(1) obtain K where inv: "fs_ok K st" by (auto simp: fs_inv_def)
  show ?thesis
  proof (cases "path = []")
    case True
    then show ?thesis by (auto simp: fs_write_def fs_touch_def fs_resolve_def)
  next
    case False
    from inv assms(2) False show ?thesis
    proof (cases rule: resolve_target)
      case (fail par lst)
      then show ?thesis using False by (auto simp: fs_write_def fs_touch_def)
    next
      case (target d dn c)
      then show ?thesis using create_target_lookup [OF inv target(1) assms(2)] assms(3) by simp
    qed
  qed
qed

theorem fs_write_existing_fails_witness:
  "\<exists>st1. fs_touch (Some ''/motd'') fs_st1 = Some (0, st1) \<and>
     fs_write (Some ''/motd'') (Some ''hello'') st1 = Some (- 1, st1) \<and>
     fs_touch (Some ''/motd'') st1 = Some (- 1, st1)"
proof -
  have v: "valid_name ''motd''" by (simp add: valid_name_def MAX_NAME_LEN_def)
  note t = fs_st1_target [OF v]
  have c: "components ''/motd'' = [''motd'']" using components_one [OF v] by simp
  have "cstring ''/motd''" by simp
  with fs_st1_ok(1) show ?thesis
  proof (cases rule: fs_touch_cases)
    case (fail st')
    then show ?thesis using t fs_st1_ok(5) by (simp add: room_def MAX_PATH_LEN_def)
  next
    case (ok d c' n st')
    note C = createdD [OF ok(3)]
    have "fs_inv st'" using C(9) by (auto simp: fs_inv_def)
    moreover have "fs_lookup st' (path_base st' ''/motd'') (components ''/motd'') = Some n"
      using created_lookup [OF ok(3), of "fs_root fs_st1" "[''motd'']"] ok(2) t c C(11) fs_st1_ok(4)
      by (simp add: path_base_def)
    ultimately show ?thesis using fs_write_existing_fails [of st' "''/motd''" n] ok(1) by auto
  qed
qed

end
