(* ===== verification/Fs_Content.thy ===== *)
theory Fs_Content
  imports Fs_Files
begin

text \<open>
  The content of a file, as the caller of \<open>fs_read\<close> sees it, and the two operations that
  are stated with it: \<open>fs_write_cwd\<close>, the only way to overwrite a file, and \<open>fs_copy\<close>.
\<close>

definition content :: "'a fs_st_scheme \<Rightarrow> ptr \<Rightarrow> u8 list option" where
  "content st p =
     (case fs_nodes st p of None \<Rightarrow> None
      | Some n \<Rightarrow>
          if n_is_dir n then None
          else if n_data n = NULL \<or> n_size n = 0 then Some []
          else do { bs \<leftarrow> read_bytes (n_data n) (unat (n_size n)) st;
                    crypto_decrypt st bs (unat (n_size n)) })"

lemma content_total:
  assumes inv: "fs_ok K st" and n: "fs_nodes st p = Some n" "\<not> n_is_dir n"
  shows "content st p \<noteq> None"
proof (cases "n_data n = NULL \<or> n_size n = 0")
  case True
  then show ?thesis using n by (auto simp: content_def)
next
  case False
  from fs_okD(5) [OF inv] n(1) False obtain bs where
    bs: "fs_bufs st (n_data n) = Some bs" "unat (n_size n) < length bs"
    by (fastforce simp: data_ok_def)
  then have "crypto_decrypt st (take (unat (n_size n)) bs) (unat (n_size n)) \<noteq> None"
    using fs_okD(2) [OF inv] by (simp add: crypto_ready_def crypto_decrypt_def crypto_apply_def)
  then show ?thesis using n False bs by (simp add: content_def read_bytes_def)
qed

subsection \<open>The content a lookup finds is what \<open>fs_read\<close> returns\<close>

lemma fs_read_content:
  assumes inv: "fs_ok K st" and p: "cstring path" "path \<noteq> []"
    and q: "fs_lookup st (path_base st path) (components path) = Some q" "content st q = Some bs"
    and r: "bs \<noteq> []" "room st (length bs + 1)"
  shows "\<exists>buf st'. fs_read (Some path) st = Some (buf, st') \<and> buf \<noteq> NULL \<and> fs_ok K st' \<and>
    fs_bufs st buf = None \<and> fs_bufs st' buf = Some (bs @ [0]) \<and> fs_nodes st' = fs_nodes st"
proof -
  from q(2) r(1) obtain n raw where n: "fs_nodes st q = Some n" "\<not> n_is_dir n" "n_data n \<noteq> NULL"
    "n_size n \<noteq> 0" "read_bytes (n_data n) (unat (n_size n)) st = Some raw"
    "crypto_decrypt st raw (unat (n_size n)) = Some bs"
    by (auto simp: content_def split: option.splits if_splits bind_splits)
  then obtain all where all: "fs_bufs st (n_data n) = Some all" "raw = take (unat (n_size n)) all"
    by (auto simp: read_bytes_def split: option.splits if_splits)
  have len: "length bs = unat (n_size n)"
    using n(6) by (auto simp: crypto_decrypt_def crypto_apply_def split: if_splits)
  from inv p q(1) n(1-4) all(1) n(6) [unfolded all(2)] show ?thesis
  proof (cases rule: fs_read_cases)
    case oom
    then show ?thesis using r(2) len by simp
  next
    case (ok buf st')
    then show ?thesis by auto
  qed
qed

lemma stored_content:
  assumes "fs_ok K st" "fs_nodes st q = Some n" "\<not> n_is_dir n" "data_fits data"
    and "store_data q data st = Some (0, st')"
  shows "content st' q = Some (map of_char data)"
proof -
  from stored_read(4) [OF assms] obtain n' bs where n': "fs_nodes st' q = Some n'" "\<not> n_is_dir n'"
    "n_data n' \<noteq> NULL" "unat (n_size n') = length data" "fs_bufs st' (n_data n') = Some (bs @ [0])"
    "length bs = length data" "crypto_decrypt st' bs (length data) = Some (map of_char data)"
    by blast
  show ?thesis
  proof (cases "n_size n' = 0")
    case True
    then show ?thesis using n' by (simp add: content_def)
  next
    case False
    then show ?thesis using n' by (simp add: content_def read_bytes_def)
  qed
qed

subsection \<open>Writing in the working directory\<close>

lemma cwd_node:
  assumes "fs_ok K st"
  obtains d where "fs_nodes st (fs_cwd st) = Some d" "n_is_dir d" "fs_cwd st \<noteq> NULL"
proof -
  obtain d where d: "fs_nodes st (fs_cwd st) = Some d" "n_is_dir d"
    using fs_okD(7) [OF assms] by (auto simp: dir_at_def)
  moreover have "fs_cwd st \<noteq> NULL" using d tree_okD(1) [OF fs_okD(4) [OF assms]] by auto
  ultimately show thesis by (rule that)
qed

lemma fs_new_node_cwd: "fs_new_node c isd st = (n, st1) \<Longrightarrow> fs_cwd st1 = fs_cwd st"
  by (auto simp: fs_new_node_def kmalloc_def Let_def split: if_splits)

lemma fs_write_cwd_cases:
  assumes inv: "fs_ok K st" and nm: "valid_name name" and fits: "data_fits data"
  obtains (isdir) p n where "fs_write_cwd (Some name) (Some data) st = Some (- 1, st)"
      "fs_find_in_dir st (fs_cwd st) name = Some p" "fs_nodes st p = Some n" "n_is_dir n" "p \<noteq> NULL"
  | (full) K' st' where "fs_write_cwd (Some name) (Some data) st = Some (- 1, st')" "fs_ok K' st'"
      "\<not> room st (length data + 57)"
  | (over) p n st' where "fs_write_cwd (Some name) (Some data) st = Some (0, st')"
      "fs_find_in_dir st (fs_cwd st) name = Some p" "p \<noteq> NULL" "fs_nodes st p = Some n"
      "\<not> n_is_dir n" "store_data p data st = Some (0, st')"
  | (new) p st2 st' where "fs_write_cwd (Some name) (Some data) st = Some (0, st')"
      "created K st (fs_cwd st) name False p st2" "store_data p data st2 = Some (0, st')"
proof -
  obtain d where d: "fs_nodes st (fs_cwd st) = Some d" "n_is_dir d" "fs_cwd st \<noteq> NULL"
    using cwd_node [OF inv] by blast
  have c: "name \<noteq> []" "cstring name" using nm by (auto simp: valid_name_def)
  from fs_okD(4) [OF inv] d(1) c(2) show thesis
  proof (cases rule: fs_find_in_dir_cases)
    case none
    from inv d(1,2) nm none(1) show thesis
    proof (cases rule: fs_create_or_oom [where isd = False])
      case oom
      then have "fs_write_cwd (Some name) (Some data) st = Some (- 1, oom_msg st)"
        using d none(1) c by (simp add: fs_write_cwd_def)
      then show thesis using that(2) [of "oom_msg st" K] inv oom(2) by (simp add: room_def)
    next
      case (ok n st1 st2)
      note C = createdD [OF ok(4)]
      have w: "fs_write_cwd (Some name) (Some data) st = store_data n data st2"
        using d none(1) c ok(1-3) fs_new_node_cwd [OF ok(1)] by (simp add: fs_write_cwd_def)
      have "\<not> n_is_dir (new_node name False (fs_cwd st) (n_child (the (fs_nodes st (fs_cwd st)))))" by simp
      with C(9,19) show thesis
        using fits
      proof (cases rule: store_data_cases)
        case oom
        then show thesis using that(2) [of "oom_msg st2"] w C(9,10) by (simp add: room_def)
      next
        case st: (ok buf bs st')
        then show thesis using that(4) [of st' n st2] w ok(4) by simp
      qed
    qed
  next
    case (some p n)
    have w: "fs_write_cwd (Some name) (Some data) st = store_data p data st"
      using d some(1,3) c by (simp add: fs_write_cwd_def)
    show thesis
    proof (cases "n_is_dir n")
      case True
      then have "store_data p data st = Some (- 1, st)" using some(4) by (simp add: store_data_def)
      then show thesis using that(1) w some True by simp
    next
      case False
      from inv some(4) False fits show thesis
      proof (cases rule: store_data_cases)
        case oom
        then show thesis using that(2) [of "oom_msg st" K] w inv by (simp add: room_def)
      next
        case st: (ok buf bs st')
        then show thesis using that(3) [of st' p n] w some(1,3,4) False by simp
      qed
    qed
  qed
qed

lemma fs_write_cwd_inv:
  assumes "fs_ok K st" "valid_name name" "data_fits data"
  shows "\<exists>r st' K'. fs_write_cwd (Some name) (Some data) st = Some (r, st') \<and> fs_ok K' st'"
  using assms
proof (cases rule: fs_write_cwd_cases)
  case (isdir p n)
  then show ?thesis using assms(1) by blast
next
  case (full K' st')
  then show ?thesis by blast
next
  case (over p n st')
  then show ?thesis using stored_read(1) [OF assms(1) over(4,5) assms(3) over(6)] by blast
next
  case (new p st2 st')
  note C = createdD [OF new(2)]
  have "\<not> n_is_dir (new_node name False (fs_cwd st) (n_child (the (fs_nodes st (fs_cwd st)))))" by simp
  then show ?thesis using new(1) stored_read(1) [OF C(9) C(19) _ assms(3) new(3)] by blast
qed

subsection \<open>What does not change\<close>

lemma crypto_apply_key:
  "g_key st' = g_key st \<Longrightarrow> g_key_len st' = g_key_len st \<Longrightarrow> crypto_decrypt st' = crypto_decrypt st"
  by (simp add: fun_eq_iff crypto_decrypt_def crypto_apply_def)

text \<open>
  The content of a node that an operation leaves alone, when the buffers only grow.
\<close>

lemma content_frame:
  assumes inv: "fs_ok K st" and n: "fs_nodes st p = Some n" "fs_nodes st' p = Some n'"
    and same: "n_is_dir n' = n_is_dir n" "n_data n' = n_data n" "n_size n' = n_size n"
    and k: "g_key st' = g_key st" "g_key_len st' = g_key_len st"
    and b: "\<And>q. fs_bufs st q \<noteq> None \<Longrightarrow> fs_bufs st' q = fs_bufs st q"
  shows "content st' p = content st p"
proof -
  have "fs_bufs st' (n_data n) = fs_bufs st (n_data n)" if "n_data n \<noteq> NULL"
    using fs_okD(5) [OF inv] n(1) that by (intro b) (auto simp: data_ok_def)
  then show ?thesis
    using n same by (auto simp: content_def read_bytes_def crypto_apply_key [OF k] split: option.split)
qed

lemma created_content:
  assumes cr: "created K st d c isd n st2" and p: "fs_nodes st p = Some x"
  shows "content st2 p = content st p"
proof -
  note C = createdD [OF cr]
  have ne: "p \<noteq> n" using C(2) p by auto
  obtain x' where "fs_nodes st2 p = Some x'" "n_is_dir x' = n_is_dir x" "n_data x' = n_data x"
    "n_size x' = n_size x"
    using C(20) C(21) [OF ne] p by (cases "p = d") auto
  then show ?thesis
    by (rule content_frame [OF C(8) p]) (use C(13,14,17) in auto)
qed

lemma stored_content_other:
  assumes inv: "fs_ok K st" and q: "fs_nodes st q = Some n" "\<not> n_is_dir n" "data_fits data"
    and st: "store_data q data st = Some (0, st')" and p: "fs_nodes st p = Some x" "p \<noteq> q"
  shows "content st' p = content st p"
  using inv q
proof (cases rule: store_data_cases)
  case oom
  then show ?thesis using st by simp
next
  case (ok buf bs st'')
  then have st': "st' = st\<lparr>heap_offset := heap_offset st + of_nat (length data + 1),
         fs_bufs := (fs_bufs st)(buf \<mapsto> bs @ [0]),
         fs_nodes := (fs_nodes st)(q \<mapsto> n\<lparr>n_data := buf, n_size := of_nat (length data)\<rparr>)\<rparr>"
    using st by simp
  show ?thesis
    by (rule content_frame [OF inv p(1)]) (use st' p ok(3) in auto)
qed

lemma new_file_not_dir: "\<not> n_is_dir (new_node c False d s)"
  by simp

subsection \<open>Copy\<close>

lemma fs_copy_cases:
  assumes inv: "fs_ok K st" and p: "cstring sp" "cstring dp"
  obtains (fail) K' st' where "fs_copy (Some sp) (Some dp) st = Some (- 1, st')" "fs_ok K' st'"
      "sp = [] \<or> dp = [] \<or>
       (\<forall>src s. fs_lookup st (path_base st sp) (components sp) = Some src \<longrightarrow> fs_nodes st src = Some s \<longrightarrow>
          n_is_dir s \<or> create_target st dp = None \<or> \<not> room st (unat (n_size s) + 57))"
  | (ok) src s d c n st2 st' K' where "fs_copy (Some sp) (Some dp) st = Some (0, st')"
      "fs_lookup st (path_base st sp) (components sp) = Some src" "fs_nodes st src = Some s"
      "\<not> n_is_dir s" "create_target st dp = Some (d, c)" "created K st d c False n st2" "fs_ok K' st'"
      "copy_data src n st2 = Some (0, st')"
proof (cases "sp = [] \<or> dp = []")
  case True
  have "fs_copy (Some sp) (Some dp) st = Some (- 1, st)"
  proof (cases "sp = []")
    case True
    then show ?thesis by (simp add: fs_copy_def fs_resolve_def)
  next
    case sp: False
    with True have dp: "dp = []" by simp
    from fs_resolve_node [OF inv p(1) sp] obtain src where
      r: "fs_resolve st (Some sp) False = Some (src, None)" "src = NULL \<or>
        fs_lookup st (path_base st sp) (components sp) = Some src"
      by (auto split: option.splits)
    have "list_all cstring (components sp)"
      using components_valid [OF p(1)] by (auto simp: list_all_iff valid_name_def)
    then have "fs_nodes st src \<noteq> None" if "src \<noteq> NULL"
      using fs_lookup_node [OF fs_okD(4) [OF inv] path_base_node [OF inv]] r(2) that by blast
    then show ?thesis using r(1) dp by (auto simp: fs_copy_def) (auto simp: fs_resolve_def)
  qed
  then show thesis using that(1) [of st K] True inv by blast
next
  case False
  then have ne: "sp \<noteq> []" "dp \<noteq> []" by auto
  note r = fs_resolve_node [OF inv p(1) ne(1)]
  show thesis
  proof (cases "fs_lookup st (path_base st sp) (components sp)")
    case None
    then have "fs_copy (Some sp) (Some dp) st = Some (- 1, st)" using r by (simp add: fs_copy_def)
    then show thesis using that(1) [of st K] inv None by simp
  next
    case (Some src)
    have "list_all cstring (components sp)"
      using components_valid [OF p(1)] by (auto simp: list_all_iff valid_name_def)
    then obtain s where s: "fs_nodes st src = Some s"
      using fs_lookup_node [OF fs_okD(4) [OF inv] path_base_node [OF inv] _ Some] by auto
    then have s0: "src \<noteq> NULL" using tree_okD(1) [OF fs_okD(4) [OF inv]] by auto
    have r1: "fs_resolve st (Some sp) False = Some (src, None)" using r Some by simp
    show thesis
    proof (cases "n_is_dir s")
      case True
      then have "fs_copy (Some sp) (Some dp) st = Some (- 1, st)" using r1 s s0 by (simp add: fs_copy_def)
      then show thesis using that(1) [of st K] inv True Some s by simp
    next
      case reg: False
      from inv p(2) ne(2) show thesis
      proof (cases rule: resolve_target)
        case (fail par lst)
        then have "fs_copy (Some sp) (Some dp) st = Some (- 1, st)"
          using r1 s s0 reg by (auto simp: fs_copy_def)
        then show thesis using that(1) [of st K] inv fail(1) Some s by simp
      next
        case (target d dn c)
        have c: "c \<noteq> []" using target(3) by (simp add: valid_name_def)
        from inv target(4,5,3,6) show thesis
        proof (cases rule: fs_create_or_oom [where isd = False])
          case oom
          then have "fs_copy (Some sp) (Some dp) st = Some (- 1, oom_msg st)"
            using r1 s s0 reg target c by (simp add: fs_copy_def)
          then show thesis using that(1) [of "oom_msg st" K] inv oom(2) Some s by (simp add: room_def)
        next
          case (ok n st1 st2)
          note C = createdD [OF ok(4)]
          have w: "fs_copy (Some sp) (Some dp) st = copy_data src n st2"
            using r1 s s0 reg target c ok(1-3) by (simp add: fs_copy_def)
          have ne: "src \<noteq> n" "src \<noteq> d" using C(2) s target(4,5) reg by auto
          have s2: "fs_nodes st2 src = Some s" using C(21) [OF ne] s by simp
          from C(9) s2 C(19) ne(1) show thesis
          proof (cases rule: copy_data_cases)
            case empty
            then show thesis using that(2) w Some s reg target(1) ok(4) C(9) by metis
          next
            case oom
            then have "\<not> room st (unat (n_size s) + 57)" using C(10) by (simp add: room_def)
            then show thesis using that(1) [of "oom_msg st2"] w oom(1) C(9) Some s by simp
          next
            case st: (ok buf bs st')
            then show thesis using that(2) w Some s reg target(1) ok(4) by metis
          qed
        qed
      qed
    qed
  qed
qed

lemma copied_content:
  assumes cr: "created K st d c False n st2" and s: "fs_nodes st src = Some s" "\<not> n_is_dir s"
    and cp: "copy_data src n st2 = Some (0, st')"
  shows "content st' n = content st src"
    "\<And>p x. fs_nodes st p = Some x \<Longrightarrow> content st' p = content st p"
proof -
  note C = createdD [OF cr]
  have "n_is_dir (the (fs_nodes st d))" using cr by (auto simp: created_def)
  then have ne: "src \<noteq> n" "src \<noteq> d" using C(2) s by auto
  have s2: "fs_nodes st2 src = Some s" using C(21) [OF ne] s by simp
  have "content st' n = content st src \<and> (\<forall>p x. fs_nodes st p = Some x \<longrightarrow> content st' p = content st p)"
    using C(9) s2 C(19) ne(1)
  proof (cases rule: copy_data_cases)
    case empty
    then have "st' = st2" using cp by simp
    moreover have "content st2 n = content st src"
      using C(19) s empty(2) by (auto simp: content_def)
    ultimately show ?thesis using created_content [OF cr] by blast
  next
    case oom
    then show ?thesis using cp by simp
  next
    case (ok buf bs st'')
    let ?x = "new_node c False d (n_child (the (fs_nodes st d)))"
    have st': "st' = st2\<lparr>heap_offset := heap_offset st2 + (n_size s + 1),
         fs_bufs := (fs_bufs st2)(buf \<mapsto> take (unat (n_size s)) bs @ [0]),
         fs_nodes := (fs_nodes st2)(n \<mapsto> ?x\<lparr>n_data := buf, n_size := n_size s\<rparr>)\<rparr>"
      using ok(1,8) cp by simp
    have keys: "crypto_decrypt st' = crypto_decrypt st"
      using st' C(13,14) by (intro crypto_apply_key) auto
    have "content st' n = crypto_decrypt st (take (unat (n_size s)) bs) (unat (n_size s))"
      using st' ok(2,5,7) keys by (simp add: content_def read_bytes_def)
    moreover have "content st src = crypto_decrypt st (take (unat (n_size s)) bs) (unat (n_size s))"
      using s ok(4-7) C(17) by (simp add: content_def read_bytes_def)
    moreover have "content st' p = content st p" if p: "fs_nodes st p = Some x" for p x
    proof -
      have pn: "p \<noteq> n" using p C(2) by auto
      obtain y where "fs_nodes st2 p = Some y"
        using p C(20) C(21) [OF pn] by (cases "p = d") auto
      then have "content st' p = content st2 p"
        by (intro content_frame [OF C(9)]) (use st' pn ok(3) in auto)
      then show ?thesis using created_content [OF cr p] by simp
    qed
    ultimately show ?thesis by simp
  qed
  then show "content st' n = content st src"
    "\<And>p x. fs_nodes st p = Some x \<Longrightarrow> content st' p = content st p" by blast+
qed

subsection \<open>Properties\<close>

lemma fs_write_cwd_stores:
  assumes "fs_inv st" "valid_name name" "data_fits data" "room st (length data + 57)"
    and "\<And>p. fs_find_in_dir st (fs_cwd st) name = Some p \<Longrightarrow> \<not> dir_at (fs_nodes st) p"
  shows "\<exists>st' p. fs_write_cwd (Some name) (Some data) st = Some (0, st') \<and> fs_inv st' \<and>
    fs_find_in_dir st' (fs_cwd st) name = Some p \<and> p \<noteq> NULL \<and>
    content st' p = Some (map of_char data) \<and>
    (\<forall>q. q \<noteq> p \<and> fs_nodes st q \<noteq> None \<longrightarrow> content st' q = content st q)"
proof -
  from assms(1) obtain K where inv: "fs_ok K st" by (auto simp: fs_inv_def)
  have nm: "cstring name" using assms(2) by (simp add: valid_name_def)
  obtain d where d: "fs_nodes st (fs_cwd st) = Some d" using cwd_node [OF inv] by blast
  from inv assms(2,3) show ?thesis
  proof (cases rule: fs_write_cwd_cases)
    case (isdir p n)
    then show ?thesis using assms(5) by (auto simp: dir_at_def)
  next
    case (full K' st')
    then show ?thesis using assms(4) by simp
  next
    case (over p n st')
    note R = stored_read [OF inv over(4,5) assms(3) over(6)]
    have "fs_lookup st' (fs_cwd st) [name] = fs_lookup st (fs_cwd st) [name]"
      by (rule R(2)) (use d nm in auto)
    then have "fs_find_in_dir st' (fs_cwd st) name = Some p"
      using over(2,3) by (auto split: option.splits if_splits)
    then show ?thesis
      using over R(1) stored_content [OF inv over(4,5) assms(3) over(6)]
        stored_content_other [OF inv over(4,5) assms(3) over(6)] by (auto simp: fs_inv_def)
  next
    case (new p st2 st')
    note C = createdD [OF new(2)]
    let ?x = "new_node name False (fs_cwd st) (n_child (the (fs_nodes st (fs_cwd st))))"
    note R = stored_read [OF C(9) C(19) new_file_not_dir assms(3) new(3)]
    have d2: "fs_nodes st2 (fs_cwd st) \<noteq> None" using C(20) by simp
    have "fs_find_in_dir st2 (fs_cwd st) name = Some p"
      using created_find [OF new(2) d nm] by simp
    moreover have "fs_lookup st' (fs_cwd st) [name] = fs_lookup st2 (fs_cwd st) [name]"
      by (rule R(2)) (use d2 nm in auto)
    ultimately have "fs_find_in_dir st' (fs_cwd st) name = Some p"
      using C(1) by (auto split: option.splits if_splits)
    moreover have "content st' q = content st q" if q: "q \<noteq> p" "fs_nodes st q = Some x" for q x
    proof -
      obtain y where "fs_nodes st2 q = Some y"
        using q C(20) C(21) [OF q(1)] by (cases "q = fs_cwd st") auto
      then have "content st' q = content st2 q"
        using stored_content_other [OF C(9) C(19) new_file_not_dir assms(3) new(3)] q(1) by blast
      then show ?thesis using created_content [OF new(2) q(2)] by simp
    qed
    ultimately show ?thesis
      using new(1) R(1) C(1) stored_content [OF C(9) C(19) new_file_not_dir assms(3) new(3)]
      by (auto simp: fs_inv_def)
  qed
qed

text \<open>
  C14: writing a valid name in the working directory creates the file or overwrites the one
  that is there, whatever it held: with room on the heap \<open>fs_write_cwd\<close> returns 0, keeps the
  invariant, the entry of that name is a file with exactly the data as its content, and
  every other node keeps its content.
\<close>

theorem fs_write_cwd_overwrites:
  assumes "fs_inv st" "valid_name name" "data_fits data" "room st (length data + 57)"
    and "\<And>p. fs_find_in_dir st (fs_cwd st) name = Some p \<Longrightarrow> \<not> dir_at (fs_nodes st) p"
  shows "\<exists>st' p. fs_write_cwd (Some name) (Some data) st = Some (0, st') \<and> fs_inv st' \<and>
    fs_find_in_dir st' (fs_cwd st) name = Some p \<and> p \<noteq> NULL \<and>
    content st' p = Some (map of_char data) \<and>
    (\<forall>q. q \<noteq> p \<and> fs_nodes st q \<noteq> None \<longrightarrow> content st' q = content st q)"
  using assms by (rule fs_write_cwd_stores)

theorem fs_write_cwd_overwrites_witness:
  "fs_inv fs_st1 \<and> (\<exists>st1 st2 p. fs_write_cwd (Some ''a'') (Some ''old'') fs_st1 = Some (0, st1) \<and>
     fs_write_cwd (Some ''a'') (Some ''new'') st1 = Some (0, st2) \<and>
     fs_find_in_dir st2 (fs_cwd st1) ''a'' = Some p \<and> content st2 p = Some [0x6E, 0x65, 0x77])"
proof -
  have inv: "fs_inv fs_st1" using fs_st1_ok(1) by (auto simp: fs_inv_def)
  have v: "valid_name ''a''" "data_fits ''old''" "data_fits ''new''"
    by (simp_all add: valid_name_def MAX_NAME_LEN_def data_fits_def)
  have nodir: "\<not> dir_at (fs_nodes fs_st1) p" if "fs_find_in_dir fs_st1 (fs_cwd fs_st1) ''a'' = Some p" for p
    using that fs_st1_find [of "''a''"] fs_st1_ok(2,3,4) by (auto simp: dir_at_def)
  from fs_st1_ok(1) v(1,2) show ?thesis
  proof (cases rule: fs_write_cwd_cases)
    case (new p st2 st1)
    note C = createdD [OF new(2)]
    note R = stored_read [OF C(9) C(19) new_file_not_dir v(2) new(3)]
    have inv1: "fs_inv st1" using R(1) by (auto simp: fs_inv_def)
    have cwd1: "fs_cwd st1 = fs_cwd fs_st1"
      using C(9) C(19) new_file_not_dir v(2)
      by (cases rule: store_data_cases) (use new(3) C(12) in auto)
    have room1: "room st1 (length ''new'' + 57)"
      using R(5) C(10) fs_st1_ok(5) by (simp add: room_def)
    have f: "content st1 p = Some (map of_char ''old'')"
      by (rule stored_content [OF C(9) C(19) new_file_not_dir v(2) new(3)])
    have d2: "fs_nodes st2 (fs_cwd fs_st1) \<noteq> None" using C(20) by simp
    have "fs_lookup st1 (fs_cwd fs_st1) [''a''] = fs_lookup st2 (fs_cwd fs_st1) [''a'']"
      by (rule R(2)) (use d2 in auto)
    moreover have "fs_find_in_dir st2 (fs_cwd fs_st1) ''a'' = Some p"
      using created_find [OF new(2)] fs_st1_ok(2,4) by simp
    ultimately have "fs_find_in_dir st1 (fs_cwd fs_st1) ''a'' = Some p"
      using C(1) by (auto split: option.splits if_splits)
    then have "\<And>q. fs_find_in_dir st1 (fs_cwd st1) ''a'' = Some q \<Longrightarrow> \<not> dir_at (fs_nodes st1) q"
      using f cwd1 by (auto simp: dir_at_def content_def)
    from fs_write_cwd_overwrites [OF inv1 v(1,3) room1 this] show ?thesis
      using inv new(1) by (auto simp: of_char_def)
  qed (use fs_st1_find [of "''a''"] fs_st1_ok(2,5) in \<open>auto simp: room_def\<close>)
qed

text \<open>
  C15: \<open>fs_copy\<close> of a file to a path that can be created, with room on the heap, returns 0
  and keeps the invariant; the new path then leads to a new file whose content is that of
  the source, and every node that was there keeps its content.
\<close>

theorem fs_copy_spec:
  assumes "fs_inv st" "cstring sp" "cstring dp" "sp \<noteq> []" "dp \<noteq> []"
    and "fs_lookup st (path_base st sp) (components sp) = Some src" "fs_nodes st src = Some s"
    and "\<not> n_is_dir s" "create_target st dp = Some (d, c)" "room st (unat (n_size s) + 57)"
  shows "\<exists>n st'. fs_copy (Some sp) (Some dp) st = Some (0, st') \<and> fs_inv st' \<and>
    fs_nodes st n = None \<and> fs_find_in_dir st' d c = Some n \<and>
    content st' n = content st src \<and> content st src \<noteq> None \<and>
    (\<forall>p x. fs_nodes st p = Some x \<longrightarrow> content st' p = content st p)"
proof -
  from assms(1) obtain K where inv: "fs_ok K st" by (auto simp: fs_inv_def)
  from inv assms(2,3) show ?thesis
  proof (cases rule: fs_copy_cases)
    case (fail K' st')
    then show ?thesis using assms(4-10) by simp
  next
    case (ok src' s' d' c' n st2 st' K')
    have same: "src' = src" "s' = s" "d' = d" "c' = c" using ok(2,3,5) assms(6,7,9) by auto
    note cr = ok(6) [unfolded same]
    note C = createdD [OF cr]
    have src: "src \<noteq> n" using C(2) assms(7) by auto
    have "n_is_dir (the (fs_nodes st d))" using cr by (auto simp: created_def)
    then have sd: "src \<noteq> d" using assms(7,8) by auto
    have s2: "fs_nodes st2 src = Some s" using C(21) [OF src sd] assms(7) by simp
    have nm: "cstring c" using C(6) by (simp add: valid_name_def)
    obtain dn where dn: "fs_nodes st d = Some dn" using cr by (auto simp: created_def)
    have f2: "fs_find_in_dir st2 d c = Some n" using created_find [OF cr dn nm] by simp
    have "fs_find_in_dir st' d c = Some n"
      using C(9) s2 C(19) src
    proof (cases rule: copy_data_cases)
      case (ok buf bs st'')
      have "fs_find_in_dir st' d c = fs_find_in_dir st2 d c"
        by (rule fs_find_shape [OF fs_okD(4) [OF C(9)] _ C(20) nm])
          (use ok(1,8) \<open>copy_data src' n st2 = Some (0, st')\<close> same C(19) in \<open>auto simp: shape_def\<close>)
      then show ?thesis using f2 by simp
    qed (use f2 \<open>copy_data src' n st2 = Some (0, st')\<close> same in auto)
    then show ?thesis
      using ok(1,7) C(2) copied_content [OF cr assms(7,8) ok(8) [unfolded same]]
        content_total [OF inv assms(7,8)] by (auto simp: fs_inv_def)
  qed
qed

theorem fs_copy_spec_witness:
  "\<exists>st1 n st2. fs_touch (Some ''a'') fs_st1 = Some (0, st1) \<and>
     fs_copy (Some ''/a'') (Some ''/b'') st1 = Some (0, st2) \<and> fs_inv st2 \<and>
     fs_find_in_dir st2 (fs_root st1) ''b'' = Some n \<and> content st2 n = Some []"
proof -
  have v: "valid_name ''a''" "valid_name ''b''" by (simp_all add: valid_name_def MAX_NAME_LEN_def)
  note root = fs_st1_ok(2-4)
  have t: "create_target fs_st1 ''a'' = Some (fs_root fs_st1, ''a'')"
    using fs_st1_find [of "''a''"] root components_one [OF v(1)]
    by (simp add: create_target_def path_base_def)
  have "cstring ''a''" by simp
  with fs_st1_ok(1) show ?thesis
  proof (cases rule: fs_touch_cases)
    case (fail st')
    then show ?thesis using t fs_st1_ok(5) by (simp add: room_def MAX_PATH_LEN_def)
  next
    case (ok d c n st1)
    have dc: "d = fs_root fs_st1" "c = ''a''" using ok(2) t by simp_all
    note cr = ok(3) [unfolded dc]
    note C = createdD [OF cr]
    have rt: "fs_nodes fs_st1 (fs_root fs_st1) = Some (new_node [slash] True (fs_root fs_st1) NULL)"
      using root by simp
    have find: "fs_find_in_dir st1 (fs_root st1) ''a'' = Some n" "fs_find_in_dir st1 (fs_root st1) ''b'' = Some NULL"
      using created_find [OF cr rt] fs_st1_find [of "''b''"] C(11) by simp_all
    have comps: "components ''/a'' = [''a'']" "components ''/b'' = [''b'']"
      using components_one v by simp_all
    let ?f = "new_node ''a'' False (fs_root fs_st1) (n_child (the (fs_nodes fs_st1 (fs_root fs_st1))))"
    have inv: "fs_inv st1" using C(9) by (auto simp: fs_inv_def)
    have lk: "fs_lookup st1 (path_base st1 ''/a'') (components ''/a'') = Some n"
      using find C(1) comps by (simp add: path_base_def)
    have tg: "create_target st1 ''/b'' = Some (fs_root st1, ''b'')"
      using find comps C(11,20) root by (simp add: create_target_def path_base_def)
    have rm: "room st1 (unat (n_size ?f) + 57)" using C(10) fs_st1_ok(5) by (simp add: room_def)
    have "\<exists>m st2. fs_copy (Some ''/a'') (Some ''/b'') st1 = Some (0, st2) \<and> fs_inv st2 \<and>
        fs_nodes st1 m = None \<and> fs_find_in_dir st2 (fs_root st1) ''b'' = Some m \<and>
        content st2 m = content st1 n \<and> content st1 n \<noteq> None \<and>
        (\<forall>p x. fs_nodes st1 p = Some x \<longrightarrow> content st2 p = content st1 p)"
      by (rule fs_copy_spec [OF inv _ _ _ _ lk C(19) new_file_not_dir tg rm]) simp_all
    moreover have "content st1 n = Some []" using C(19) by (simp add: content_def)
    ultimately show ?thesis using ok(1) by auto
  qed
qed

lemma chain_unique: "chain h p cs \<Longrightarrow> chain h p ds \<Longrightarrow> cs = ds"
proof (induction cs arbitrary: p ds)
  case (Cons c cs)
  then show ?case by (cases ds) auto
qed (simp add: chain_null)

lemma store_data_total:
  assumes st: "kmem_wf st" "crypto_ready st" "data_fits data" "room st (length data + 1)"
    and n: "fs_nodes st p = Some n" "\<not> n_is_dir n"
  obtains buf bs st' where "store_data p data st = Some (0, st')"
    "fs_nodes st' = (fs_nodes st)(p \<mapsto> n\<lparr>n_data := buf, n_size := of_nat (length data)\<rparr>)"
    "fs_cwd st' = fs_cwd st"
proof -
  note sm = small_data [OF st(3)]
  have "unat (heap_offset st) + unat (of_nat (length data + 1) :: u32) < unat KHEAP_SIZE"
    using st(4) sm(3) by (simp add: room_def KHEAP_SIZE_def)
  note a = kmalloc_ok [OF st(1) sm(1) this]
  obtain bs where bs: "crypto_encrypt st (map of_char data) (length data) = Some bs"
    using xor_cipher.enc_total [OF st(2), of "length data" "map of_char data"] by auto
  have "KHEAP_START + heap_offset st \<noteq> NULL"
    using unat_heap_ptr [OF st(1)] by (auto simp: heap_top_def KHEAP_START_def)
  then show thesis
    using n a bs that by (simp add: store_data_def kstrlen_def put_buf_def upd_node_def Let_def)
qed

text \<open>
  the bound check of \<open>fs_write_cwd\<close> is missing: it searches for the whole name but the
  node keeps its first 31 characters, so a name of 32 or more is never found, every write
  adds a second entry of the truncated name in front of the one that is there, and the
  directory is no longer a map from names.
\<close>

theorem fs_write_cwd_long_name:
  assumes "fs_inv st" "cstring name" "32 \<le> length name" "data_fits data" "room st (length data + 57)"
    and "fs_find_in_dir st (fs_cwd st) (take 31 name) = Some old" "old \<noteq> NULL"
  shows "\<exists>n st'. fs_write_cwd (Some name) (Some data) st = Some (0, st') \<and> n \<noteq> old \<and>
    fs_nodes st n = None \<and> fs_find_in_dir st' (fs_cwd st) (take 31 name) = Some n \<and> \<not> fs_inv st'"
proof -
  from assms(1) obtain K where inv: "fs_ok K st" by (auto simp: fs_inv_def)
  note t = fs_okD(4) [OF inv]
  obtain d where d: "fs_nodes st (fs_cwd st) = Some d" "n_is_dir d" "fs_cwd st \<noteq> NULL"
    using cwd_node [OF inv] by blast
  have short: "kstrncpy name MAX_NAME_LEN = take 31 name" by (simp add: kstrncpy_def MAX_NAME_LEN_def)
  from t d(1) assms(2) have none: "fs_find_in_dir st (fs_cwd st) name = Some NULL"
  proof (cases rule: fs_find_in_dir_cases)
    case (some p m)
    have "length (n_name m) < 32" using t some(7) by (rule kidD) (use some(4) in \<open>auto simp: valid_name_def MAX_NAME_LEN_def\<close>)
    then show ?thesis using some(5) assms(3) by simp
  qed
  have "cstring (take 31 name)" using assms(2) by simp
  with t d(1) obtain m where old: "fs_nodes st old = Some m" "n_name m = take 31 name" "old \<in> set (K (fs_cwd st))"
    by (cases rule: fs_find_in_dir_cases) (use assms(6,7) in auto)
  obtain n st1 where new: "fs_new_node name False st = (n, st1)" by fastforce
  from inv new assms(2) show ?thesis
  proof (cases rule: fs_new_node_cases)
    case oom
    then show ?thesis using assms(5) by (simp add: room_def)
  next
    case ok
    have nd: "n \<noteq> fs_cwd st" "n \<noteq> old" using ok(2) d(1) old(1) by auto
    have n1: "fs_nodes st1 n = Some (new_node (take 31 name) False NULL NULL)" "fs_nodes st1 (fs_cwd st) = Some d"
      using ok(8) nd d(1) short by auto
    let ?h = "(fs_nodes st1)(n \<mapsto> new_node (take 31 name) False (fs_cwd st) (n_child d), fs_cwd st \<mapsto> d\<lparr>n_child := n\<rparr>)"
    define st2 where "st2 = st1\<lparr>fs_nodes := ?h\<rparr>"
    have link: "link_child (fs_cwd st) n st1 = Some st2"
      using link_child_eq [OF n1 nd(1)] by (simp add: st2_def)
    have "kmem_wf st2" "crypto_ready st2" "room st2 (length data + 1)"
      using fs_okD(1,2) [OF ok(5)] ok(7) assms(5)
      by (simp_all add: st2_def kmem_wf_def crypto_ready_def room_def)
    moreover have "fs_nodes st2 n = Some (new_node (take 31 name) False (fs_cwd st) (n_child d))"
      using nd by (simp add: st2_def)
    ultimately obtain buf bs st' where st': "store_data n data st2 = Some (0, st')"
      "fs_nodes st' = (fs_nodes st2)(n \<mapsto> (new_node (take 31 name) False (fs_cwd st) (n_child d))
         \<lparr>n_data := buf, n_size := of_nat (length data)\<rparr>)"
      using store_data_total [OF _ _ assms(4), of st2 n] new_file_not_dir by metis
    have "name \<noteq> []" using assms(3) by auto
    then have run: "fs_write_cwd (Some name) (Some data) st = Some (0, st')"
      using d none new ok(1) link st'(1) fs_new_node_cwd [OF new] by (simp add: fs_write_cwd_def)
    have h': "fs_nodes st' (fs_cwd st) = Some (d\<lparr>n_child := n\<rparr>)"
      "fs_nodes st' n = Some ((new_node (take 31 name) False (fs_cwd st) (n_child d))
         \<lparr>n_data := buf, n_size := of_nat (length data)\<rparr>)"
      "\<And>p. p \<noteq> n \<Longrightarrow> p \<noteq> fs_cwd st \<Longrightarrow> fs_nodes st' p = fs_nodes st p"
      using st'(2) nd ok(8) by (auto simp: st2_def)
    have find': "fs_find_in_dir st' (fs_cwd st) (take 31 name) = Some n"
      using h' ok(1) by (simp add: fs_find_in_dir_def find_loop.simps)
    have "\<not> fs_ok K' st'" for K'
    proof
      assume inv': "fs_ok K' st'"
      note okd = tree_okD(3) [OF fs_okD(4) [OF inv'] h'(1)]
      from node_okD(1) [OF okd] ok(1) h'(2) obtain cs where
        cs: "K' (fs_cwd st) = n # cs" "chain (fs_nodes st') (n_child d) cs"
        by (cases "K' (fs_cwd st)") auto
      have "chain (fs_nodes st') (n_child d) (K (fs_cwd st))"
      proof (rule chain_frame [OF _ node_okD(1) [OF tree_okD(3) [OF t d(1)]]])
        fix b
        assume "b \<in> set (K (fs_cwd st))"
        then have "b \<noteq> n" using ok(4) by metis
        then show "map_option n_sibling (fs_nodes st' b) = map_option n_sibling (fs_nodes st b)"
          using h' d(1) by (cases "b = fs_cwd st") auto
      qed
      then have "cs = K (fs_cwd st)" using cs(2) chain_unique by blast
      then have "old \<in> set cs" using old(3) by simp
      moreover have "name_of (fs_nodes st') old = take 31 name"
      proof (cases "old = fs_cwd st")
        case True
        then show ?thesis using h'(1) old(1,2) d(1) by auto
      next
        case False
        then show ?thesis using h'(3) [of old] nd old(1,2) by (simp add: name_of_def)
      qed
      moreover have "name_of (fs_nodes st') n = take 31 name" using h'(2) by simp
      ultimately show False using node_okD(5) [OF okd] cs(1) by (force simp: image_iff)
    qed
    then show ?thesis using run nd(2) ok(2) find' by (auto simp: fs_inv_def)
  qed
qed

theorem fs_write_cwd_long_name_witness:
  "\<exists>st1 st2 old n. fs_touch (Some (replicate 31 CHR ''x'')) fs_st1 = Some (0, st1) \<and>
     fs_find_in_dir st1 (fs_cwd st1) (replicate 31 CHR ''x'') = Some old \<and>
     fs_write_cwd (Some (replicate 40 CHR ''x'')) (Some ''v'') st1 = Some (0, st2) \<and>
     fs_find_in_dir st2 (fs_cwd st1) (replicate 31 CHR ''x'') = Some n \<and> n \<noteq> old \<and> \<not> fs_inv st2"
proof -
  let ?p = "replicate 31 CHR ''x''"
  have v: "valid_name ?p" by (simp add: valid_name_def cstring_def MAX_NAME_LEN_def)
  have cs: "cstring ?p" using v by (simp add: valid_name_def)
  have "hd ?p = CHR ''x''" "?p \<noteq> []" by simp_all
  then have t: "create_target fs_st1 ?p = Some (fs_root fs_st1, ?p)"
    using fs_st1_find [of ?p] fs_st1_ok(2,4) components_one [OF v]
    by (simp add: create_target_def path_base_def)
  from fs_st1_ok(1) cs show ?thesis
  proof (cases rule: fs_touch_cases)
    case (fail st')
    then show ?thesis using t fs_st1_ok(5) \<open>?p \<noteq> []\<close> by (simp add: room_def MAX_PATH_LEN_def)
  next
    case (ok d c n st1)
    have dc: "d = fs_cwd fs_st1" "c = ?p" using ok(2) t fs_st1_ok(2) by simp_all
    note cr = ok(3) [unfolded dc]
    note C = createdD [OF cr]
    have rt: "fs_nodes fs_st1 (fs_cwd fs_st1) = Some (new_node [slash] True (fs_root fs_st1) NULL)"
      using fs_st1_ok(2,4) by simp
    have old: "fs_find_in_dir st1 (fs_cwd st1) ?p = Some n"
      using created_find [OF cr rt cs] C(12) by simp
    have inv: "fs_inv st1" using C(9) by (auto simp: fs_inv_def)
    have "take 31 (replicate 40 CHR ''x'') = ?p" by simp
    with old have old': "fs_find_in_dir st1 (fs_cwd st1) (take 31 (replicate 40 CHR ''x'')) = Some n" by simp
    have "room st1 (length ''v'' + 57)" using C(10) fs_st1_ok(5) by (simp add: room_def)
    from fs_write_cwd_long_name [OF inv _ _ _ this old' C(1)] obtain n' st2 where
      "fs_write_cwd (Some (replicate 40 CHR ''x'')) (Some ''v'') st1 = Some (0, st2)" "n' \<noteq> n"
      "fs_find_in_dir st2 (fs_cwd st1) (take 31 (replicate 40 CHR ''x'')) = Some n'" "\<not> fs_inv st2"
      by (auto simp: cstring_def data_fits_def)
    then show ?thesis using ok(1) old by auto
  qed
qed

end
