(* ===== verification/Fs_Remove.thy ===== *)
theory Fs_Remove
  imports Fs_Content
begin

text \<open>
  Removal and renaming: \<open>fs_detach_from_parent\<close>, \<open>fs_unlink\<close>, \<open>fs_rmdir\<close> and \<open>fs_rename\<close>.
  The list of the children loses or gains one entry, and the lookups change accordingly.
\<close>

subsection \<open>Detaching a node\<close>

lemma detach_loop_at:
  assumes "chain (fs_nodes st) p (as @ a # bs)" "read_link l st = Some p" "a \<notin> set as"
  shows "detach_loop l a st = detach_loop (if as = [] then l else Sibling_of (last as)) a st \<and>
    read_link (if as = [] then l else Sibling_of (last as)) st = Some a"
  using assms
proof (induction as arbitrary: p l)
  case (Cons b as)
  then obtain m where m: "p = b" "b \<noteq> NULL" "fs_nodes st b = Some m"
    "chain (fs_nodes st) (n_sibling m) (as @ a # bs)" "b \<noteq> a" by auto
  have step: "detach_loop l a st = detach_loop (Sibling_of b) a st"
    using m Cons.prems(2) by (subst detach_loop.simps) simp
  let ?X = "if as = [] then Sibling_of b else Sibling_of (last as)"
  have IH: "detach_loop (Sibling_of b) a st = detach_loop ?X a st \<and> read_link ?X st = Some a"
    by (rule Cons.IH [OF m(4)]) (use m(3) Cons.prems(3) in simp_all)
  have e: "(if b # as = [] then l else Sibling_of (last (b # as))) = ?X" by simp
  show ?case unfolding e using trans [OF step conjunct1 [OF IH]] conjunct2 [OF IH] by (rule conjI)
qed simp

lemma fs_detach_eq:
  assumes t: "tree_ok (fs_nodes st) K" and k: "K d = as @ a # bs" and n: "fs_nodes st a = Some n"
  shows "fs_detach_from_parent a st = Some (st\<lparr>fs_nodes := unlinked d as a n (fs_nodes st)\<rparr>)"
proof -
  have a: "a \<in> set (K d)" using k by simp
  from t a obtain dn where d: "fs_nodes st d = Some dn" "a \<noteq> d" "a \<noteq> NULL" "n_parent n = d"
    by (rule kidD) (use n in auto)
  have d0: "d \<noteq> NULL" using d(1) tree_okD(1) [OF t] by auto
  note okd = tree_okD(3) [OF t d(1)]
  have dist: "distinct (as @ a # bs)" using node_okD(5) [OF okd] k by (metis distinct_map)
  let ?l = "link_to d as"
  have "chain (fs_nodes st) (n_child dn) (as @ a # bs)" using node_okD(1) [OF okd] k by simp
  moreover have "read_link (Child_of d) st = Some (n_child dn)" using d(1) by simp
  ultimately have l: "detach_loop (Child_of d) a st = detach_loop ?l a st" "read_link ?l st = Some a"
    using detach_loop_at [of st "n_child dn" as a bs "Child_of d"] dist
    by (auto simp: link_to_def)
  define h where "h = set_link ?l (n_sibling n) (fs_nodes st)"
  have w: "write_link ?l (n_sibling n) st = Some (st\<lparr>fs_nodes := h\<rparr>)"
    using l(2) by (simp add: write_link_eq h_def)
  have "last as \<noteq> a" if "as \<noteq> []" using dist that by auto
  then have ha: "h a = Some n"
    using n d(2) by (auto simp: h_def link_to_def)
  have "detach_loop ?l a st = Some (st\<lparr>fs_nodes := h(a \<mapsto> n\<lparr>n_sibling := NULL, n_parent := NULL\<rparr>)\<rparr>)"
    using l(2) w ha d(3) n by (subst detach_loop.simps) (simp add: upd_node_def)
  then show ?thesis
    using n d(3,4) d0 l(1) by (simp add: fs_detach_from_parent_def unlinked_def h_def)
qed

lemma fs_ok_unlink:
  assumes inv: "fs_ok K st" and k: "K d = as @ a # bs" and n: "fs_nodes st a = Some n"
  shows "fs_ok (K(d := as @ bs)) (st\<lparr>fs_nodes := unlinked d as a n (fs_nodes st)\<rparr>)"
proof (rule fs_ok_nodes [OF inv, where a = a])
  let ?h = "unlinked d as a n (fs_nodes st)"
  note t = fs_okD(4) [OF inv]
  show "tree_ok ?h (K(d := as @ bs))" by (rule tree_ok_unlink [OF t k n])
  have none: "?h c = None \<longleftrightarrow> fs_nodes st c = None" for c by (rule unlinked_None) (rule n)
  then show "dom ?h \<subseteq> dom (fs_nodes st) \<union> {a}" by (metis UnI1 domIff subsetI)
  show "unat a < heap_top st" using fs_okD(3) [OF inv] n by (auto simp: below_top_def)
  have other: "\<exists>m'. ?h p = Some m' \<and> n_is_dir m' = n_is_dir m \<and> n_data m' = n_data m \<and>
      n_size m' = n_size m \<and> (p \<noteq> a \<longrightarrow> n_parent m' = n_parent m)" if "fs_nodes st p = Some m" for p m
  proof (cases "p = a")
    case True
    then show ?thesis using that n by (simp add: unlinked_self)
  next
    case False
    with that obtain m' where "?h p = Some m'" "n_is_dir m' = n_is_dir m" "n_data m' = n_data m"
      "n_size m' = n_size m" "n_parent m' = n_parent m" by (rule unlinked_other)
    then show ?thesis by simp
  qed
  show "data_ok ?h (fs_bufs st)"
    unfolding data_ok_def
  proof (intro allI impI)
    fix p m'
    assume h': "?h p = Some m'"
    then obtain m where m: "fs_nodes st p = Some m" using none [of p] by (cases "fs_nodes st p") auto
    with other [OF this] h' fs_okD(5) [OF inv]
    show "unat (n_size m') < 2 ^ 20 \<and>
      (n_data m' \<noteq> NULL \<longrightarrow> (\<exists>bs. fs_bufs st (n_data m') = Some bs \<and> unat (n_size m') < length bs))"
      by (auto simp: data_ok_def)
  qed
  show "dir_at ?h p" if "dir_at (fs_nodes st) p" for p
    using that other by (fastforce simp: dir_at_def)
  show "root_at ?h p" if r: "root_at (fs_nodes st) p" for p
  proof -
    have u: "p \<noteq> a" "as = [] \<or> p \<noteq> last as" using root_unlisted [OF t r, of d] k by auto
    obtain m where m: "fs_nodes st p = Some m" "n_is_dir m" "n_parent m = p" "n_sibling m = NULL"
      using r by (auto simp: root_at_def)
    from m(1) u(1) show ?thesis
      by (rule unlinked_other [where d = d and as = as and n = n]) (use m u in \<open>auto simp: root_at_def\<close>)
  qed
qed

text \<open>The search of a directory after the removal.\<close>

lemma unlinked_name: "fs_nodes st a = Some n \<Longrightarrow> name_of (unlinked d as a n (fs_nodes st)) c = name_of (fs_nodes st) c"
proof -
  assume n: "fs_nodes st a = Some n"
  show ?thesis
  proof (cases "c = a")
    case True
    then show ?thesis using n by (simp add: unlinked_self)
  next
    case False
    show ?thesis
    proof (cases "fs_nodes st c")
      case None
      moreover have "unlinked d as a n (fs_nodes st) c = None \<longleftrightarrow> fs_nodes st c = None"
        by (rule unlinked_None) (rule n)
      ultimately show ?thesis by (simp add: name_of_def)
    next
      case (Some m)
      from Some False obtain m' where "unlinked d as a n (fs_nodes st) c = Some m'" "n_name m' = n_name m"
        by (rule unlinked_other)
      then show ?thesis using Some by simp
    qed
  qed
qed

lemma unlinked_find:
  assumes inv: "fs_ok K st" and k: "K d = as @ a # bs" and n: "fs_nodes st a = Some n"
    and st': "st' = st\<lparr>fs_nodes := unlinked d as a n (fs_nodes st)\<rparr>"
    and x: "fs_nodes st x \<noteq> None" "cstring y"
  shows "fs_find_in_dir st' x y = (if x = d \<and> y = n_name n then Some NULL else fs_find_in_dir st x y)"
proof -
  note t = fs_okD(4) [OF inv]
  have t': "tree_ok (fs_nodes st') (K(d := as @ bs))"
    using fs_okD(4) [OF fs_ok_unlink [OF inv k n]] st' by simp
  obtain xn where xn: "fs_nodes st x = Some xn" using x(1) by auto
  have "unlinked d as a n (fs_nodes st) x = None \<longleftrightarrow> fs_nodes st x = None"
    by (rule unlinked_None) (rule n)
  then obtain xn' where xn': "fs_nodes st' x = Some xn'" using x(1) st' by auto
  have nm: "name_of (fs_nodes st') = name_of (fs_nodes st)"
    using unlinked_name [OF n] st' by (simp add: fun_eq_iff)
  obtain dn where d: "fs_nodes st d = Some dn"
    using tree_okD(2) [OF t, of d] k by (cases "fs_nodes st d") auto
  have inj: "distinct (map (name_of (fs_nodes st)) (as @ a # bs))"
    using node_okD(5) [OF tree_okD(3) [OF t d]] k by simp
  have an: "name_of (fs_nodes st) a = n_name n" using n by simp
  have "kid (fs_nodes st') (K(d := as @ bs)) x y =
      (if x = d \<and> y = n_name n then None else kid (fs_nodes st) K x y)"
  proof (cases "x = d")
    case True
    show ?thesis
    proof (cases "y = n_name n")
      case y: True
      have "n_name n \<notin> name_of (fs_nodes st) ` set (as @ bs)" using inj an by force
      then have "kid (fs_nodes st) (K(d := as @ bs)) d y = None" using y by (simp add: kid_None)
      then show ?thesis using True y nm by (simp add: kid_def)
    next
      case y: False
      have "find P (as @ a # bs) = find P (as @ bs)" if "\<not> P a" for P
        using that by (induction as) auto
      then show ?thesis using True y an k nm by (simp add: kid_def)
    qed
  next
    case False
    then show ?thesis using nm by (simp add: kid_def)
  qed
  then show ?thesis
    using fs_find_in_dir_kid [OF t xn x(2)] fs_find_in_dir_kid [OF t' xn' x(2)] by simp
qed

text \<open>A path passes through a node when some prefix of it leads there.\<close>

definition passes :: "'a fs_st_scheme \<Rightarrow> ptr \<Rightarrow> string list \<Rightarrow> ptr \<Rightarrow> bool" where
  "passes st x cs a \<longleftrightarrow> (\<exists>k < length cs. fs_lookup st x (take (Suc k) cs) = Some a)"

lemma passes_Cons:
  "passes st x (y # ys) a \<longleftrightarrow>
     (case fs_find_in_dir st x y of None \<Rightarrow> False
      | Some c \<Rightarrow> c \<noteq> NULL \<and> (c = a \<or> passes st c ys a))"
  unfolding passes_def
  by (auto simp: Ex_less_Suc2 split: option.splits if_splits)

lemma unlinked_lookup:
  assumes inv: "fs_ok K st" and k: "K d = as @ a # bs" and n: "fs_nodes st a = Some n"
    and st': "st' = st\<lparr>fs_nodes := unlinked d as a n (fs_nodes st)\<rparr>"
  shows "fs_nodes st x \<noteq> None \<Longrightarrow> list_all cstring cs \<Longrightarrow>
    fs_lookup st' x cs = (if passes st x cs a then None else fs_lookup st x cs)"
proof (induction cs arbitrary: x)
  case (Cons y ys)
  note t = fs_okD(4) [OF inv]
  from Cons.prems obtain xn where x: "fs_nodes st x = Some xn" "cstring y" "list_all cstring ys" by auto
  note f = unlinked_find [OF inv k n st' Cons.prems(1) x(2)]
  from t x(1,2) show ?case
  proof (cases rule: fs_find_in_dir_cases)
    case none
    then show ?thesis using f by (simp add: passes_Cons)
  next
    case (some c m)
    have ca: "c = a \<longleftrightarrow> x = d \<and> y = n_name n"
    proof
      assume "c = a"
      then have "a \<in> set (K x)" "a \<in> set (K d)" using some(7) k by auto
      then show "x = d \<and> y = n_name n" using kid_unique [OF t] some(4,5) n \<open>c = a\<close> by auto
    next
      assume "x = d \<and> y = n_name n"
      then have "kid (fs_nodes st) K x y = Some a"
        using n k by (intro kid_member [OF t]) auto
      then show "c = a" using some(2) by simp
    qed
    show ?thesis
      using f some(1,3,4) ca Cons.IH [of c] x(3) by (auto simp: passes_Cons)
  qed
qed (simp add: passes_def)

text \<open>A node that a path with a component leads to has a parent that lists it.\<close>

lemma lookup_kid:
  assumes inv: "fs_ok K st" and x: "fs_nodes st x \<noteq> None" "list_all cstring cs" "cs \<noteq> []"
    and p: "fs_lookup st x cs = Some p"
  obtains d n where "p \<in> set (K d)" "fs_lookup st x (butlast cs) = Some d" "fs_nodes st p = Some n"
    "n_name n = last cs" "n_parent n = d"
proof -
  note t = fs_okD(4) [OF inv]
  have split: "cs = butlast cs @ [last cs]" using x(3) by simp
  have cb: "list_all cstring (butlast cs)" "cstring (last cs)"
    using x(2,3) by (auto simp: list_all_iff dest: in_set_butlastD)
  from p obtain d where d: "fs_lookup st x (butlast cs) = Some d" "fs_find_in_dir st d (last cs) = Some p" "p \<noteq> NULL"
    by (subst (asm) split, auto simp: fs_lookup_append simp del: append_butlast_last_id split: option.splits if_splits)
  obtain dn where "fs_nodes st d = Some dn" using fs_lookup_node [OF t x(1) cb(1) d(1)] by auto
  from t this cb(2) show thesis
    by (cases rule: fs_find_in_dir_cases) (use that d in auto)
qed

subsection \<open>Removing files and directories\<close>

text \<open>What a removal does to a state: the node is gone from its directory.\<close>

definition removed :: "'a fs_st_scheme \<Rightarrow> ptr \<Rightarrow> 'a fs_st_scheme \<Rightarrow> bool" where
  "removed st p st' \<longleftrightarrow>
     fs_inv st' \<and> fs_root st' = fs_root st \<and> fs_cwd st' = fs_cwd st \<and>
     (\<forall>x cs. fs_nodes st x \<noteq> None \<longrightarrow> list_all cstring cs \<longrightarrow>
        fs_lookup st' x cs = (if passes st x cs p then None else fs_lookup st x cs))"

lemma fs_detach_removed:
  assumes inv: "fs_ok K st" and p: "p \<in> set (K d)" "fs_nodes st p = Some n"
  obtains as bs st' where "fs_detach_from_parent p st = Some st'" "removed st p st'"
    "K d = as @ p # bs" "st' = st\<lparr>fs_nodes := unlinked d as p n (fs_nodes st)\<rparr>"
    "fs_ok (K(d := as @ bs)) st'"
proof -
  obtain as bs where k: "K d = as @ p # bs" using p(1) by (meson split_list)
  let ?st' = "st\<lparr>fs_nodes := unlinked d as p n (fs_nodes st)\<rparr>"
  have "removed st p ?st'"
    using fs_ok_unlink [OF inv k p(2)] unlinked_lookup [OF inv k p(2) refl]
    by (auto simp: removed_def fs_inv_def)
  then show thesis
    using that fs_detach_eq [OF fs_okD(4) [OF inv] k p(2)] k fs_ok_unlink [OF inv k p(2)] by blast
qed

lemma components_cstring: "cstring p \<Longrightarrow> list_all cstring (components p)"
  using components_valid by (auto simp: list_all_iff valid_name_def)

lemma components_relative:
  assumes "cstring p" "p \<noteq> []" "components p = []"
  shows "path_base st p = fs_root st"
proof -
  obtain c s where p: "p = c # s" using assms(2) by (cases p) auto
  have "c = slash" using assms(3) p by (auto simp: components_Nil_iff split: if_splits)
  then show ?thesis using p by (simp add: path_base_def)
qed

text \<open>The node a path resolves to: the root, or a node that its parent lists.\<close>

lemma resolve_cases:
  assumes inv: "fs_ok K st" and p: "cstring path" "path \<noteq> []"
  obtains (none) "fs_lookup st (path_base st path) (components path) = None"
      "fs_resolve st (Some path) False = Some (NULL, None)"
  | (root) "fs_lookup st (path_base st path) (components path) = Some (fs_root st)"
      "fs_resolve st (Some path) False = Some (fs_root st, None)" "components path = []"
  | (kid) q d n where "fs_lookup st (path_base st path) (components path) = Some q"
      "fs_resolve st (Some path) False = Some (q, None)" "q \<in> set (K d)" "fs_nodes st q = Some n"
      "n_parent n = d" "q \<noteq> NULL" "d \<noteq> NULL" "n_name n = last (components path)" "components path \<noteq> []"
      "fs_lookup st (path_base st path) (butlast (components path)) = Some d"
proof (cases "components path = []")
  case True
  then have "fs_lookup st (path_base st path) (components path) = Some (fs_root st)"
    using components_relative [OF p True] by simp
  then show thesis using root True fs_resolve_node [OF inv p] by simp
next
  case False
  note r = fs_resolve_node [OF inv p]
  show thesis
  proof (cases "fs_lookup st (path_base st path) (components path)")
    case None
    then show thesis using none r by simp
  next
    case (Some q)
    from inv path_base_node [OF inv] components_cstring [OF p(1)] False Some
    obtain d n where q: "q \<in> set (K d)" "fs_lookup st (path_base st path) (butlast (components path)) = Some d"
      "fs_nodes st q = Some n" "n_name n = last (components path)" "n_parent n = d" by (rule lookup_kid)
    from fs_okD(4) [OF inv] q(1) obtain dn where "fs_nodes st d = Some dn" "q \<noteq> NULL" by (rule kidD)
    moreover have "d \<noteq> NULL" using calculation(1) tree_okD(1) [OF fs_okD(4) [OF inv]] by auto
    ultimately show thesis using kid [of q d n] q Some r False by simp
  qed
qed

lemma root_node:
  assumes "fs_ok K st"
  obtains r where "fs_nodes st (fs_root st) = Some r" "n_is_dir r" "fs_root st \<noteq> NULL"
proof -
  obtain r where r: "fs_nodes st (fs_root st) = Some r" "n_is_dir r"
    using fs_okD(6) [OF assms] by (auto simp: root_at_def)
  moreover have "fs_root st \<noteq> NULL" using r tree_okD(1) [OF fs_okD(4) [OF assms]] by auto
  ultimately show thesis by (rule that)
qed

lemma fs_unlink_cases:
  assumes inv: "fs_ok K st" and p: "cstring path" "path \<noteq> []"
  obtains (fail) "fs_unlink (Some path) st = Some (- 1, st)"
      "\<And>q n. fs_lookup st (path_base st path) (components path) = Some q \<Longrightarrow> fs_nodes st q = Some n \<Longrightarrow> n_is_dir n"
  | (ok) q n st' where "fs_unlink (Some path) st = Some (0, st')" "removed st q st'"
      "fs_lookup st (path_base st path) (components path) = Some q" "fs_nodes st q = Some n" "\<not> n_is_dir n"
  using inv p
proof (cases rule: resolve_cases)
  case none
  then show thesis using that(1) by (simp add: fs_unlink_def p)
next
  case root
  from inv obtain r where "fs_nodes st (fs_root st) = Some r" "n_is_dir r" "fs_root st \<noteq> NULL" by (rule root_node)
  then show thesis by (intro that(1)) (use root in \<open>auto simp: fs_unlink_def p\<close>)
next
  case (kid q d n)
  show thesis
  proof (cases "n_is_dir n")
    case True
    then show thesis by (intro that(1)) (use kid in \<open>auto simp: fs_unlink_def p\<close>)
  next
    case False
    from inv kid(3,4) obtain st' where st': "fs_detach_from_parent q st = Some st'" "removed st q st'"
      by (rule fs_detach_removed)
    then have "fs_unlink (Some path) st = Some (0, st')"
      using kid False p by (simp add: fs_unlink_def)
    then show thesis using that(2) st'(2) kid False by blast
  qed
qed

lemma fs_rmdir_cases:
  assumes inv: "fs_ok K st" and p: "cstring path" "path \<noteq> []"
  obtains (fail) "fs_rmdir (Some path) st = Some (- 1, st)"
      "\<And>q n. fs_lookup st (path_base st path) (components path) = Some q \<Longrightarrow> fs_nodes st q = Some n \<Longrightarrow>
        \<not> n_is_dir n \<or> n_child n \<noteq> NULL \<or> q = fs_root st"
  | (ok) q n st' where "fs_rmdir (Some path) st = Some (0, st')" "removed st q st'"
      "fs_lookup st (path_base st path) (components path) = Some q" "fs_nodes st q = Some n" "n_is_dir n"
      "n_child n = NULL" "q \<noteq> fs_root st"
  using inv p
proof (cases rule: resolve_cases)
  case none
  then show thesis using that(1) by (simp add: fs_rmdir_def p)
next
  case root
  from inv obtain r where "fs_nodes st (fs_root st) = Some r" "n_is_dir r" "fs_root st \<noteq> NULL" by (rule root_node)
  then show thesis by (intro that(1)) (use root in \<open>auto simp: fs_rmdir_def p\<close>)
next
  case (kid q d n)
  show thesis
  proof (cases "\<not> n_is_dir n \<or> n_child n \<noteq> NULL \<or> q = fs_root st")
    case True
    then have "fs_rmdir (Some path) st = Some (- 1, st)" using kid p by (auto simp: fs_rmdir_def)
    then show thesis by (intro that(1)) (use kid True in auto)
  next
    case False
    from inv kid(3,4) obtain st' where st': "fs_detach_from_parent q st = Some st'" "removed st q st'"
      by (rule fs_detach_removed)
    then have "fs_rmdir (Some path) st = Some (0, st')"
      using kid False p by (simp add: fs_rmdir_def)
    then show thesis using that(2) st'(2) kid False by blast
  qed
qed

subsection \<open>Renaming\<close>

lemma edges_lookup:
  assumes inv: "fs_ok K st"
  shows "(x, y) \<in> (edges K)\<^sup>* \<Longrightarrow> \<exists>cs. list_all cstring cs \<and> fs_lookup st x cs = Some y"
proof (induction rule: rtrancl_induct)
  case base
  then show ?case by (intro exI [of _ "[]"]) simp
next
  case (step y z)
  then obtain cs where cs: "list_all cstring cs" "fs_lookup st x cs = Some y" by blast
  note t = fs_okD(4) [OF inv]
  have z: "z \<in> set (K y)" using step(2) by (simp add: edges_def)
  from t z obtain n m where m: "fs_nodes st y = Some n" "fs_nodes st z = Some m" "valid_name (n_name m)" "z \<noteq> NULL"
    by (rule kidD)
  have "kid (fs_nodes st) K y (n_name m) = Some z" using m(2) by (intro kid_member [OF t z]) simp
  then have "fs_find_in_dir st y (n_name m) = Some z"
    using fs_find_in_dir_kid [OF t m(1)] m(3) by (simp add: valid_name_def)
  then have "fs_lookup st x (cs @ [n_name m]) = Some z"
    using cs(2) m(4) by (simp add: fs_lookup_append)
  moreover have "list_all cstring (cs @ [n_name m])" using cs(1) m(3) by (simp add: valid_name_def)
  ultimately show ?case by blast
qed

text \<open>The search of the directories after a node is put in front of a list.\<close>

lemma linked_find:
  assumes A: "fs_ok K stA" and B: "fs_ok (K(d := a # K d)) stB" and u: "\<And>e. a \<notin> set (K e)"
    and nm: "\<And>b. b \<noteq> a \<Longrightarrow> name_of (fs_nodes stB) b = name_of (fs_nodes stA) b"
      "name_of (fs_nodes stB) a = c"
    and x: "fs_nodes stA x \<noteq> None" "fs_nodes stB x \<noteq> None" "cstring y"
  shows "fs_find_in_dir stB x y = (if x = d \<and> y = c then Some a else fs_find_in_dir stA x y)"
proof -
  have "find (\<lambda>b. name_of (fs_nodes stB) b = y) (K x) = find (\<lambda>b. name_of (fs_nodes stA) b = y) (K x)"
  proof (intro find_cong refl)
    fix b
    assume "b \<in> set (K x)"
    then have "b \<noteq> a" using u by metis
    then show "(name_of (fs_nodes stB) b = y) = (name_of (fs_nodes stA) b = y)" using nm(1) by simp
  qed
  then show ?thesis
    using fs_find_in_dir_kid [OF fs_okD(4) [OF A] _ x(3)] fs_find_in_dir_kid [OF fs_okD(4) [OF B] _ x(3)]
      x(1,2) nm(2) by (auto simp: kid_def)
qed

lemma data_ok_upd:
  assumes "data_ok h b" "h p = Some m" "n_data x = n_data m" "n_size x = n_size m"
  shows "data_ok (h(p \<mapsto> x)) b"
proof -
  have "unat (n_size m) < 2 ^ 20 \<and>
     (n_data m \<noteq> NULL \<longrightarrow> (\<exists>bs. b (n_data m) = Some bs \<and> unat (n_size m) < length bs))"
    using assms(1,2) unfolding data_ok_def by blast
  then show ?thesis using assms(1,3,4) by (simp add: data_ok_def)
qed

text \<open>
  The move itself, for a node that the target directory does not lie under: the new list of
  children, and the search of every directory.
\<close>

lemma fs_rename_move:
  assumes inv: "fs_ok K st" and src: "src \<in> set (K sd)" "fs_nodes st src = Some n"
    and d: "fs_nodes st d = Some dn" "n_is_dir dn" and c: "valid_name c" "fs_find_in_dir st d c = Some NULL"
    and free: "(src, d) \<notin> (edges K)\<^sup>*"
  obtains K' st' where
    "do { st \<leftarrow> fs_detach_from_parent src st;
          st \<leftarrow> upd_node src (n_name_update (\<lambda>_. kstrncpy c MAX_NAME_LEN)) st;
          link_child d src st } = Some st'"
    "fs_ok K' st'" "fs_root st' = fs_root st" "fs_cwd st' = fs_cwd st"
    "\<And>x y. fs_nodes st x \<noteq> None \<Longrightarrow> cstring y \<Longrightarrow> fs_find_in_dir st' x y =
       (if x = d \<and> y = c then Some src
        else if x = sd \<and> y = n_name n then Some NULL else fs_find_in_dir st x y)"
    "\<And>p. fs_nodes st p \<noteq> None \<Longrightarrow> content st' p = content st p"
proof -
  note t = fs_okD(4) [OF inv]
  from inv src obtain as bs st1 where st1: "fs_detach_from_parent src st = Some st1"
    "K sd = as @ src # bs" "st1 = st\<lparr>fs_nodes := unlinked sd as src n (fs_nodes st)\<rparr>"
    "fs_ok (K(sd := as @ bs)) st1" by (rule fs_detach_removed)
  let ?K1 = "K(sd := as @ bs)"
  let ?h1 = "unlinked sd as src n (fs_nodes st)"
  have dist: "distinct (as @ src # bs)"
  proof -
    from t src(1) obtain sdn where "fs_nodes st sd = Some sdn" by (rule kidD)
    then show ?thesis using node_okD(5) [OF tree_okD(3) [OF t]] st1(2) by (metis distinct_map)
  qed
  have u: "src \<notin> set (?K1 e)" for e
    using dist kid_unique [OF t src(1), of e] by auto
  have sub: "edges ?K1 \<subseteq> edges K" using st1(2) by (auto simp: edges_def split: if_splits)
  have ne: "src \<noteq> d" using free by auto
  have h1: "?h1 src = Some (n\<lparr>n_sibling := NULL, n_parent := NULL\<rparr>)" by (rule unlinked_self)
  define x where "x = n\<lparr>n_sibling := NULL, n_parent := NULL, n_name := c\<rparr>"
  have short: "kstrncpy c MAX_NAME_LEN = c" using c(1) by (auto simp: valid_name_def intro: kstrncpy_short)
  let ?h2 = "?h1(src \<mapsto> x)"
  define st2 where "st2 = st1\<lparr>fs_nodes := ?h2\<rparr>"
  have up: "upd_node src (n_name_update (\<lambda>_. kstrncpy c MAX_NAME_LEN)) st1 = Some st2"
    using h1 st1(3) short by (simp add: upd_node_def st2_def x_def)
  note t1 = fs_okD(4) [OF st1(4)]
  have nodes1: "fs_nodes st1 = ?h1" using st1(3) by simp
  note ok1 = tree_okD(3) [OF t1, unfolded nodes1, OF h1]
  have src0: "src \<noteq> NULL" using t src(1) by (rule kidD)
  have t2: "tree_ok ?h2 ?K1"
    using t1 [unfolded nodes1] u src0
  proof (rule tree_ok_unlisted)
    show "cstring (n_name x)" "length (n_name x) < MAX_NAME_LEN"
      using c(1) by (simp_all add: x_def valid_name_def)
    show "n_parent x = NULL \<or> n_parent x = src \<or> ?h1 (n_parent x) \<noteq> None" by (simp add: x_def)
    show "n_is_dir x" if "?K1 src \<noteq> []" using node_okD(4) [OF ok1 that] by (simp add: x_def)
    show "chain ?h1 (n_child x) (?K1 src)" using node_okD(1) [OF ok1] by (simp add: x_def)
  qed
  have inv2: "fs_ok ?K1 st2"
    unfolding st2_def
  proof (rule fs_ok_nodes [OF st1(4) t2, where a = src])
    show "dom ?h2 \<subseteq> dom (fs_nodes st1) \<union> {src}" using nodes1 by auto
    show "unat src < heap_top st1"
      using fs_okD(3) [OF st1(4)] nodes1 h1 by (auto simp: below_top_def)
    show "data_ok ?h2 (fs_bufs st1)"
      using data_ok_upd [of ?h1 "fs_bufs st1" src "n\<lparr>n_sibling := NULL, n_parent := NULL\<rparr>" x]
        fs_okD(5) [OF st1(4)] nodes1 h1 by (simp add: x_def)
    show "dir_at ?h2 p" if "dir_at (fs_nodes st1) p" for p
      using that nodes1 h1 by (auto simp: dir_at_def x_def)
    show "root_at ?h2 p" if "root_at (fs_nodes st1) p" for p
      using that nodes1 h1 src0 by (auto simp: root_at_def x_def)
  qed
  from d(1) ne obtain dn1 where dn1: "?h1 d = Some dn1" "n_is_dir dn1 = n_is_dir dn"
    by (metis unlinked_other)
  have n2: "fs_nodes st2 src = Some x" "fs_nodes st2 d = Some dn1" using dn1 ne by (simp_all add: st2_def)
  let ?h3 = "?h2(src \<mapsto> x\<lparr>n_parent := d, n_sibling := n_child dn1\<rparr>, d \<mapsto> dn1\<lparr>n_child := src\<rparr>)"
  define st3 where "st3 = st2\<lparr>fs_nodes := ?h3\<rparr>"
  have link: "link_child d src st2 = Some st3"
    using link_child_eq [OF n2 ne] by (simp add: st3_def st2_def)
  have nm1: "name_of ?h1 b = name_of (fs_nodes st) b" for b by (rule unlinked_name [OF src(2)])
  have cd: "cstring c" using c(1) by (simp add: valid_name_def)
  have "kid (fs_nodes st) K d c = None"
    using t d(1) cd by (cases rule: fs_find_in_dir_cases) (use c(2) in auto)
  then have old: "c \<notin> name_of (fs_nodes st) ` set (K d)" by (simp add: kid_None)
  have fresh: "c \<notin> name_of ?h2 ` set (?K1 d)"
  proof
    assume "c \<in> name_of ?h2 ` set (?K1 d)"
    then obtain b where b: "b \<in> set (?K1 d)" "name_of ?h2 b = c" by blast
    have "b \<noteq> src" using u [of d] b(1) by blast
    then have "name_of (fs_nodes st) b = c" using b(2) nm1 by (simp add: name_of_upd)
    moreover have "b \<in> set (K d)" using b(1) st1(2) by (auto split: if_splits)
    ultimately show False using old by blast
  qed
  let ?K3 = "?K1(d := src # ?K1 d)"
  have free1: "(src, d) \<notin> (edges ?K1)\<^sup>*" using free rtrancl_mono [OF sub] by blast
  have t3: "tree_ok ?h3 ?K3"
  proof (rule tree_ok_link [OF t2 u _ _ _ ne free1, where x = x and d = dn1])
    show "?h2 src = Some x" "?h2 d = Some dn1" using dn1(1) ne by simp_all
    show "n_is_dir dn1" using dn1(2) d(2) by simp
    show "valid_name (n_name x)" using c(1) by (simp add: x_def)
    show "n_name x \<notin> name_of ?h2 ` set (?K1 d)" using fresh by (simp add: x_def)
  qed (rule refl)
  have inv3: "fs_ok ?K3 st3"
    unfolding st3_def
  proof (rule fs_ok_nodes [OF inv2 t3, where a = src])
    show "dom ?h3 \<subseteq> dom (fs_nodes st2) \<union> {src}" using n2 by (auto simp: st2_def)
    show "unat src < heap_top st2"
      using fs_okD(3) [OF inv2] n2 by (auto simp: below_top_def)
    have "data_ok ?h2 (fs_bufs st2)" using fs_okD(5) [OF inv2] by (simp add: st2_def)
    then have "data_ok (?h2(src \<mapsto> x\<lparr>n_parent := d, n_sibling := n_child dn1\<rparr>)) (fs_bufs st2)"
      by (rule data_ok_upd [where m = x]) simp_all
    then show "data_ok ?h3 (fs_bufs st2)"
      by (rule data_ok_upd [where m = dn1]) (use dn1 ne in simp_all)
    show "dir_at ?h3 p" if "dir_at (fs_nodes st2) p" for p
      using that n2 by (auto simp: dir_at_def st2_def)
    have "\<not> root_at (fs_nodes st2) src" using n2 src0 by (auto simp: root_at_def x_def)
    then show "root_at ?h3 p" if "root_at (fs_nodes st2) p" for p
      using that n2 by (auto simp: root_at_def st2_def split: if_splits)
  qed
  have none1: "?h1 p = None \<longleftrightarrow> fs_nodes st p = None" for p by (rule unlinked_None) (rule src(2))
  have find3: "fs_find_in_dir st3 e y = (if e = d \<and> y = c then Some src
      else if e = sd \<and> y = n_name n then Some NULL else fs_find_in_dir st e y)"
    if e: "fs_nodes st e \<noteq> None" "cstring y" for e y
  proof -
    have "fs_find_in_dir st3 e y = (if e = d \<and> y = c then Some src else fs_find_in_dir st1 e y)"
    proof (rule linked_find [OF st1(4) inv3 u _ _ _ _ e(2)])
      show "name_of (fs_nodes st3) b = name_of (fs_nodes st1) b" if "b \<noteq> src" for b
        using that nodes1 dn1 by (simp add: st3_def name_of_def)
      show "name_of (fs_nodes st3) src = c" using ne by (simp add: st3_def x_def)
      show "fs_nodes st1 e \<noteq> None" using nodes1 none1 [of e] e(1) by simp
      then show "fs_nodes st3 e \<noteq> None" using nodes1 by (simp add: st3_def)
    qed
    then show ?thesis by (simp only: unlinked_find [OF inv st1(2) src(2) st1(3) e])
  qed
  have cont: "content st3 p = content st p" if p: "fs_nodes st p \<noteq> None" for p
  proof -
    obtain m where m: "fs_nodes st p = Some m" using p by auto
    have "\<exists>m'. fs_nodes st3 p = Some m' \<and> n_is_dir m' = n_is_dir m \<and> n_data m' = n_data m \<and> n_size m' = n_size m"
    proof (cases "p = src")
      case True
      then show ?thesis using m src(2) ne by (simp add: st3_def x_def)
    next
      case False
      with m obtain m1 where m1: "?h1 p = Some m1" "n_is_dir m1 = n_is_dir m" "n_data m1 = n_data m" "n_size m1 = n_size m"
        by (rule unlinked_other)
      then show ?thesis using False dn1 by (cases "p = d") (simp_all add: st3_def)
    qed
    then obtain m' where "fs_nodes st3 p = Some m'" "n_is_dir m' = n_is_dir m" "n_data m' = n_data m"
      "n_size m' = n_size m" by blast
    then show ?thesis
      by (rule content_frame [OF inv m]) (simp_all add: st3_def st2_def st1(3))
  qed
  show thesis
    by (rule that [OF _ inv3 _ _ find3 cont])
      (use st1(1) up link in \<open>simp_all add: st3_def st2_def st1(3)\<close>)
qed

lemma fs_rename_unfold:
  assumes inv: "fs_ok K st" and p: "cstring old" "old \<noteq> []" "cstring new" "new \<noteq> []"
    and src: "fs_lookup st (path_base st old) (components old) = Some src" "src \<noteq> fs_root st"
    and t: "create_target st new = Some (d, c)"
  shows "fs_rename (Some old) (Some new) st =
    do { st \<leftarrow> fs_detach_from_parent src st;
         st \<leftarrow> upd_node src (n_name_update (\<lambda>_. kstrncpy c MAX_NAME_LEN)) st;
         st \<leftarrow> link_child d src st; Some (0, st) }"
  using inv p(3,4)
proof (cases rule: resolve_target)
  case (fail par lst)
  then show ?thesis using t by simp
next
  case (target d' dn c')
  have same: "d' = d" "c' = c" using target(1) t by simp_all
  have c: "c \<noteq> []" using target(3) same by (simp add: valid_name_def)
  from inv p(1,2) show ?thesis
  proof (cases rule: resolve_cases)
    case (kid q sd n)
    then show ?thesis
      using src target same c by (simp add: fs_rename_def)
  qed (use src in simp_all)
qed

subsection \<open>Properties\<close>

lemma fs_st1_create:
  assumes "valid_name c"
  obtains (touch) n st1 where "fs_touch (Some (slash # c)) fs_st1 = Some (0, st1)"
    "created (\<lambda>_. []) fs_st1 (fs_root fs_st1) c False n st1"
    "fs_lookup st1 (path_base st1 (slash # c)) (components (slash # c)) = Some n"
proof -
  note t = fs_st1_target [OF assms]
  have len: "length (slash # c) < MAX_PATH_LEN" "cstring (slash # c)" "cstring c"
    using assms by (simp_all add: valid_name_def MAX_NAME_LEN_def MAX_PATH_LEN_def)
  from fs_st1_ok(1) len(2) show thesis
  proof (cases rule: fs_touch_cases)
    case (fail st')
    then show thesis using t len(1) fs_st1_ok(5) by (simp add: room_def)
  next
    case (ok d c' n st1)
    have same: "d = fs_root fs_st1" "c' = c" using ok(2) t by simp_all
    note cr = ok(3) [unfolded same]
    have "fs_find_in_dir st1 (fs_root fs_st1) c = Some n"
      using created_find [OF cr _ len(3)] fs_st1_ok(4) by simp
    then have "fs_lookup st1 (path_base st1 (slash # c)) (components (slash # c)) = Some n"
      using createdD(1,11) [OF cr] components_one [OF assms] by (simp add: path_base_def)
    then show thesis using that ok(1) cr by blast
  qed
qed

lemma fs_st1_mkdir:
  assumes "valid_name c"
  obtains n st1 where "fs_mkdir (Some (slash # c)) fs_st1 = Some (0, st1)"
    "created (\<lambda>_. []) fs_st1 (fs_root fs_st1) c True n st1"
    "fs_lookup st1 (path_base st1 (slash # c)) (components (slash # c)) = Some n"
proof -
  note t = fs_st1_target [OF assms]
  have len: "length (slash # c) < MAX_PATH_LEN" "cstring (slash # c)" "cstring c"
    using assms by (simp_all add: valid_name_def MAX_NAME_LEN_def MAX_PATH_LEN_def)
  from fs_st1_ok(1) len(2) show thesis
  proof (cases rule: fs_mkdir_cases)
    case (fail st')
    then show thesis using t len(1) fs_st1_ok(5) by (simp add: room_def)
  next
    case (ok d c' n st1)
    have same: "d = fs_root fs_st1" "c' = c" using ok(2) t by simp_all
    note cr = ok(3) [unfolded same]
    have "fs_find_in_dir st1 (fs_root fs_st1) c = Some n"
      using created_find [OF cr _ len(3)] fs_st1_ok(4) by simp
    then have "fs_lookup st1 (path_base st1 (slash # c)) (components (slash # c)) = Some n"
      using createdD(1,11) [OF cr] components_one [OF assms] by (simp add: path_base_def)
    then show thesis using that ok(1) cr by blast
  qed
qed

text \<open>
  C16: \<open>fs_unlink\<close> always returns and keeps the invariant. It returns 0 exactly when the path
  leads to a file, and then every path through that file stops resolving and every other
  path leads where it led; otherwise it returns -1 and the state is unchanged.
\<close>

theorem fs_unlink_spec:
  assumes "fs_inv st" "cstring path" "path \<noteq> []"
  shows "\<exists>r st'. fs_unlink (Some path) st = Some (r, st') \<and> fs_inv st' \<and>
    (case fs_lookup st (path_base st path) (components path) of
       None \<Rightarrow> r = - 1 \<and> st' = st
     | Some q \<Rightarrow> if dir_at (fs_nodes st) q then r = - 1 \<and> st' = st
         else r = 0 \<and> removed st q st' \<and> fs_lookup st' (path_base st path) (components path) = None)"
proof -
  from assms(1) obtain K where inv: "fs_ok K st" by (auto simp: fs_inv_def)
  from inv assms(2,3) show ?thesis
  proof (cases rule: fs_unlink_cases)
    case fail
    have "dir_at (fs_nodes st) q"
      if q: "fs_lookup st (path_base st path) (components path) = Some q" for q
      using fail(2) [OF q] fs_lookup_node [OF fs_okD(4) [OF inv] path_base_node [OF inv]
          components_cstring [OF assms(2)] q] by (auto simp: dir_at_def)
    then show ?thesis using fail(1) assms(1) by (auto split: option.split)
  next
    case (ok q n st')
    have ne: "components path \<noteq> []"
    proof
      assume "components path = []"
      then have "q = fs_root st" using ok(3) components_relative [OF assms(2,3), of st] by simp
      then show False using ok(4,5) root_node [OF inv] by (metis option.inject)
    qed
    then have "passes st (path_base st path) (components path) q"
      unfolding passes_def using ok(3) by (intro exI [of _ "length (components path) - 1"]) simp
    then have "fs_lookup st' (path_base st path) (components path) = None"
      using ok(2) path_base_node [OF inv, of path] components_cstring [OF assms(2)] by (simp add: removed_def)
    then show ?thesis using ok by (auto simp: removed_def dir_at_def)
  qed
qed

theorem fs_unlink_spec_witness:
  "\<exists>st1 st2. fs_touch (Some ''/a'') fs_st1 = Some (0, st1) \<and> fs_unlink (Some ''/a'') st1 = Some (0, st2) \<and>
     fs_lookup st2 (path_base st1 ''/a'') (components ''/a'') = None \<and> fs_inv st2"
proof -
  have "valid_name ''a''" by (simp add: valid_name_def MAX_NAME_LEN_def)
  then obtain n st1 where st1: "fs_touch (Some ''/a'') fs_st1 = Some (0, st1)"
    "created (\<lambda>_. []) fs_st1 (fs_root fs_st1) ''a'' False n st1"
    "fs_lookup st1 (path_base st1 ''/a'') (components ''/a'') = Some n" by (rule fs_st1_create)
  note C = createdD [OF st1(2)]
  have "fs_inv st1" using C(9) by (auto simp: fs_inv_def)
  from fs_unlink_spec [OF this, of "''/a''"] show ?thesis
    using st1(1,3) C(19) by (auto simp: dir_at_def)
qed

text \<open>
  C17: \<open>fs_rmdir\<close> always returns and keeps the invariant. It returns 0 exactly when the path
  leads to a directory without entries that is not the root; then paths through it stop
  resolving and no other path changes. The working directory is not excluded.
\<close>

theorem fs_rmdir_spec:
  assumes "fs_inv st" "cstring path" "path \<noteq> []"
  shows "\<exists>r st'. fs_rmdir (Some path) st = Some (r, st') \<and> fs_inv st' \<and>
    (case fs_lookup st (path_base st path) (components path) of
       None \<Rightarrow> r = - 1 \<and> st' = st
     | Some q \<Rightarrow>
         if (\<exists>n. fs_nodes st q = Some n \<and> n_is_dir n \<and> n_child n = NULL) \<and> q \<noteq> fs_root st
         then r = 0 \<and> removed st q st' else r = - 1 \<and> st' = st)"
proof -
  from assms(1) obtain K where inv: "fs_ok K st" by (auto simp: fs_inv_def)
  from inv assms(2,3) show ?thesis
  proof (cases rule: fs_rmdir_cases)
    case fail
    then show ?thesis using assms(1) by (auto split: option.split)
  next
    case (ok q n st')
    then show ?thesis by (auto simp: removed_def)
  qed
qed

theorem fs_rmdir_spec_witness:
  "\<exists>st1 st2 n. fs_mkdir (Some ''/d'') fs_st1 = Some (0, st1) \<and> fs_rmdir (Some ''/d'') st1 = Some (0, st2) \<and>
     removed st1 n st2"
proof -
  have "valid_name ''d''" by (simp add: valid_name_def MAX_NAME_LEN_def)
  then obtain n st1 where st1: "fs_mkdir (Some ''/d'') fs_st1 = Some (0, st1)"
    "created (\<lambda>_. []) fs_st1 (fs_root fs_st1) ''d'' True n st1"
    "fs_lookup st1 (path_base st1 ''/d'') (components ''/d'') = Some n" by (rule fs_st1_mkdir)
  note C = createdD [OF st1(2)]
  have "fs_inv st1" using C(9) by (auto simp: fs_inv_def)
  moreover have "n \<noteq> fs_root st1" using C(4,11) by simp
  ultimately show ?thesis
    using st1(1,3) C(19) fs_rmdir_spec [of st1 "''/d''"] by auto
qed

text \<open>
  C18: \<open>fs_rename\<close> of anything but the root to a path that can be created, whose directory does
  not lie below what is moved, returns 0 and keeps the invariant; the only changes in any
  directory are the new entry, which is the node that was renamed, and the old entry, which
  is gone, and every file keeps its content.
\<close>

theorem fs_rename_spec:
  assumes "fs_inv st" "cstring old" "old \<noteq> []" "cstring new" "new \<noteq> []"
    and "fs_lookup st (path_base st old) (components old) = Some src" "src \<noteq> fs_root st"
    and "create_target st new = Some (d, c)"
    and "\<And>cs. list_all cstring cs \<Longrightarrow> fs_lookup st src cs \<noteq> Some d"
  shows "\<exists>n st'. fs_nodes st src = Some n \<and> fs_rename (Some old) (Some new) st = Some (0, st') \<and>
    fs_inv st' \<and> fs_root st' = fs_root st \<and> fs_cwd st' = fs_cwd st \<and>
    (\<forall>x y. fs_nodes st x \<noteq> None \<longrightarrow> cstring y \<longrightarrow> fs_find_in_dir st' x y =
       (if x = d \<and> y = c then Some src
        else if x = n_parent n \<and> y = n_name n then Some NULL else fs_find_in_dir st x y)) \<and>
    (\<forall>p. fs_nodes st p \<noteq> None \<longrightarrow> content st' p = content st p)"
proof -
  from assms(1) obtain K where inv: "fs_ok K st" by (auto simp: fs_inv_def)
  from inv assms(2,3) show ?thesis
  proof (cases rule: resolve_cases)
    case (kid q sd n)
    have q: "q = src" using kid(1) assms(6) by simp
    from inv assms(4,5) show ?thesis
    proof (cases rule: resolve_target)
      case (target d' dn c')
      have same: "d' = d" "c' = c" using target(1) assms(8) by simp_all
      have "(src, d) \<notin> (edges K)\<^sup>*" using edges_lookup [OF inv] assms(9) by blast
      from inv kid(3,4) [unfolded q] target(4-5,3,6) [unfolded same] this obtain K' st' where st':
        "do { st \<leftarrow> fs_detach_from_parent src st;
              st \<leftarrow> upd_node src (n_name_update (\<lambda>_. kstrncpy c MAX_NAME_LEN)) st;
              link_child d src st } = Some st'"
        "fs_ok K' st'" "fs_root st' = fs_root st" "fs_cwd st' = fs_cwd st"
        "\<And>x y. fs_nodes st x \<noteq> None \<Longrightarrow> cstring y \<Longrightarrow> fs_find_in_dir st' x y =
           (if x = d \<and> y = c then Some src
            else if x = sd \<and> y = n_name n then Some NULL else fs_find_in_dir st x y)"
        "\<And>p. fs_nodes st p \<noteq> None \<Longrightarrow> content st' p = content st p"
        by (rule fs_rename_move) blast
      have "fs_rename (Some old) (Some new) st = Some (0, st')"
        using fs_rename_unfold [OF inv assms(2-8)] st'(1) by (auto split: bind_splits)
      then show ?thesis
        using st'(2-6) kid(4,5) q by (auto simp: fs_inv_def)
    qed (use assms(8) in simp)
  qed (use assms(6,7) in simp_all)
qed

theorem fs_rename_spec_witness:
  "\<exists>st1 st2 n. fs_touch (Some ''/a'') fs_st1 = Some (0, st1) \<and>
     fs_rename (Some ''/a'') (Some ''/b'') st1 = Some (0, st2) \<and>
     fs_find_in_dir st1 (fs_root st1) ''a'' = Some n \<and> fs_find_in_dir st2 (fs_root st1) ''b'' = Some n \<and>
     fs_find_in_dir st2 (fs_root st1) ''a'' = Some NULL"
proof -
  have v: "valid_name ''a''" "valid_name ''b''" by (simp_all add: valid_name_def MAX_NAME_LEN_def)
  from v(1) obtain n st1 where st1: "fs_touch (Some ''/a'') fs_st1 = Some (0, st1)"
    "created (\<lambda>_. []) fs_st1 (fs_root fs_st1) ''a'' False n st1"
    "fs_lookup st1 (path_base st1 ''/a'') (components ''/a'') = Some n" by (rule fs_st1_create)
  note C = createdD [OF st1(2)]
  have rt: "fs_nodes fs_st1 (fs_root fs_st1) = Some (new_node [slash] True (fs_root fs_st1) NULL)"
    by (simp add: fs_st1_ok(4))
  have find: "fs_find_in_dir st1 (fs_root st1) ''a'' = Some n" "fs_find_in_dir st1 (fs_root st1) ''b'' = Some NULL"
    using created_find [OF st1(2) rt] fs_st1_find [of "''b''"] C(11) by simp_all
  have inv: "fs_inv st1" using C(9) by (auto simp: fs_inv_def)
  have tg: "create_target st1 ''/b'' = Some (fs_root st1, ''b'')"
    using find components_one [OF v(2)] C(11,20) rt by (simp add: create_target_def path_base_def)
  have ne: "n \<noteq> fs_root st1" using C(4,11) by simp
  have no: "fs_lookup st1 n cs \<noteq> Some (fs_root st1)" if "list_all cstring cs" for cs
    using ne that created_find_new [OF st1(2)] by (cases cs) auto
  have "\<exists>m st2. fs_nodes st1 n = Some m \<and> fs_rename (Some ''/a'') (Some ''/b'') st1 = Some (0, st2) \<and>
    fs_inv st2 \<and> fs_root st2 = fs_root st1 \<and> fs_cwd st2 = fs_cwd st1 \<and>
    (\<forall>x y. fs_nodes st1 x \<noteq> None \<longrightarrow> cstring y \<longrightarrow> fs_find_in_dir st2 x y =
       (if x = fs_root st1 \<and> y = ''b'' then Some n
        else if x = n_parent m \<and> y = n_name m then Some NULL else fs_find_in_dir st1 x y)) \<and>
    (\<forall>p. fs_nodes st1 p \<noteq> None \<longrightarrow> content st2 p = content st1 p)"
    by (rule fs_rename_spec [OF inv _ _ _ _ st1(3) ne tg no]) simp_all
  then show ?thesis using st1(1) find(1) C(11,19,20) by fastforce
qed

text \<open>Paths down the tree, and what a node that no list holds any more cuts off.\<close>

lemma lookup_edges:
  assumes "fs_ok K st"
  shows "fs_nodes st x = Some n \<Longrightarrow> list_all cstring cs \<Longrightarrow> fs_lookup st x cs = Some p \<Longrightarrow> (x, p) \<in> (edges K)\<^sup>*"
proof (induction cs arbitrary: x n)
  case (Cons c cs)
  have c: "cstring c" using Cons.prems(2) by simp
  from fs_okD(4) [OF assms] Cons.prems(1) c show ?case
  proof (cases rule: fs_find_in_dir_cases)
    case (some y m)
    then have "(y, p) \<in> (edges K)\<^sup>*" using Cons.IH [of y m] Cons.prems(2,3) by simp
    then show ?thesis using some(7) by (auto simp: edges_def intro: converse_rtrancl_into_rtrancl)
  qed (use Cons.prems in simp_all)
qed simp

lemma detached_unreachable:
  assumes "tree_ok h K" "\<And>d. src \<notin> set (K d)" "root_at h r" "src \<noteq> r" "(src, p) \<in> (edges K)\<^sup>*"
  shows "(r, p) \<notin> (edges K)\<^sup>*"
proof
  assume r: "(r, p) \<in> (edges K)\<^sup>*"
  have "d = e" if "c \<in> set (K d)" "c \<in> set (K e)" for c d e
  proof -
    from assms(1) that(1) obtain m where "h c = Some m" "n_parent m = d" by (rule kidD)
    moreover from assms(1) that(2) obtain m' where "h c = Some m'" "n_parent m' = e" by (rule kidD)
    ultimately show ?thesis by simp
  qed
  then have "single_valued ((edges K)\<inverse>)" by (auto simp: single_valued_def edges_def)
  then have "(src, r) \<in> ((edges K)\<inverse>)\<^sup>* \<or> (r, src) \<in> ((edges K)\<inverse>)\<^sup>*"
    using assms(5) r by (intro single_valued_confluent) (simp_all add: rtrancl_converse)
  moreover have "(x, y) \<notin> ((edges K)\<inverse>)\<^sup>*" if "x \<noteq> y" "\<And>d. x \<notin> set (K d)" for x y
    using that by (auto simp: edges_def elim: converse_rtranclE)
  ultimately show False using assms(2,4) root_unlisted [OF assms(1,3)] by metis
qed

text \<open>Overwriting a node that no list holds changes no other directory.\<close>

lemma unlisted_upd_find:
  assumes t: "tree_ok (fs_nodes st) K" and notin: "\<And>d. src \<notin> set (K d)"
    and st': "st' = st\<lparr>fs_nodes := (fs_nodes st)(src \<mapsto> x)\<rparr>"
    and a: "a \<noteq> src" "fs_nodes st a = Some an" and y: "cstring y"
  shows "fs_find_in_dir st' a y = fs_find_in_dir st a y"
proof -
  have ch: "chain (fs_nodes st) (n_child an) (K a)" using node_okD(1) [OF tree_okD(3) [OF t a(2)]] .
  have cs: "cstring (name_of (fs_nodes st) b)" if b: "b \<in> set (K a)" for b
    using t b by (rule kidD) (simp add: valid_name_def)
  have nms: "name_of (fs_nodes st') b = name_of (fs_nodes st) b" if "b \<in> set (K a)" for b
    using that notin [of a] by (auto simp: st' name_of_def)
  have "chain (fs_nodes st') (n_child an) (K a)" using chain_upd_other [OF ch notin] by (simp add: st')
  then have "find_loop st' (n_child an) y =
      Some (case find (\<lambda>b. name_of (fs_nodes st') b = y) (K a) of None \<Rightarrow> NULL | Some b \<Rightarrow> b)"
    by (rule find_loop_chain [OF _ _ y]) (simp only: nms cs)
  moreover have "find (\<lambda>b. name_of (fs_nodes st') b = y) (K a) = find (\<lambda>b. name_of (fs_nodes st) b = y) (K a)"
    by (intro find_cong refl) (simp only: nms)
  ultimately show ?thesis using a find_loop_chain [OF ch cs y] by (simp add: fs_find_in_dir_def st')
qed

lemma unlisted_upd_walk:
  assumes t: "tree_ok (fs_nodes st) K" and notin: "\<And>d. src \<notin> set (K d)"
    and st': "st' = st\<lparr>fs_nodes := (fs_nodes st)(src \<mapsto> x)\<rparr>"
  shows "a \<noteq> src \<Longrightarrow> fs_nodes st a = Some an \<Longrightarrow> list_all cstring cs \<Longrightarrow> fs_lookup st' a cs = Some p \<Longrightarrow>
    (a, p) \<in> (edges K)\<^sup>*"
proof (induction cs arbitrary: a an)
  case (Cons y cs)
  have y: "cstring y" using Cons.prems(3) by simp
  note eq = unlisted_upd_find [OF t notin st' Cons.prems(1,2) y]
  from t Cons.prems(2) y show ?case
  proof (cases rule: fs_find_in_dir_cases)
    case (some z m)
    have "z \<noteq> src" using some(7) notin by blast
    then have "(z, p) \<in> (edges K)\<^sup>*"
      using Cons.IH [OF _ some(4)] Cons.prems(3,4) some(1,3) eq by simp
    then show ?thesis using some(7) by (auto simp: edges_def intro: converse_rtrancl_into_rtrancl)
  qed (use Cons.prems(4) eq in simp)
qed simp

lemma detached_paths:
  assumes "tree_ok h K" "K sd = as @ src # bs" "(src, p) \<in> (edges K)\<^sup>*"
  shows "(src, p) \<in> (edges (K(sd := as @ bs)))\<^sup>*"
  using assms(3)
proof (induction rule: rtrancl_induct)
  case (step y z)
  have "\<not> (y = sd \<and> z = src)"
  proof
    assume "y = sd \<and> z = src"
    then have "(src, src) \<in> (edges K)\<^sup>+" using step(1,2) by auto
    then show False using tree_okD(4) [OF assms(1)] by (simp add: acyclic_def)
  qed
  then have "(y, z) \<in> edges (K(sd := as @ bs))" using step(2) assms(2) by (auto simp: edges_def)
  with step(3) show ?case by (rule rtrancl_into_rtrancl)
qed simp

text \<open>
  C19: \<open>fs_rename\<close> does not check that the target lies outside what it moves: renaming a
  directory to a new name inside itself returns 0, its entry disappears from its parent, and
  the directory becomes its own child. Neither it nor anything that was below it is then found
  by any path from the root, and the tree invariant is broken.
\<close>

theorem fs_rename_into_itself:
  assumes "fs_inv st" "cstring old" "old \<noteq> []" "cstring new" "new \<noteq> []"
    and "fs_lookup st (path_base st old) (components old) = Some src" "src \<noteq> fs_root st"
    and "create_target st new = Some (src, c)"
  shows "\<exists>n st'. fs_nodes st src = Some n \<and> fs_rename (Some old) (Some new) st = Some (0, st') \<and>
    fs_find_in_dir st' src c = Some src \<and> fs_find_in_dir st' (n_parent n) (n_name n) = Some NULL \<and>
    (\<forall>es p cs. list_all cstring es \<and> fs_lookup st src es = Some p \<and> list_all cstring cs \<longrightarrow>
       fs_lookup st' (fs_root st') cs \<noteq> Some p) \<and>
    \<not> fs_inv st'"
proof -
  from assms(1) obtain K where inv: "fs_ok K st" by (auto simp: fs_inv_def)
  note t = fs_okD(4) [OF inv]
  from inv assms(4,5) obtain dn where c: "valid_name c"
    by (cases rule: resolve_target) (use assms(8) in auto)
  have short: "kstrncpy c MAX_NAME_LEN = c" using c by (auto simp: valid_name_def intro: kstrncpy_short)
  from inv assms(2,3) show ?thesis
  proof (cases rule: resolve_cases)
    case (kid q sd n)
    have q: "src \<in> set (K sd)" "fs_nodes st src = Some n" "n_parent n = sd" "src \<noteq> NULL"
      using kid(1,3-6) assms(6) by auto
    from t q(1) have ne: "src \<noteq> sd" by (rule kidD)
    from inv q(1,2) obtain as bs st1 where st1: "fs_detach_from_parent src st = Some st1"
      "K sd = as @ src # bs" "st1 = st\<lparr>fs_nodes := unlinked sd as src n (fs_nodes st)\<rparr>"
      "fs_ok (K(sd := as @ bs)) st1" by (rule fs_detach_removed)
    let ?h1 = "unlinked sd as src n (fs_nodes st)"
    have h1: "fs_nodes st1 src = Some (n\<lparr>n_sibling := NULL, n_parent := NULL\<rparr>)"
      using unlinked_self st1(3) by simp
    let ?x = "n\<lparr>n_name := c, n_parent := src, n_sibling := n_child n, n_child := src\<rparr>"
    define st' where "st' = st1\<lparr>fs_nodes := (fs_nodes st1)(src \<mapsto> ?x)\<rparr>"
    have up: "do { st \<leftarrow> upd_node src (n_name_update (\<lambda>_. kstrncpy c MAX_NAME_LEN)) st1;
        link_child src src st } = Some st'"
      using h1 short by (simp add: upd_node_def link_child_def st'_def)
    have run: "fs_rename (Some old) (Some new) st = Some (0, st')"
      using fs_rename_unfold [OF inv assms(2-8)] st1(1) up by (auto split: bind_splits)
    have loop: "fs_find_in_dir st' src c = Some src"
      using q(4) by (simp add: fs_find_in_dir_def st'_def find_loop.simps)
    let ?K1 = "K(sd := as @ bs)"
    note t1 = fs_okD(4) [OF st1(4)]
    have notin: "src \<notin> set (?K1 d)" for d
    proof
      assume d: "src \<in> set (?K1 d)"
      from t1 d obtain m where "fs_nodes st1 src = Some m" "n_parent m = d" "src \<noteq> NULL" by (rule kidD)
      then have "d = NULL" using h1 by auto
      moreover have "?K1 NULL = []" by (rule tree_okD(2) [OF t1 tree_okD(1) [OF t1]])
      ultimately show False using d by (metis empty_iff empty_set)
    qed
    note other = unlisted_upd_find [OF t1 notin st'_def]
    have gone: "fs_find_in_dir st' sd (n_name n) = Some NULL"
    proof -
      from t q(1) obtain sdn where sdn: "fs_nodes st sd = Some sdn" by (rule kidD)
      have nm: "cstring (n_name n)" using node_okD(2) [OF tree_okD(3) [OF t q(2)]] .
      have "fs_find_in_dir st1 sd (n_name n) = Some NULL"
        using unlinked_find [OF inv st1(2) q(2) st1(3) _ nm, of sd] sdn by simp
      moreover have "fs_nodes st1 sd \<noteq> None"
        using unlinked_None [of "fs_nodes st" src n sd as sd] q(2) sdn st1(3) by simp
      ultimately show ?thesis using other [OF ne [symmetric] _ nm] by auto
    qed
    have lost: "fs_lookup st' (fs_root st') cs \<noteq> Some p"
      if p: "list_all cstring es" "fs_lookup st src es = Some p" and c: "list_all cstring cs" for es p cs
    proof
      assume l: "fs_lookup st' (fs_root st') cs = Some p"
      have d: "(src, p) \<in> (edges ?K1)\<^sup>*"
        by (rule detached_paths [OF t st1(2) lookup_edges [OF inv q(2) p]])
      have "(fs_root st1, p) \<notin> (edges ?K1)\<^sup>*"
        by (rule detached_unreachable [OF t1 notin fs_okD(6) [OF st1(4)] _ d]) (use assms(7) st1(3) in simp)
      moreover obtain rn where "fs_nodes st1 (fs_root st1) = Some rn"
        using fs_okD(6) [OF st1(4)] by (auto simp: root_at_def)
      moreover from this have "(fs_root st1, p) \<in> (edges ?K1)\<^sup>*"
        by (intro unlisted_upd_walk [OF t1 notin st'_def _ _ c]) (use l assms(7) st1(3) in \<open>simp_all add: st'_def\<close>)
      ultimately show False by blast
    qed
    have "\<not> fs_ok K' st'" for K'
    proof
      assume inv': "fs_ok K' st'"
      have x: "fs_nodes st' src = Some ?x" by (simp add: st'_def)
      have "chain (fs_nodes st') src (K' src)"
        using node_okD(1) [OF tree_okD(3) [OF fs_okD(4) [OF inv'] x]] by simp
      then have "src \<in> set (K' src)" using chain_nonnull [OF q(4)] by fastforce
      with fs_okD(4) [OF inv'] show False by (rule kidD) simp
    qed
    then show ?thesis using run loop gone lost q(2,3) by (auto simp: fs_inv_def)
  qed (use assms(6,7) in simp_all)
qed

theorem fs_rename_into_itself_witness:
  "\<exists>st1 st2 n. fs_mkdir (Some ''/d'') fs_st1 = Some (0, st1) \<and>
     fs_rename (Some ''/d'') (Some ''/d/e'') st1 = Some (0, st2) \<and>
     fs_find_in_dir st2 n ''e'' = Some n \<and> \<not> fs_inv st2"
proof -
  have v: "valid_name ''d''" "valid_name ''e''" by (simp_all add: valid_name_def MAX_NAME_LEN_def)
  from v(1) obtain n st1 where st1: "fs_mkdir (Some ''/d'') fs_st1 = Some (0, st1)"
    "created (\<lambda>_. []) fs_st1 (fs_root fs_st1) ''d'' True n st1"
    "fs_lookup st1 (path_base st1 ''/d'') (components ''/d'') = Some n" by (rule fs_st1_mkdir)
  note C = createdD [OF st1(2)]
  have inv: "fs_inv st1" using C(9) by (auto simp: fs_inv_def)
  have comps: "components ''/d'' = [''d'']" "components ''/d/e'' = [''d'', ''e'']"
    using components_one [OF v(1)] components_path_of [of "[''d'', ''e'']"] v by (simp_all add: path_of_def)
  have "fs_lookup st1 (path_base st1 ''/d/e'') [''d''] = Some n"
    using st1(3) comps by (simp add: path_base_def)
  moreover have "fs_find_in_dir st1 n ''e'' = Some NULL" using created_find_new [OF st1(2)] by simp
  ultimately have tg: "create_target st1 ''/d/e'' = Some (n, ''e'')"
    using comps C(19) by (simp add: create_target_def del: fs_lookup.simps)
  have ne: "n \<noteq> fs_root st1" using C(4,11) by simp
  show ?thesis using fs_rename_into_itself [OF inv _ _ _ _ st1(3) ne tg] st1(1) by fastforce
qed

end
