(* ===== verification/Fs_Walk.thy ===== *)
theory Fs_Walk
  imports Fs_Remove
begin

text \<open>
  The traversals, \<open>fs_getcwd\<close> with \<open>fs_chdir\<close>, \<open>fs_list\<close>, \<open>fs_tree_cwd\<close> and \<open>fs_find\<close>:
  under the invariant the loops over the links end, and what they report is stated with the
  lookup of paths.
\<close>

subsection \<open>The working directory\<close>

lemma path_of_snoc: "path_of (cs @ [c]) = path_of cs @ slash # c"
  by (simp add: path_of_def)

lemma getcwd_loop_path:
  assumes inv: "fs_ok K st"
  shows "list_all cstring cs \<Longrightarrow> fs_lookup st (fs_root st) cs = Some n \<Longrightarrow>
    length (path_of cs) + length tmp < MAX_PATH_LEN \<Longrightarrow>
    getcwd_loop st n tmp = Some (path_of cs @ tmp)"
proof (induction cs arbitrary: n tmp rule: rev_induct)
  case Nil
  then show ?case by (simp add: getcwd_loop.simps path_of_def)
next
  case (snoc c cs)
  obtain r where r: "fs_nodes st (fs_root st) = Some r" using root_node [OF inv] by blast
  then have "fs_nodes st (fs_root st) \<noteq> None" by simp
  from inv this snoc.prems(1) _ snoc.prems(2) obtain d m where
    d: "n \<in> set (K d)" "fs_lookup st (fs_root st) cs = Some d" "fs_nodes st n = Some m" "n_name m = c" "n_parent m = d"
    by (rule lookup_kid) auto
  note t = fs_okD(4) [OF inv]
  have "n \<noteq> NULL" using t d(1) by (rule kidD)
  moreover have "n \<noteq> fs_root st" using root_unlisted [OF t fs_okD(6) [OF inv]] d(1) by metis
  moreover have len: "length (path_of cs) + length (slash # c @ tmp) < MAX_PATH_LEN"
    using snoc.prems(3) by (simp add: path_of_snoc)
  ultimately have "getcwd_loop st n tmp = getcwd_loop st d (slash # c @ tmp)"
    using d(3-5) by (simp add: getcwd_loop.simps [of st n tmp] kstrlen_def)
  also have "\<dots> = Some (path_of cs @ slash # c @ tmp)"
    using snoc.IH [OF _ d(2) len] snoc.prems(1) by simp
  finally show ?case by (simp add: path_of_snoc)
qed

lemma fs_getcwd_path:
  assumes inv: "fs_ok K st" and cs: "list_all cstring cs" "fs_lookup st (fs_root st) cs = Some (fs_cwd st)"
    and len: "length (path_of cs) < MAX_PATH_LEN"
  shows "fs_getcwd st = Some (if cs = [] then [slash] else path_of cs)"
proof (cases "cs = []")
  case True
  then show ?thesis using cs(2) by (simp add: fs_getcwd_def)
next
  case False
  obtain r where "fs_nodes st (fs_root st) = Some r" using root_node [OF inv] by blast
  then have "fs_nodes st (fs_root st) \<noteq> None" by simp
  from inv this cs(1) False cs(2) obtain d where "fs_cwd st \<in> set (K d)" by (rule lookup_kid)
  then have "fs_cwd st \<noteq> fs_root st"
    using root_unlisted [OF fs_okD(4) [OF inv] fs_okD(6) [OF inv]] by metis
  moreover have "getcwd_loop st (fs_cwd st) [] = Some (path_of cs)"
    using getcwd_loop_path [OF inv cs, of "[]"] len by simp
  moreover have "path_of cs \<noteq> []" using False by (cases cs) (auto simp: path_of_def)
  ultimately show ?thesis using False by (simp add: fs_getcwd_def)
qed

lemma lookup_valid:
  assumes inv: "fs_ok K st"
  shows "fs_nodes st x \<noteq> None \<Longrightarrow> list_all cstring cs \<Longrightarrow> fs_lookup st x cs = Some p \<Longrightarrow> list_all valid_name cs"
proof (induction cs arbitrary: x)
  case (Cons y ys)
  then obtain xn where x: "fs_nodes st x = Some xn" "cstring y" "list_all cstring ys" by auto
  note t = fs_okD(4) [OF inv]
  from t x(1,2) show ?case
  proof (cases rule: fs_find_in_dir_cases)
    case none
    then show ?thesis using Cons.prems(3) by simp
  next
    case (some c m)
    from t some(7) have "valid_name (n_name m)" by (rule kidD) (use some(4) in simp)
    then show ?thesis using some Cons.IH [of c] Cons.prems(3) x(3) by simp
  qed
qed simp

lemma fs_chdir_cases:
  assumes inv: "fs_ok K st" and p: "cstring path" "path \<noteq> []"
  obtains (fail) "fs_chdir (Some path) st = Some (- 1, st)"
      "\<And>q. fs_lookup st (path_base st path) (components path) = Some q \<Longrightarrow> \<not> dir_at (fs_nodes st) q"
  | (ok) q where "fs_chdir (Some path) st = Some (0, st\<lparr>fs_cwd := q\<rparr>)" "fs_ok K (st\<lparr>fs_cwd := q\<rparr>)"
      "fs_lookup st (path_base st path) (components path) = Some q" "dir_at (fs_nodes st) q"
proof (cases "fs_lookup st (path_base st path) (components path)")
  case None
  then show thesis using that(1) fs_resolve_node [OF inv p] p(2) by (simp add: fs_chdir_def)
next
  case (Some q)
  note t = fs_okD(4) [OF inv]
  obtain n where n: "fs_nodes st q = Some n"
    using fs_lookup_node [OF t path_base_node [OF inv] components_cstring [OF p(1)] Some] by auto
  have r: "fs_resolve st (Some path) False = Some (q, None)" "q \<noteq> NULL"
    using fs_resolve_node [OF inv p] Some n tree_okD(1) [OF t] by auto
  show thesis
  proof (cases "n_is_dir n")
    case True
    have "fs_ok K (st\<lparr>fs_cwd := q\<rparr>)"
      using inv n True by (simp add: fs_ok_def crypto_ready_def below_top_def kmem_wf_def heap_top_def dir_at_def)
    then show thesis using that(2) r n True p(2) Some by (simp add: fs_chdir_def dir_at_def)
  next
    case False
    then have "fs_chdir (Some path) st = Some (- 1, st)" using r n p(2) by (simp add: fs_chdir_def)
    then show thesis by (rule that(1)) (use Some n False in \<open>auto simp: dir_at_def\<close>)
  qed
qed

text \<open>
  C21: \<open>fs_getcwd\<close> prints a path that \<open>fs_chdir\<close> takes back to the same directory: when the
  working directory is reachable from the root along names that make up a path of less than
  128 characters, the result is that path, and changing to it from any working directory
  restores the state.
\<close>

theorem fs_getcwd_chdir:
  assumes "fs_inv st" "list_all cstring cs" "fs_lookup st (fs_root st) cs = Some (fs_cwd st)"
    and "length (path_of cs) < 128" "dir_at (fs_nodes st) other"
  shows "\<exists>path. fs_getcwd st = Some path \<and> path = (if cs = [] then [slash] else path_of cs) \<and>
    fs_chdir (Some path) (st\<lparr>fs_cwd := other\<rparr>) = Some (0, st)"
proof -
  from assms(1) obtain K where inv: "fs_ok K st" by (auto simp: fs_inv_def)
  let ?p = "if cs = [] then [slash] else path_of cs"
  let ?st = "st\<lparr>fs_cwd := other\<rparr>"
  have inv': "fs_ok K ?st"
    using inv assms(5) by (simp add: fs_ok_def crypto_ready_def below_top_def kmem_wf_def heap_top_def)
  obtain r where "fs_nodes st (fs_root st) = Some r" using root_node [OF inv] by blast
  then have rt: "fs_nodes st (fs_root st) \<noteq> None" by simp
  have v: "list_all valid_name cs" by (rule lookup_valid [OF inv rt assms(2,3)])
  have "cstring (path_of cs)" using assms(2) by (induction cs) (auto simp: path_of_def)
  then have cp: "cstring ?p" by simp
  have comp: "components ?p = cs" using components_path_of [OF v] by (auto simp: path_of_def)
  have base: "path_base ?st ?p = fs_root st" "?p \<noteq> []"
    by (cases cs; simp add: path_base_def path_of_def)+
  have lk: "fs_lookup ?st (fs_root st) cs = Some (fs_cwd st)"
    using fs_lookup_shape [OF fs_okD(4) [OF inv] _ rt assms(2), of ?st] assms(3) by simp
  from inv' cp base(2) have "fs_chdir (Some ?p) ?st = Some (0, st)"
  proof (cases rule: fs_chdir_cases)
    case fail
    then show ?thesis using lk comp base(1) fs_okD(7) [OF inv] by simp
  next
    case (ok q)
    then show ?thesis using lk comp base(1) by simp
  qed
  then show ?thesis
    using fs_getcwd_path [OF inv assms(2,3)] assms(4) by (simp add: MAX_PATH_LEN_def)
qed

theorem fs_getcwd_chdir_witness:
  "\<exists>st1 n. fs_mkdir (Some ''/d'') fs_st1 = Some (0, st1) \<and>
     fs_getcwd (st1\<lparr>fs_cwd := n\<rparr>) = Some ''/d'' \<and>
     fs_chdir (Some ''/d'') st1 = Some (0, st1\<lparr>fs_cwd := n\<rparr>)"
proof -
  have v: "valid_name ''d''" by (simp add: valid_name_def MAX_NAME_LEN_def)
  then obtain n st1 where st1: "fs_mkdir (Some ''/d'') fs_st1 = Some (0, st1)"
    "created (\<lambda>_. []) fs_st1 (fs_root fs_st1) ''d'' True n st1"
    "fs_lookup st1 (path_base st1 ''/d'') (components ''/d'') = Some n" by (rule fs_st1_mkdir)
  note C = createdD [OF st1(2)]
  let ?st = "st1\<lparr>fs_cwd := n\<rparr>"
  have "fs_ok ((\<lambda>_. [])(fs_root fs_st1 := [n])) ?st"
    using C(9,19) by (simp add: fs_ok_def crypto_ready_def below_top_def kmem_wf_def heap_top_def dir_at_def)
  then have inv: "fs_inv ?st" by (auto simp: fs_inv_def)
  have "fs_lookup st1 (fs_root st1) [''d''] = Some n"
    using st1(3) components_one [OF v] by (simp add: path_base_def)
  moreover have "fs_lookup ?st (fs_root st1) [''d''] = fs_lookup st1 (fs_root st1) [''d'']"
    by (rule fs_lookup_shape [OF fs_okD(4) [OF C(9)]]) (use C(11,20) in auto)
  ultimately have lk: "fs_lookup ?st (fs_root ?st) [''d''] = Some (fs_cwd ?st)" by simp
  have dir: "dir_at (fs_nodes ?st) (fs_cwd st1)" using fs_okD(7) [OF C(9)] by simp
  have "\<exists>path. fs_getcwd ?st = Some path \<and> path = (if [''d''] = [] then [slash] else path_of [''d'']) \<and>
    fs_chdir (Some path) (?st\<lparr>fs_cwd := fs_cwd st1\<rparr>) = Some (0, ?st)"
    by (rule fs_getcwd_chdir [OF inv _ lk _ dir]) (simp_all add: path_of_def)
  then show ?thesis using st1(1) by (auto simp: path_of_def)
qed

subsection \<open>Listing a directory\<close>

definition entry_of :: "nodes \<Rightarrow> ptr \<Rightarrow> string \<times> bool" where
  "entry_of h p = (case h p of None \<Rightarrow> ([], False) | Some n \<Rightarrow> (n_name n, n_is_dir n))"

lemma list_loop_chain:
  assumes cb: "\<And>nm d s. fs_nodes (cb nm d s) = fs_nodes s"
  shows "chain h p cs \<Longrightarrow> fs_nodes st = h \<Longrightarrow>
    list_loop cb p st = Some (fold (\<lambda>(nm, d). cb nm d) (map (entry_of h) cs) st)"
proof (induction cs arbitrary: p st)
  case Nil
  then show ?case by (simp add: list_loop.simps)
next
  case (Cons c cs)
  then obtain n where n: "p = c" "c \<noteq> NULL" "h c = Some n" "chain h (n_sibling n) cs" by auto
  then have "list_loop cb p st = list_loop cb (n_sibling n) (cb (n_name n) (n_is_dir n) st)"
    using Cons.prems(2) cb by (subst list_loop.simps) (simp add: Let_def)
  then show ?case
    using Cons.IH [OF n(4)] n(3) Cons.prems(2) cb by (simp add: entry_of_def)
qed

text \<open>
  \<open>fs_list\<close> ends and calls back once for every entry of the working directory: the names
  it reports are distinct, and they are exactly the names that a search of the directory
  finds. The callback may change anything but the nodes.
\<close>

theorem fs_list_entries:
  assumes "fs_inv st" "\<And>nm d s. fs_nodes (cb nm d s) = fs_nodes s"
  shows "\<exists>es. fs_list cb st = Some (fold (\<lambda>(nm, d). cb nm d) es st) \<and> distinct (map fst es) \<and>
    (\<forall>nm. cstring nm \<longrightarrow> nm \<in> fst ` set es \<longleftrightarrow> fs_find_in_dir st (fs_cwd st) nm \<noteq> Some NULL)"
proof -
  from assms(1) obtain K where inv: "fs_ok K st" by (auto simp: fs_inv_def)
  note t = fs_okD(4) [OF inv]
  obtain d where d: "fs_nodes st (fs_cwd st) = Some d" using cwd_node [OF inv] by blast
  note ok = tree_okD(3) [OF t d]
  let ?es = "map (entry_of (fs_nodes st)) (K (fs_cwd st))"
  have "fst (entry_of (fs_nodes st) c) = name_of (fs_nodes st) c" for c
    by (simp add: entry_of_def name_of_def split: option.split)
  then have fst: "map fst ?es = map (name_of (fs_nodes st)) (K (fs_cwd st))" by simp
  have "fs_list cb st = Some (fold (\<lambda>(nm, d). cb nm d) ?es st)"
    using list_loop_chain [OF assms(2) node_okD(1) [OF ok] refl] d by (simp add: fs_list_def)
  moreover have "distinct (map fst ?es)" using node_okD(5) [OF ok] unfolding fst .
  moreover have "nm \<in> fst ` set ?es \<longleftrightarrow> fs_find_in_dir st (fs_cwd st) nm \<noteq> Some NULL" if nm: "cstring nm" for nm
  proof -
    have "fst ` set ?es = name_of (fs_nodes st) ` set (K (fs_cwd st))"
      using fst by (metis list.set_map)
    moreover from t d nm have
      "nm \<in> name_of (fs_nodes st) ` set (K (fs_cwd st)) \<longleftrightarrow> fs_find_in_dir st (fs_cwd st) nm \<noteq> Some NULL"
    proof (cases rule: fs_find_in_dir_cases)
      case none
      then show ?thesis by (simp add: kid_None)
    next
      case (some c m)
      then have "kid (fs_nodes st) K (fs_cwd st) nm \<noteq> None" by simp
      then show ?thesis using some(1,3) by (simp add: kid_None)
    qed
    ultimately show ?thesis by simp
  qed
  ultimately show ?thesis by blast
qed

theorem fs_list_entries_witness:
  "\<exists>st1. fs_touch (Some ''/a'') fs_st1 = Some (0, st1) \<and>
     (\<exists>es. fs_list (\<lambda>nm d. console_write Shell_c nm) st1 =
        Some (fold (\<lambda>(nm, d :: bool). console_write Shell_c nm) es st1) \<and> ''a'' \<in> fst ` set es)"
proof -
  have "valid_name ''a''" by (simp add: valid_name_def MAX_NAME_LEN_def)
  then obtain n st1 where st1: "fs_touch (Some ''/a'') fs_st1 = Some (0, st1)"
    "created (\<lambda>_. []) fs_st1 (fs_root fs_st1) ''a'' False n st1" by (rule fs_st1_create)
  note C = createdD [OF st1(2)]
  have inv: "fs_inv st1" using C(9) by (auto simp: fs_inv_def)
  have "fs_find_in_dir st1 (fs_cwd st1) ''a'' = Some n"
    using created_find [OF st1(2), of "fs_root fs_st1"] C(12) fs_st1_ok(2,4) by simp
  moreover have "\<exists>es. fs_list (\<lambda>nm d. console_write Shell_c nm) st1 =
        Some (fold (\<lambda>(nm, d :: bool). console_write Shell_c nm) es st1) \<and> distinct (map fst es) \<and>
    (\<forall>nm. cstring nm \<longrightarrow> nm \<in> fst ` set es \<longleftrightarrow> fs_find_in_dir st1 (fs_cwd st1) nm \<noteq> Some NULL)"
    by (rule fs_list_entries [OF inv, where cb = "\<lambda>nm d. console_write Shell_c nm"]) simp
  ultimately show ?thesis using st1(1) C(1) by fastforce
qed

subsection \<open>The tree below a directory\<close>

definition below :: "'a fs_st_scheme \<Rightarrow> ptr \<Rightarrow> (string list \<times> ptr) set" where
  "below st d = {(cs, p). cs \<noteq> [] \<and> list_all cstring cs \<and> fs_lookup st d cs = Some p}"

lemma find_kid:
  assumes inv: "fs_ok K st" and c: "c \<in> set (K d)" "fs_nodes st c = Some n"
  shows "fs_find_in_dir st d (n_name n) = Some c" "c \<noteq> NULL" "cstring (n_name n)"
proof -
  note t = fs_okD(4) [OF inv]
  from t c(1) obtain dn m where d: "fs_nodes st d = Some dn" "fs_nodes st c = Some m" "valid_name (n_name m)" "c \<noteq> NULL"
    by (rule kidD)
  then show "c \<noteq> NULL" "cstring (n_name n)" using c(2) by (simp_all add: valid_name_def)
  have "kid (fs_nodes st) K d (n_name n) = Some c" using c(2) by (intro kid_member [OF t c(1)]) simp
  then show "fs_find_in_dir st d (n_name n) = Some c"
    using fs_find_in_dir_kid [OF t d(1)] \<open>cstring (n_name n)\<close> by simp
qed

lemma below_kids:
  assumes inv: "fs_ok K st" and d: "fs_nodes st d = Some dn"
  shows "below st d = (\<Union>c \<in> set (K d). insert ([name_of (fs_nodes st) c], c)
    ((\<lambda>(cs, p). (name_of (fs_nodes st) c # cs, p)) ` below st c))" (is "?L = ?R")
proof
  note t = fs_okD(4) [OF inv]
  show "?L \<subseteq> ?R"
  proof
    fix e
    assume "e \<in> ?L"
    then obtain y ys p where e: "e = (y # ys, p)" "cstring y" "list_all cstring ys"
      "fs_lookup st d (y # ys) = Some p" by (cases "fst e") (auto simp: below_def)
    from t d e(2) show "e \<in> ?R"
    proof (cases rule: fs_find_in_dir_cases)
      case none
      then show ?thesis using e(4) by simp
    next
      case (some c m)
      have "ys = [] \<Longrightarrow> p = c" "ys \<noteq> [] \<Longrightarrow> (ys, p) \<in> below st c"
        using e some by (auto simp: below_def)
      moreover have "name_of (fs_nodes st) c = y" using some by simp
      ultimately show ?thesis using some(7) e(1) by (cases "ys = []") force+
    qed
  qed
  show "?R \<subseteq> ?L"
  proof (safe)
    fix c y ys
    assume c: "c \<in> set (K d)"
    from t c obtain n where n: "fs_nodes st c = Some n" by (rule kidD)
    note f = find_kid [OF inv c n]
    show "([name_of (fs_nodes st) c], c) \<in> below st d" using f n by (simp add: below_def)
    show "(name_of (fs_nodes st) c # y, ys) \<in> below st d" if "(y, ys) \<in> below st c"
      using f n that by (simp add: below_def)
  qed
qed

lemma wf_edges: "tree_ok h K \<Longrightarrow> wf ((edges K)\<inverse>)"
  by (rule finite_acyclic_wf_converse [OF finite tree_okD(4)])

lemma fold_nodes:
  assumes "\<And>e s. fs_nodes (f e s) = fs_nodes s"
  shows "fs_nodes (fold f es st) = fs_nodes st"
  by (induction es arbitrary: st) (simp_all add: assms)

abbreviation tree_entry :: "'a fs_st_scheme \<Rightarrow> int \<Rightarrow> string list \<times> ptr \<Rightarrow> string \<times> bool \<times> int" where
  "tree_entry st depth e \<equiv>
     (last (fst e), dir_at (fs_nodes st) (snd e), depth + int (length (fst e)) - 1)"

lemma tree_walk_list:
  assumes inv: "fs_ok K st0" and cb: "\<And>nm d k s. fs_nodes (cb nm d k s) = fs_nodes s"
    and IH: "\<And>c n depth st. c \<in> set cs \<Longrightarrow> fs_nodes st0 c = Some n \<Longrightarrow> fs_nodes st = fs_nodes st0 \<Longrightarrow>
      \<exists>es. fs_tree_walk (n_child n) cb depth st = Some (fold (\<lambda>(nm, d, k). cb nm d k) es st) \<and>
        set es = tree_entry st0 depth ` below st0 c"
  shows "chain (fs_nodes st0) p cs \<Longrightarrow> fs_nodes st = fs_nodes st0 \<Longrightarrow>
    \<exists>es. fs_tree_walk p cb depth st = Some (fold (\<lambda>(nm, d, k). cb nm d k) es st) \<and>
      set es = (\<Union>c \<in> set cs. insert (name_of (fs_nodes st0) c, dir_at (fs_nodes st0) c, depth)
        (tree_entry st0 (depth + 1) ` below st0 c))"
  using IH
proof (induction cs arbitrary: p st)
  case Nil
  then show ?case by (intro exI [of _ "[]"]) (simp add: fs_tree_walk.simps)
next
  case (Cons c cs)
  let ?f = "\<lambda>(nm, d, k). cb nm d k"
  have frame: "fs_nodes (fold ?f es s) = fs_nodes s" for es s
    by (rule fold_nodes) (simp add: cb split: prod.split)
  obtain n where n: "p = c" "c \<noteq> NULL" "fs_nodes st0 c = Some n" "chain (fs_nodes st0) (n_sibling n) cs"
    using Cons.prems(1) by auto
  note t = fs_okD(4) [OF inv]
  note okc = tree_okD(3) [OF t n(3)]
  define st1 where "st1 = cb (n_name n) (n_is_dir n) depth st"
  have s1: "fs_nodes st1 = fs_nodes st0" using cb Cons.prems(2) by (simp add: st1_def)
  obtain es1 where es1:
    "(if n_is_dir n \<and> n_child n \<noteq> NULL then fs_tree_walk (n_child n) cb (depth + 1) st1 else Some st1) =
      Some (fold ?f es1 st1)" "set es1 = tree_entry st0 (depth + 1) ` below st0 c"
  proof (cases "n_is_dir n \<and> n_child n \<noteq> NULL")
    case True
    then show thesis using Cons.prems(3) [of c n st1 "depth + 1"] n(3) s1 that by auto
  next
    case False
    have "K c = []"
    proof (rule ccontr)
      assume k: "K c \<noteq> []"
      then have "n_is_dir n" by (rule node_okD(4) [OF okc])
      moreover have "n_child n \<noteq> NULL" using node_okD(1) [OF okc] k chain_null by metis
      ultimately show False using False by simp
    qed
    then have "below st0 c = {}" using below_kids [OF inv n(3)] by simp
    then show thesis using that [of "[]"] False by (auto simp: st1_def)
  qed
  define st2 where "st2 = fold ?f es1 st1"
  have s2: "fs_nodes st2 = fs_nodes st0" using frame s1 by (simp add: st2_def)
  have "\<exists>es. fs_tree_walk (n_sibling n) cb depth st2 = Some (fold ?f es st2) \<and>
      set es = (\<Union>c \<in> set cs. insert (name_of (fs_nodes st0) c, dir_at (fs_nodes st0) c, depth)
        (tree_entry st0 (depth + 1) ` below st0 c))"
    by (rule Cons.IH [OF n(4) s2]) (rule Cons.prems(3), simp_all)
  then obtain es2 where es2: "fs_tree_walk (n_sibling n) cb depth st2 = Some (fold ?f es2 st2)"
    "set es2 = (\<Union>c \<in> set cs. insert (name_of (fs_nodes st0) c, dir_at (fs_nodes st0) c, depth)
        (tree_entry st0 (depth + 1) ` below st0 c))" by blast
  have "fs_tree_walk p cb depth st = fs_tree_walk (n_sibling n) cb depth st2"
    using n(1-3) Cons.prems(2) s1 s2 es1(1)
    by (subst fs_tree_walk.simps) (simp add: Let_def st1_def [symmetric] st2_def [symmetric]
        split del: if_split cong: if_cong)
  moreover have "fold ?f ((n_name n, n_is_dir n, depth) # es1 @ es2) st = fold ?f es2 st2"
    by (simp add: st1_def st2_def)
  moreover have "dir_at (fs_nodes st0) c = n_is_dir n" using n(3) by (simp add: dir_at_def)
  ultimately show ?case
    using es1(2) es2 n(3)
    by (intro exI [of _ "(n_name n, n_is_dir n, depth) # es1 @ es2"]) auto
qed

lemma tree_walk_dir:
  assumes inv: "fs_ok K st0" and cb: "\<And>nm d k s. fs_nodes (cb nm d k s) = fs_nodes s"
  shows "fs_nodes st0 d = Some n \<Longrightarrow> fs_nodes st = fs_nodes st0 \<Longrightarrow>
    \<exists>es. fs_tree_walk (n_child n) cb depth st = Some (fold (\<lambda>(nm, d, k). cb nm d k) es st) \<and>
      set es = tree_entry st0 depth ` below st0 d"
proof (induction d arbitrary: n depth st rule: wf_induct_rule [OF wf_edges [OF fs_okD(4) [OF inv]]])
  case (1 d)
  have ch: "chain (fs_nodes st0) (n_child n) (K d)"
    by (rule node_okD(1) [OF tree_okD(3) [OF fs_okD(4) [OF inv] 1(2)]])
  have "\<exists>es. fs_tree_walk (n_child n) cb depth st = Some (fold (\<lambda>(nm, d, k). cb nm d k) es st) \<and>
      set es = (\<Union>c \<in> set (K d). insert (name_of (fs_nodes st0) c, dir_at (fs_nodes st0) c, depth)
        (tree_entry st0 (depth + 1) ` below st0 c))"
    by (rule tree_walk_list [OF inv cb _ ch 1(3)]) (use 1(1) in \<open>auto simp: edges_def\<close>)
  moreover have "(\<Union>c \<in> set (K d). insert (name_of (fs_nodes st0) c, dir_at (fs_nodes st0) c, depth)
        (tree_entry st0 (depth + 1) ` below st0 c)) = tree_entry st0 depth ` below st0 d"
    unfolding below_kids [OF inv 1(2)] image_UN image_insert image_image
    by (intro SUP_cong refl arg_cong2 [of _ _ _ _ insert] image_cong) (auto simp: below_def)
  ultimately show ?case by simp
qed

text \<open>
  \<open>fs_tree_cwd\<close> ends and reports exactly the nodes below the working directory: the
  calls it makes are those of the last name, the kind and the depth of every path from the
  working directory that resolves.
\<close>

theorem fs_tree_cwd_entries:
  assumes "fs_inv st" "\<And>nm d k s. fs_nodes (cb nm d k s) = fs_nodes s"
  shows "\<exists>es. fs_tree_cwd (Some cb) st = Some (fold (\<lambda>(nm, d, k). cb nm d k) es st) \<and>
    set es = {(last cs, dir_at (fs_nodes st) p, int (length cs) - 1) | cs p.
      cs \<noteq> [] \<and> list_all cstring cs \<and> fs_lookup st (fs_cwd st) cs = Some p}"
proof -
  from assms(1) obtain K where inv: "fs_ok K st" by (auto simp: fs_inv_def)
  obtain d where d: "fs_nodes st (fs_cwd st) = Some d" "n_is_dir d" "fs_cwd st \<noteq> NULL"
    using cwd_node [OF inv] by blast
  from tree_walk_dir [OF inv, where cb = cb, OF assms(2) d(1) refl, where depth = 0] obtain es where
    es: "fs_tree_walk (n_child d) cb 0 st = Some (fold (\<lambda>(nm, d, k). cb nm d k) es st)"
    "set es = tree_entry st 0 ` below st (fs_cwd st)" by blast
  have comp: "(\<lambda>e. g (fst e) (snd e)) ` {(cs, p). P cs p} = {g cs p | cs p. P cs p}"
    for g :: "string list \<Rightarrow> ptr \<Rightarrow> string \<times> bool \<times> int" and P by force
  have "tree_entry st 0 ` below st (fs_cwd st) = {(last cs, dir_at (fs_nodes st) p, int (length cs) - 1) | cs p.
      cs \<noteq> [] \<and> list_all cstring cs \<and> fs_lookup st (fs_cwd st) cs = Some p}"
    unfolding below_def
    using comp [of "\<lambda>cs p. (last cs, dir_at (fs_nodes st) p, 0 + int (length cs) - 1)"
        "\<lambda>cs p. cs \<noteq> [] \<and> list_all cstring cs \<and> fs_lookup st (fs_cwd st) cs = Some p"]
    by simp
  then show ?thesis using es d by (simp add: fs_tree_cwd_def) blast
qed

theorem fs_tree_cwd_entries_witness:
  "\<exists>st1. fs_mkdir (Some ''/d'') fs_st1 = Some (0, st1) \<and>
     (\<exists>es. fs_tree_cwd (Some (\<lambda>nm d k. console_write Shell_c nm)) st1 =
        Some (fold (\<lambda>(nm, d :: bool, k :: int). console_write Shell_c nm) es st1) \<and> (''d'', True, 0) \<in> set es)"
proof -
  have v: "valid_name ''d''" by (simp add: valid_name_def MAX_NAME_LEN_def)
  then obtain n st1 where st1: "fs_mkdir (Some ''/d'') fs_st1 = Some (0, st1)"
    "created (\<lambda>_. []) fs_st1 (fs_root fs_st1) ''d'' True n st1" by (rule fs_st1_mkdir)
  note C = createdD [OF st1(2)]
  have inv: "fs_inv st1" using C(9) by (auto simp: fs_inv_def)
  have lk: "fs_lookup st1 (fs_cwd st1) [''d''] = Some n"
    using created_find [OF st1(2), of "fs_root fs_st1"] C(1,12) fs_st1_ok(2,4) by simp
  have dir: "dir_at (fs_nodes st1) n" using C(19) by (simp add: dir_at_def)
  have "\<exists>es. fs_tree_cwd (Some (\<lambda>nm d k. console_write Shell_c nm)) st1 =
        Some (fold (\<lambda>(nm, d :: bool, k :: int). console_write Shell_c nm) es st1) \<and>
    set es = {(last cs, dir_at (fs_nodes st1) p, int (length cs) - 1) | cs p.
      cs \<noteq> [] \<and> list_all cstring cs \<and> fs_lookup st1 (fs_cwd st1) cs = Some p}"
    by (rule fs_tree_cwd_entries [OF inv, where cb = "\<lambda>nm d k. console_write Shell_c nm"]) simp
  then obtain es where es: "fs_tree_cwd (Some (\<lambda>nm d k. console_write Shell_c nm)) st1 =
        Some (fold (\<lambda>(nm, d :: bool, k :: int). console_write Shell_c nm) es st1)"
    "set es = {(last cs, dir_at (fs_nodes st1) p, int (length cs) - 1) | cs p.
      cs \<noteq> [] \<and> list_all cstring cs \<and> fs_lookup st1 (fs_cwd st1) cs = Some p}" by blast
  have "(''d'', True, 0) = (last [''d''], dir_at (fs_nodes st1) n, int (length [''d'']) - 1)"
    using dir by simp
  moreover have "list_all cstring [''d'']" by simp
  ultimately have "(''d'', True, 0) \<in> set es"
    unfolding es(2) using lk by blast
  then show ?thesis using st1(1) es(1) by blast
qed

end
