(* ===== verification/Fs_Abs.thy ===== *)
theory Fs_Abs
  imports Fs_Content Fs_Remove Fs_Walk
begin

text \<open>
  The abstract file system: a map from absolute paths, as lists of names, to directories and
  files with their contents, and the path of the working directory. The operations of
  \<open>kernel/fs/fs.c\<close> on the nodes of the heap implement operations on that map: \<open>fs_abs\<close> is the
  abstraction, and each lemma has the form \<open>fs_abs (operation st) = operation' (fs_abs st)\<close>,
  with the result that the code returns.
\<close>

datatype entry = Dir | File "u8 list"

type_synonym files = "string list \<Rightarrow> entry option"

definition entry_at :: "'a fs_st_scheme \<Rightarrow> ptr \<Rightarrow> entry option" where
  "entry_at st p =
     (case fs_nodes st p of None \<Rightarrow> None
      | Some n \<Rightarrow> if n_is_dir n then Some Dir else map_option File (content st p))"

definition fs_abs :: "'a fs_st_scheme \<Rightarrow> files" where
  "fs_abs st cs =
     (if list_all cstring cs
      then case fs_lookup st (fs_root st) cs of None \<Rightarrow> None | Some p \<Rightarrow> entry_at st p
      else None)"

definition cwd_at :: "'a fs_st_scheme \<Rightarrow> string list \<Rightarrow> bool" where
  "cwd_at st w \<longleftrightarrow> list_all cstring w \<and> fs_lookup st (fs_root st) w = Some (fs_cwd st)"

text \<open>The absolute path that a path of the user stands for.\<close>

definition abs_path :: "string list \<Rightarrow> string \<Rightarrow> string list" where
  "abs_path w path = (if hd path = slash then components path else w @ components path)"

text \<open>The abstract operations: a new entry, and the change of the working directory.\<close>

definition a_create :: "entry \<Rightarrow> string list \<Rightarrow> files \<Rightarrow> files option" where
  "a_create e q F = (if q \<noteq> [] \<and> F (butlast q) = Some Dir \<and> F q = None then Some (F(q \<mapsto> e)) else None)"

definition a_chdir :: "string list \<Rightarrow> files \<Rightarrow> string list option" where
  "a_chdir q F = (if F q = Some Dir then Some q else None)"

subsection \<open>Paths are unique\<close>

lemma lookup_snoc:
  assumes "fs_ok K st" "fs_nodes st x \<noteq> None" "list_all cstring (cs @ [y])"
    and "fs_lookup st x (cs @ [y]) = Some p"
  obtains d m where "fs_lookup st x cs = Some d" "p \<in> set (K d)" "fs_nodes st p = Some m" "n_name m = y"
proof -
  note t = fs_okD(4) [OF assms(1)]
  from assms(4) obtain d where d: "fs_lookup st x cs = Some d" "fs_lookup st d [y] = Some p"
    by (auto simp: fs_lookup_append split: option.splits)
  obtain dn where "fs_nodes st d = Some dn"
    using fs_lookup_node [OF t assms(2) _ d(1)] assms(3) by auto
  from t this have "cstring y \<Longrightarrow> thesis"
    by (cases rule: fs_find_in_dir_cases [of st K d dn y]) (use d that in \<open>auto split: if_splits\<close>)
  then show thesis using assms(3) by simp
qed

lemma lookup_inj:
  assumes inv: "fs_ok K st"
  shows "list_all cstring cs \<Longrightarrow> list_all cstring ds \<Longrightarrow> fs_lookup st (fs_root st) cs = Some p \<Longrightarrow>
    fs_lookup st (fs_root st) ds = Some p \<Longrightarrow> cs = ds"
proof (induction cs arbitrary: ds p rule: rev_induct)
  case Nil
  have r: "fs_nodes st (fs_root st) \<noteq> None" using root_node [OF inv] by auto
  show ?case
  proof (cases ds rule: rev_cases)
    case (snoc ds' z)
    obtain d where "p \<in> set (K d)"
      using lookup_snoc [OF inv r] Nil.prems snoc by metis
    then show ?thesis
      using root_unlisted [OF fs_okD(4,6) [OF inv]] Nil.prems(3) by auto
  qed simp
next
  case (snoc y cs)
  have r: "fs_nodes st (fs_root st) \<noteq> None" using root_node [OF inv] by auto
  obtain d m where d: "fs_lookup st (fs_root st) cs = Some d" "p \<in> set (K d)" "fs_nodes st p = Some m" "n_name m = y"
    using lookup_snoc [OF inv r snoc.prems(1,3)] by metis
  show ?case
  proof (cases ds rule: rev_cases)
    case Nil
    then show ?thesis using root_unlisted [OF fs_okD(4,6) [OF inv]] d(2) snoc.prems(4) by auto
  next
    case ds: (snoc ds' z)
    obtain d' m' where d': "fs_lookup st (fs_root st) ds' = Some d'" "p \<in> set (K d')" "fs_nodes st p = Some m'" "n_name m' = z"
      using lookup_snoc [OF inv r] snoc.prems(2,4) ds by metis
    have "d = d'" using kid_unique [OF fs_okD(4) [OF inv] d(2) d'(2)] .
    then have "cs = ds'" using snoc.IH [of ds' d] d(1) d'(1) snoc.prems(1,2) ds by auto
    then show ?thesis using ds d d' by simp
  qed
qed

lemma abs_lookup:
  assumes "fs_ok K st" "list_all cstring cs" "fs_lookup st (fs_root st) cs = Some p" "fs_nodes st p = Some n"
  shows "fs_abs st cs = (if n_is_dir n then Some Dir else map_option File (content st p))"
  using assms by (simp add: fs_abs_def entry_at_def)

lemma abs_None_iff:
  assumes inv: "fs_ok K st" and cs: "list_all cstring cs"
  shows "fs_abs st cs = None \<longleftrightarrow> fs_lookup st (fs_root st) cs = None"
proof (cases "fs_lookup st (fs_root st) cs")
  case (Some p)
  have r: "fs_nodes st (fs_root st) \<noteq> None" using root_node [OF inv] by auto
  obtain n where n: "fs_nodes st p = Some n"
    using fs_lookup_node [OF fs_okD(4) [OF inv] r cs Some] by auto
  then show ?thesis using Some cs content_total [OF inv n] by (auto simp: fs_abs_def entry_at_def)
qed (simp add: fs_abs_def cs)

lemma abs_Dir_iff:
  assumes inv: "fs_ok K st" and cs: "list_all cstring cs"
  shows "fs_abs st cs = Some Dir \<longleftrightarrow> (\<exists>p. fs_lookup st (fs_root st) cs = Some p \<and> dir_at (fs_nodes st) p)"
  using cs by (auto simp: fs_abs_def entry_at_def dir_at_def split: option.splits)

lemma lookup_abs_path:
  assumes "cwd_at st w" "cstring path"
  shows "fs_lookup st (path_base st path) cs = fs_lookup st (fs_root st) ((if hd path = slash then [] else w) @ cs)"
  using assms by (simp add: path_base_def cwd_at_def fs_lookup_append)

lemma abs_path_cstring: "cwd_at st w \<Longrightarrow> cstring path \<Longrightarrow> list_all cstring (abs_path w path)"
  using components_cstring by (auto simp: abs_path_def cwd_at_def)

subsection \<open>Creation\<close>

lemma create_target_abs:
  assumes inv: "fs_ok K st" and w: "cwd_at st w" and p: "cstring path" "path \<noteq> []"
  shows "create_target st path = None \<longleftrightarrow> a_create e (abs_path w path) (fs_abs st) = None"
    "create_target st path = Some (d, c) \<Longrightarrow>
       \<exists>ds. abs_path w path = ds @ [c] \<and> list_all cstring ds \<and> fs_lookup st (fs_root st) ds = Some d"
proof -
  define pre where "pre = (if hd path = slash then [] else w)"
  have pre: "list_all cstring pre" "fs_abs st pre \<noteq> None"
    using w inv fs_okD(4,6) [OF inv] abs_None_iff [OF inv, of pre] by (auto simp: pre_def cwd_at_def)
  have ap: "abs_path w path = pre @ components path" by (simp add: abs_path_def pre_def)
  note cc = components_cstring [OF p(1)]
  have lk: "fs_lookup st (path_base st path) cs = fs_lookup st (fs_root st) (pre @ cs)" for cs
    using lookup_abs_path [OF w p(1)] by (simp add: pre_def)
  show "create_target st path = None \<longleftrightarrow> a_create e (abs_path w path) (fs_abs st) = None"
  proof (cases "components path" rule: rev_cases)
    case Nil
    then show ?thesis using pre(2) by (simp add: create_target_def a_create_def ap)
  next
    case (snoc cs c)
    have c: "list_all cstring (pre @ cs)" "cstring c" "list_all cstring (pre @ cs @ [c])"
      using cc pre(1) snoc by auto
    show ?thesis
    proof (cases "fs_lookup st (fs_root st) (pre @ cs)")
      case None
      then have "fs_abs st (pre @ cs) = None" using abs_None_iff [OF inv c(1)] by simp
      then show ?thesis using None snoc lk [of cs] p(2)
        by (simp add: create_target_def a_create_def ap butlast_append)
    next
      case (Some x)
      have r: "fs_nodes st (fs_root st) \<noteq> None" using root_node [OF inv] by auto
      obtain n where n: "fs_nodes st x = Some n"
        using fs_lookup_node [OF fs_okD(4) [OF inv] r c(1) Some] by auto
      have d: "fs_abs st (pre @ cs) = Some Dir \<longleftrightarrow> n_is_dir n"
        using abs_Dir_iff [OF inv c(1)] Some n by (auto simp: dir_at_def)
      have "fs_lookup st (fs_root st) (pre @ cs @ [c]) = fs_lookup st x [c]"
        using Some fs_lookup_append [of st "fs_root st" "pre @ cs" "[c]"] by simp
      then have a: "fs_abs st (pre @ cs @ [c]) = None \<longleftrightarrow> fs_lookup st x [c] = None"
        using abs_None_iff [OF inv c(3)] by simp
      from fs_okD(4) [OF inv] n c(2) have "fs_lookup st x [c] = None \<longleftrightarrow> fs_find_in_dir st x c = Some NULL"
        by (cases rule: fs_find_in_dir_cases) auto
      then show ?thesis using Some snoc lk [of cs] p(2) n d a
        by (simp add: create_target_def a_create_def ap butlast_append)
    qed
  qed
  assume t: "create_target st path = Some (d, c)"
  then obtain cs where cs: "components path = cs @ [c]" "fs_lookup st (path_base st path) cs = Some d"
    by (cases "components path" rule: rev_cases) (auto simp: create_target_def split: if_splits bind_splits)
  then show "\<exists>ds. abs_path w path = ds @ [c] \<and> list_all cstring ds \<and> fs_lookup st (fs_root st) ds = Some d"
    using lk [of cs] cc pre(1) by (intro exI [of _ "pre @ cs"]) (auto simp: ap)
qed

lemma created_abs:
  assumes cr: "created K st d c isd n st2"
    and ds: "list_all cstring ds" "fs_lookup st (fs_root st) ds = Some d"
  shows "fs_abs st2 = (fs_abs st)(ds @ [c] \<mapsto> (if isd then Dir else File []))"
proof
  fix cs
  note C = createdD [OF cr]
  have c: "cstring c" using C(6) by (simp add: valid_name_def)
  have r: "fs_nodes st (fs_root st) \<noteq> None" using root_node [OF C(8)] by auto
  show "fs_abs st2 cs = ((fs_abs st)(ds @ [c] \<mapsto> (if isd then Dir else File []))) cs"
  proof (cases "list_all cstring cs")
    case False
    then show ?thesis using ds(1) c by (auto simp: fs_abs_def)
  next
    case True
    note lk = created_lookup [OF cr r True]
    have "(cs \<noteq> [] \<and> fs_lookup st (fs_root st) (butlast cs) = Some d \<and> last cs = c) \<longleftrightarrow> cs = ds @ [c]"
    proof
      assume "cs \<noteq> [] \<and> fs_lookup st (fs_root st) (butlast cs) = Some d \<and> last cs = c"
      then have a: "cs = butlast cs @ [c]" "fs_lookup st (fs_root st) (butlast cs) = Some d" by auto
      moreover have "list_all cstring (butlast cs)" using True by (auto simp: list_all_iff dest: in_set_butlastD)
      ultimately show "cs = ds @ [c]" using lookup_inj [OF C(8) _ ds(1) _ ds(2)] by metis
    qed (use ds(2) in simp)
    note lk = lk [unfolded this]
    show ?thesis
    proof (cases "cs = ds @ [c]")
      case new: True
      have "entry_at st2 n = Some (if isd then Dir else File [])"
        using C(19) by (simp add: entry_at_def content_def)
      then show ?thesis using lk new True C(11) by (simp add: fs_abs_def)
    next
      case False
      have "entry_at st2 p = entry_at st p" if p: "fs_lookup st (fs_root st) cs = Some p" for p
      proof -
        obtain x where x: "fs_nodes st p = Some x"
          using fs_lookup_node [OF fs_okD(4) [OF C(8)] r True p] by auto
        have "p \<noteq> n" using x C(2) by auto
        then obtain x' where "fs_nodes st2 p = Some x'" "n_is_dir x' = n_is_dir x"
          using C(20) C(21) [of p] x by (cases "p = d") auto
        then show ?thesis using x created_content [OF cr x] by (simp add: entry_at_def)
      qed
      then show ?thesis using lk False True C(11) by (auto simp: fs_abs_def split: option.splits)
    qed
  qed
qed

lemma created_cwd:
  assumes cr: "created K st d c isd n st2" and w: "cwd_at st w"
  shows "cwd_at st2 w"
proof -
  note C = createdD [OF cr]
  have r: "fs_nodes st (fs_root st) \<noteq> None" using root_node [OF C(8)] by auto
  have cs: "list_all cstring w" "fs_lookup st (fs_root st) w = Some (fs_cwd st)"
    using w by (auto simp: cwd_at_def)
  have "\<not> (w \<noteq> [] \<and> fs_lookup st (fs_root st) (butlast w) = Some d \<and> last w = c)"
  proof
    assume a: "w \<noteq> [] \<and> fs_lookup st (fs_root st) (butlast w) = Some d \<and> last w = c"
    then have "fs_lookup st (fs_root st) (butlast w @ [c]) = None"
      using C(7) by (simp add: fs_lookup_append)
    then show False using a cs(2) by auto
  qed
  then show ?thesis using created_lookup [OF cr r cs(1)] cs C(11,12) by (auto simp: cwd_at_def)
qed

lemma stored_abs:
  assumes inv: "fs_ok K st" and n: "fs_nodes st p = Some n" "\<not> n_is_dir n" "data_fits data"
    and st: "store_data p data st = Some (0, st')"
    and q: "list_all cstring q" "fs_lookup st (fs_root st) q = Some p" and w: "cwd_at st w"
  shows "fs_abs st' = (fs_abs st)(q \<mapsto> File (map of_char data))" "cwd_at st' w"
proof -
  note R = stored_read [OF inv n st]
  have r: "fs_nodes st (fs_root st) \<noteq> None" using root_node [OF inv] by auto
  have f: "fs_root st' = fs_root st" "fs_cwd st' = fs_cwd st"
    using R(3) [of "[slash]"] R(3) [of "[]"] R(3) [of "''x''"] by (auto simp: path_base_def)
  note lk = R(2) [OF r]
  from inv n have nodes: "x \<noteq> p \<Longrightarrow> fs_nodes st' x = fs_nodes st x" for x
    by (cases rule: store_data_cases) (use st in auto)
  show "cwd_at st' w" using w lk [of w] f by (simp add: cwd_at_def)
  show "fs_abs st' = (fs_abs st)(q \<mapsto> File (map of_char data))"
  proof
    fix cs
    show "fs_abs st' cs = ((fs_abs st)(q \<mapsto> File (map of_char data))) cs"
    proof (cases "list_all cstring cs")
      case False
      then show ?thesis using q(1) by (auto simp: fs_abs_def)
    next
      case True
      show ?thesis
      proof (cases "cs = q")
        case new: True
        then show ?thesis
          using lk [OF True] q f R(4) stored_content [OF inv n st] by (auto simp: fs_abs_def entry_at_def)
      next
        case False
        have "entry_at st' x = entry_at st x" if x: "fs_lookup st (fs_root st) cs = Some x" for x
        proof -
          have ne: "x \<noteq> p" using lookup_inj [OF inv True q(1) _ q(2)] x False by auto
          obtain xn where xn: "fs_nodes st x = Some xn"
            using fs_lookup_node [OF fs_okD(4) [OF inv] r True x] by auto
          then have "fs_nodes st' x = Some xn" using nodes [OF ne] by simp
          then show ?thesis using xn stored_content_other [OF inv n st xn ne] by (simp add: entry_at_def)
        qed
        then show ?thesis using lk [OF True] False f by (auto simp: fs_abs_def True split: option.splits)
      qed
    qed
  qed
qed

subsection \<open>Sequences of calls\<close>

text \<open>
  A call of a client of the file system, what the code does with it and what the abstract file
  system does with it; \<open>call_cost\<close> bounds the bytes of the heap it takes.
\<close>

datatype fs_call = Mkdir string | Touch string | Write string string | Chdir string

fun fs_do :: "fs_call \<Rightarrow> 'a fs_st_scheme \<Rightarrow> (int \<times> 'a fs_st_scheme) option" where
  "fs_do (Mkdir p) st = fs_mkdir (Some p) st"
| "fs_do (Touch p) st = fs_touch (Some p) st"
| "fs_do (Write p d) st = fs_write (Some p) (Some d) st"
| "fs_do (Chdir p) st = fs_chdir (Some p) st"

fun a_do :: "fs_call \<Rightarrow> files \<times> string list \<Rightarrow> (files \<times> string list) option" where
  "a_do (Mkdir p) (F, w) = map_option (\<lambda>F. (F, w)) (a_create Dir (abs_path w p) F)"
| "a_do (Touch p) (F, w) = map_option (\<lambda>F. (F, w)) (a_create (File []) (abs_path w p) F)"
| "a_do (Write p d) (F, w) = map_option (\<lambda>F. (F, w)) (a_create (File (map of_char d)) (abs_path w p) F)"
| "a_do (Chdir p) (F, w) = map_option (\<lambda>w. (F, w)) (a_chdir (abs_path w p) F)"

fun call_ok :: "fs_call \<Rightarrow> bool" where
  "call_ok (Mkdir p) \<longleftrightarrow> cstring p \<and> p \<noteq> [] \<and> length p < 128"
| "call_ok (Touch p) \<longleftrightarrow> cstring p \<and> p \<noteq> [] \<and> length p < 128"
| "call_ok (Write p d) \<longleftrightarrow> cstring p \<and> p \<noteq> [] \<and> length p < 128 \<and> data_fits d"
| "call_ok (Chdir p) \<longleftrightarrow> cstring p \<and> p \<noteq> [] \<and> length p < 128"

fun call_cost :: "fs_call \<Rightarrow> nat" where
  "call_cost (Write p d) = length d + 57"
| "call_cost (Chdir p) = 0"
| "call_cost _ = 56"

text \<open>The state represents the abstract file system \<open>F\<close> with working directory \<open>w\<close>.\<close>

definition fs_rep :: "'a fs_st_scheme \<Rightarrow> files \<times> string list \<Rightarrow> bool" where
  "fs_rep st A \<longleftrightarrow> fs_inv st \<and> fs_abs st = fst A \<and> cwd_at st (snd A)"

text \<open>
  A call changes only nodes that a path of the live tree reaches and nodes that it makes;
  it makes reachable only new nodes; buffers are never overwritten.
\<close>

definition reach :: "'a fs_st_scheme \<Rightarrow> ptr \<Rightarrow> bool" where
  "reach st p \<longleftrightarrow> (\<exists>cs. list_all cstring cs \<and> fs_lookup st (fs_root st) cs = Some p)"

definition local_change :: "'a fs_st_scheme \<Rightarrow> 'a fs_st_scheme \<Rightarrow> bool" where
  "local_change st st' \<longleftrightarrow>
     fs_root st' = fs_root st \<and> fs_snaps st' = fs_snaps st \<and> snap_head st' = snap_head st \<and>
     g_key st' = g_key st \<and> g_key_len st' = g_key_len st \<and> fs_st.more st' = fs_st.more st \<and>
     fs_bufs st \<subseteq>\<^sub>m fs_bufs st' \<and>
     (\<forall>p x. fs_nodes st p = Some x \<longrightarrow> fs_nodes st' p \<noteq> None \<and>
       (\<not> reach st p \<longrightarrow> fs_nodes st' p = Some x) \<and> (reach st' p \<longrightarrow> reach st p))"

lemma local_change_refl [simp]: "local_change st st"
  by (simp add: local_change_def)

lemma local_changeD:
  assumes "local_change st st'"
  shows "fs_root st' = fs_root st" "fs_snaps st' = fs_snaps st" "snap_head st' = snap_head st"
    "g_key st' = g_key st" "g_key_len st' = g_key_len st" "fs_st.more st' = fs_st.more st"
    "fs_bufs st \<subseteq>\<^sub>m fs_bufs st'"
    "fs_nodes st p = Some x \<Longrightarrow> \<not> reach st p \<Longrightarrow> fs_nodes st' p = Some x"
    "fs_nodes st p = Some x \<Longrightarrow> reach st' p \<Longrightarrow> reach st p"
  using assms by (auto simp: local_change_def)

lemma local_change_trans:
  assumes a: "local_change st st1" and b: "local_change st1 st2"
  shows "local_change st st2"
proof -
  have "fs_nodes st2 p \<noteq> None \<and> (\<not> reach st p \<longrightarrow> fs_nodes st2 p = Some x) \<and> (reach st2 p \<longrightarrow> reach st p)"
    if x: "fs_nodes st p = Some x" for p x
  proof -
    obtain y where y: "fs_nodes st1 p = Some y" using a x by (auto simp: local_change_def)
    then have "fs_nodes st2 p \<noteq> None" using b by (auto simp: local_change_def)
    moreover have "fs_nodes st2 p = Some x" if r: "\<not> reach st p"
    proof -
      have "fs_nodes st1 p = Some x" "\<not> reach st1 p" using local_changeD(8) [OF a x r] local_changeD(9) [OF a x] r by blast+
      then show ?thesis using local_changeD(8) [OF b] by blast
    qed
    moreover have "reach st2 p \<longrightarrow> reach st p"
      using local_changeD(9) [OF a x] local_changeD(9) [OF b y] by blast
    ultimately show ?thesis by blast
  qed
  moreover have "fs_bufs st \<subseteq>\<^sub>m fs_bufs st2" using a b by (auto simp: local_change_def intro: map_le_trans)
  ultimately show ?thesis using local_changeD(1-6) [OF a] local_changeD(1-6) [OF b] by (simp add: local_change_def)
qed

definition simulates ::
  "nat \<Rightarrow> 'a fs_st_scheme \<Rightarrow> files \<times> string list \<Rightarrow> (files \<times> string list) option \<Rightarrow> int \<times> 'a fs_st_scheme \<Rightarrow> bool"
  where
  "simulates n st A A' r_st \<longleftrightarrow>
     (case A' of None \<Rightarrow> fst r_st = - 1 \<and> fs_rep (snd r_st) A
      | Some B \<Rightarrow> fst r_st = 0 \<and> fs_rep (snd r_st) B) \<and>
     unat (heap_offset (snd r_st)) \<le> unat (heap_offset st) + n \<and> local_change st (snd r_st)"

lemma same_nodes_abs:
  assumes inv: "fs_ok K st" and n: "fs_nodes st' = fs_nodes st" "fs_root st' = fs_root st"
    and k: "g_key st' = g_key st" "g_key_len st' = g_key_len st" "fs_bufs st' = fs_bufs st"
  shows "fs_abs st' = fs_abs st" "list_all cstring cs \<Longrightarrow>
    fs_lookup st' (fs_root st') cs = fs_lookup st (fs_root st) cs"
proof -
  have r: "fs_nodes st (fs_root st) \<noteq> None" using root_node [OF inv] by auto
  have lk: "fs_lookup st' (fs_root st') cs = fs_lookup st (fs_root st) cs" if "list_all cstring cs" for cs
    using fs_lookup_shape [OF fs_okD(4) [OF inv] _ r that, of st'] n by simp
  then show "list_all cstring cs \<Longrightarrow> fs_lookup st' (fs_root st') cs = fs_lookup st (fs_root st) cs" .
  have "entry_at st' p = entry_at st p" for p
  proof (cases "fs_nodes st p")
    case (Some x)
    have "content st' p = content st p"
      by (rule content_frame [OF inv Some]) (use Some n k in auto)
    then show ?thesis using n(1) by (simp add: entry_at_def split: option.split)
  qed (simp add: entry_at_def n(1))
  then show "fs_abs st' = fs_abs st" using lk by (simp add: fs_abs_def fun_eq_iff split: option.split)
qed

lemma fs_rep_con_call: "fs_rep st A \<Longrightarrow> fs_rep (con_call f c st) A"
proof -
  assume rep: "fs_rep st A"
  then obtain K where inv: "fs_ok K st" by (auto simp: fs_rep_def fs_inv_def)
  have "fs_abs (con_call f c st) = fs_abs st"
    "\<And>cs. list_all cstring cs \<Longrightarrow>
      fs_lookup (con_call f c st) (fs_root (con_call f c st)) cs = fs_lookup st (fs_root st) cs"
    by (rule same_nodes_abs [OF inv]; simp)+
  then show "fs_rep (con_call f c st) A"
    using rep by (auto simp: fs_rep_def fs_inv_def cwd_at_def)
qed

lemma fs_rep_oom: "fs_rep st A \<Longrightarrow> fs_rep (oom_msg st) A"
  by (simp add: oom_msg_def fs_rep_con_call)

text \<open>A change of the fields that paths and nodes do not depend on.\<close>

lemma local_change_same:
  assumes inv: "fs_ok K st" and n: "fs_nodes st' = fs_nodes st" "fs_root st' = fs_root st" "fs_bufs st' = fs_bufs st"
    and k: "g_key st' = g_key st" "g_key_len st' = g_key_len st" "fs_snaps st' = fs_snaps st"
      "snap_head st' = snap_head st" "fs_st.more st' = fs_st.more st"
  shows "local_change st st'"
proof -
  have "reach st' p = reach st p" for p
    using same_nodes_abs(2) [OF inv n(1,2) k(1,2) n(3)] by (auto simp: reach_def)
  then show ?thesis using n k by (simp add: local_change_def)
qed

lemma local_change_oom:
  assumes "fs_ok K st"
  shows "local_change st (oom_msg st)"
  by (rule local_change_same [OF assms]) (simp_all add: oom_msg_def con_call_def)

lemma simulates_fail:
  assumes "fs_rep st A" "st' = st \<or> st' = oom_msg st"
  shows "simulates n st A None (- 1, st')"
proof -
  obtain K where "fs_ok K st" using assms(1) by (auto simp: fs_rep_def fs_inv_def)
  then show ?thesis using assms by (auto simp: simulates_def fs_rep_oom local_change_oom)
qed

lemma created_local:
  assumes cr: "created K st d c isd n st2" and d: "reach st d"
  shows "local_change st st2"
proof -
  note C = createdD [OF cr]
  have r: "fs_nodes st (fs_root st) \<noteq> None" using root_node [OF C(8)] by auto
  have b: "reach st p" if "reach st2 p" "p \<noteq> n" for p
    using that created_lookup [OF cr r] C(11) by (auto simp: reach_def split: if_splits)
  have "fs_nodes st2 p \<noteq> None \<and> (\<not> reach st p \<longrightarrow> fs_nodes st2 p = Some x) \<and> (reach st2 p \<longrightarrow> reach st p)"
    if x: "fs_nodes st p = Some x" for p x
  proof -
    have "p \<noteq> n" using x C(2) by auto
    then show ?thesis using x C(20) C(21) [of p] d b by (cases "p = d") auto
  qed
  moreover have "fs_st.more st2 = fs_st.more st" using cr by (auto simp: created_def)
  ultimately show ?thesis using C by (simp add: local_change_def)
qed

lemma stored_local:
  assumes inv: "fs_ok K st" and n: "fs_nodes st p = Some n" "\<not> n_is_dir n" "data_fits data"
    and st: "store_data p data st = Some (0, st')" and p: "reach st p"
  shows "local_change st st'"
  using inv n
proof (cases rule: store_data_cases)
  case oom
  then show ?thesis using st by simp
next
  case (ok buf bs s)
  have e: "st' = st\<lparr>heap_offset := heap_offset st + of_nat (length data + 1), fs_bufs := (fs_bufs st)(buf \<mapsto> bs @ [0]),
      fs_nodes := (fs_nodes st)(p \<mapsto> n\<lparr>n_data := buf, n_size := of_nat (length data)\<rparr>)\<rparr>"
    using ok(1,6) st by simp
  have r: "fs_nodes st (fs_root st) \<noteq> None" using root_node [OF inv] by auto
  have "reach st' q = reach st q" for q
    using stored_read(2) [OF inv n st r] e by (auto simp: reach_def)
  then show ?thesis using e ok(3) n(1) p by (auto simp: local_change_def map_le_def)
qed

lemma created_rep:
  assumes rep: "fs_rep st (F, w)" and cr: "created K st d c isd n st2" and inv: "fs_ok K st"
    and p: "cstring path" "path \<noteq> []" "create_target st path = Some (d, c)"
  shows "a_create e (abs_path w path) F = Some (F(abs_path w path \<mapsto> e))"
    "fs_rep st2 (F(abs_path w path \<mapsto> (if isd then Dir else File [])), w)"
    "\<exists>ds. abs_path w path = ds @ [c] \<and> list_all cstring ds \<and> fs_lookup st (fs_root st) ds = Some d"
proof -
  have w: "cwd_at st w" and F: "F = fs_abs st" using rep by (auto simp: fs_rep_def)
  note t = create_target_abs [OF inv w p(1,2)]
  show "a_create e (abs_path w path) F = Some (F(abs_path w path \<mapsto> e))"
    using t(1) [of e] p(3) F by (auto simp: a_create_def split: if_splits)
  show ex: "\<exists>ds. abs_path w path = ds @ [c] \<and> list_all cstring ds \<and> fs_lookup st (fs_root st) ds = Some d"
    by (rule t(2) [OF p(3)])
  then obtain ds where ds: "abs_path w path = ds @ [c]" "list_all cstring ds" "fs_lookup st (fs_root st) ds = Some d"
    by blast
  show "fs_rep st2 (F(abs_path w path \<mapsto> (if isd then Dir else File [])), w)"
    using created_abs [OF cr ds(2,3)] created_cwd [OF cr w] createdD(9) [OF cr] F ds(1)
    by (auto simp: fs_rep_def fs_inv_def)
qed

lemma mkdir_simulates:
  assumes rep: "fs_rep st A" and c: "call_ok (Mkdir p)" "room st (call_cost (Mkdir p))"
  shows "\<exists>r_st. fs_do (Mkdir p) st = Some r_st \<and> simulates 56 st A (a_do (Mkdir p) A) r_st"
proof -
  obtain F w where A: "A = (F, w)" by (rule prod.exhaust)
  obtain K where inv: "fs_ok K st" using rep by (auto simp: fs_rep_def fs_inv_def)
  have p: "cstring p" "p \<noteq> []" "length p < 128" and w: "cwd_at st w" and F: "F = fs_abs st"
    using c(1) rep A by (auto simp: fs_rep_def)
  from inv p(1) show ?thesis
  proof (cases rule: fs_mkdir_cases)
    case (fail st')
    then have "create_target st p = None" using p c(2) by (auto simp: MAX_PATH_LEN_def)
    then show ?thesis
      using fail(1,2) create_target_abs(1) [OF inv w p(1,2), of Dir] simulates_fail [OF rep] F A by auto
  next
    case (ok d cc n st')
    show ?thesis
      using created_rep [OF rep [unfolded A] ok(3) inv p(1,2) ok(2)] ok(1) createdD(10) [OF ok(3)]
        created_local [OF ok(3)] A
      by (auto simp: simulates_def reach_def)
  qed
qed

lemma touch_simulates:
  assumes rep: "fs_rep st A" and c: "call_ok (Touch p)" "room st (call_cost (Touch p))"
  shows "\<exists>r_st. fs_do (Touch p) st = Some r_st \<and> simulates 56 st A (a_do (Touch p) A) r_st"
proof -
  obtain F w where A: "A = (F, w)" by (rule prod.exhaust)
  obtain K where inv: "fs_ok K st" using rep by (auto simp: fs_rep_def fs_inv_def)
  have p: "cstring p" "p \<noteq> []" "length p < 128" and w: "cwd_at st w" and F: "F = fs_abs st"
    using c(1) rep A by (auto simp: fs_rep_def)
  from inv p(1) show ?thesis
  proof (cases rule: fs_touch_cases)
    case (fail st')
    then have "create_target st p = None" using p c(2) by (auto simp: MAX_PATH_LEN_def)
    then show ?thesis
      using fail(1,2) create_target_abs(1) [OF inv w p(1,2), of "File []"] simulates_fail [OF rep] F A by auto
  next
    case (ok d cc n st')
    show ?thesis
      using created_rep [OF rep [unfolded A] ok(3) inv p(1,2) ok(2)] ok(1) createdD(10) [OF ok(3)]
        created_local [OF ok(3)] A
      by (auto simp: simulates_def reach_def)
  qed
qed

lemma write_simulates:
  assumes rep: "fs_rep st A" and c: "call_ok (Write p data)" "room st (call_cost (Write p data))"
  shows "\<exists>r_st. fs_do (Write p data) st = Some r_st \<and>
    simulates (length data + 57) st A (a_do (Write p data) A) r_st"
proof -
  obtain F w where A: "A = (F, w)" by (rule prod.exhaust)
  obtain K where inv: "fs_ok K st" using rep by (auto simp: fs_rep_def fs_inv_def)
  have p: "cstring p" "p \<noteq> []" "length p < 128" "data_fits data" and w: "cwd_at st w" and F: "F = fs_abs st"
    using c(1) rep A by (auto simp: fs_rep_def)
  from inv p(1,4) show ?thesis
  proof (cases rule: fs_write_cases)
    case (fail st')
    then have "create_target st p = None" using p c(2) by (auto simp: MAX_PATH_LEN_def room_def)
    then show ?thesis
      using fail(1,2) create_target_abs(1) [OF inv w p(1,2), of "File (map of_char data)"]
        simulates_fail [OF rep] F A by auto
  next
    case (half d cc n st2)
    then show ?thesis using c(2) by (simp add: room_def add.commute)
  next
    case (ok d cc n st2 st')
    note C = createdD [OF ok(5)]
    note R = created_rep [OF rep [unfolded A] ok(5) inv p(1,2) ok(2)]
    obtain ds where ds: "abs_path w p = ds @ [cc]" "list_all cstring ds" "fs_lookup st (fs_root st) ds = Some d"
      using R(3) by blast
    have v: "cstring cc" using C(6) by (simp add: valid_name_def)
    have lk2: "fs_lookup st2 (fs_root st2) (ds @ [cc]) = Some n" "list_all cstring (ds @ [cc])"
      using created_lookup [OF ok(5), of "fs_root st" "ds @ [cc]"] root_node [OF inv] ds(2,3) v C(11) by auto
    moreover have "cwd_at st2 w" using R(2) by (simp add: fs_rep_def)
    ultimately have S: "fs_abs st' = (fs_abs st2)(ds @ [cc] \<mapsto> File (map of_char data))" "cwd_at st' w"
      using stored_abs [OF C(9) C(19) new_file_not_dir p(4) ok(6)] by blast+
    have "fs_rep st' (F(abs_path w p \<mapsto> File (map of_char data)), w)"
      using S R(2) stored_read(1) [OF C(9) C(19) new_file_not_dir p(4) ok(6)] ds(1)
      by (auto simp: fs_rep_def fs_inv_def)
    moreover have "unat (heap_offset st') = unat (heap_offset st) + 57 + length data"
      using stored_read(5) [OF C(9) C(19) new_file_not_dir p(4) ok(6)] C(10) by simp
    moreover have "local_change st st'"
    proof (rule local_change_trans)
      show "local_change st st2" using created_local [OF ok(5)] ds by (auto simp: reach_def)
      show "local_change st2 st'"
        by (rule stored_local [OF C(9) C(19) new_file_not_dir p(4) ok(6)]) (use lk2 in \<open>unfold reach_def, blast\<close>)
    qed
    ultimately show ?thesis using ok(1) R(1) A by (auto simp: simulates_def)
  qed
qed

lemma chdir_simulates:
  assumes rep: "fs_rep st A" and c: "call_ok (Chdir p)"
  shows "\<exists>r_st. fs_do (Chdir p) st = Some r_st \<and> simulates 0 st A (a_do (Chdir p) A) r_st"
proof -
  obtain F w where A: "A = (F, w)" by (rule prod.exhaust)
  obtain K where inv: "fs_ok K st" using rep by (auto simp: fs_rep_def fs_inv_def)
  have p: "cstring p" "p \<noteq> []" and w: "cwd_at st w" and F: "F = fs_abs st"
    using c(1) rep A by (auto simp: fs_rep_def)
  note q = abs_path_cstring [OF w p(1)]
  have lk: "fs_lookup st (path_base st p) (components p) = fs_lookup st (fs_root st) (abs_path w p)"
    using lookup_abs_path [OF w p(1), of "components p"] by (auto simp: abs_path_def)
  from inv p show ?thesis
  proof (cases rule: fs_chdir_cases)
    case fail
    then have "F (abs_path w p) \<noteq> Some Dir" using abs_Dir_iff [OF inv q] lk F by auto
    then show ?thesis using fail(1) simulates_fail [OF rep] A by (auto simp: a_chdir_def)
  next
    case (ok x)
    have "F (abs_path w p) = Some Dir" using abs_Dir_iff [OF inv q] lk F ok(3,4) by auto
    moreover have "fs_rep (st\<lparr>fs_cwd := x\<rparr>) (F, abs_path w p)"
      using same_nodes_abs [OF inv, of "st\<lparr>fs_cwd := x\<rparr>"] q lk ok(2,3) F
      by (auto simp: fs_rep_def fs_inv_def cwd_at_def)
    moreover have "local_change st (st\<lparr>fs_cwd := x\<rparr>)" by (rule local_change_same [OF inv]) simp_all
    ultimately show ?thesis using ok(1) A by (simp add: a_chdir_def simulates_def)
  qed
qed

lemma call_simulates:
  assumes "fs_rep st A" "call_ok c" "room st (call_cost c)"
  shows "\<exists>r_st. fs_do c st = Some r_st \<and> simulates (call_cost c) st A (a_do c A) r_st"
proof (cases c)
  case (Mkdir p)
  then show ?thesis using mkdir_simulates [of st A p] assms by simp
next
  case (Touch p)
  then show ?thesis using touch_simulates [of st A p] assms by simp
next
  case (Write p d)
  then show ?thesis using write_simulates [of st A p d] assms by simp
next
  case (Chdir p)
  then show ?thesis using chdir_simulates [of st A p] assms by simp
qed

fun fs_calls :: "fs_call list \<Rightarrow> 'a fs_st_scheme \<Rightarrow> (int list \<times> 'a fs_st_scheme) option" where
  "fs_calls [] st = Some ([], st)"
| "fs_calls (c # cs) st = do { (r, st) \<leftarrow> fs_do c st; (rs, st) \<leftarrow> fs_calls cs st; Some (r # rs, st) }"

fun a_calls :: "fs_call list \<Rightarrow> files \<times> string list \<Rightarrow> int list \<times> files \<times> string list" where
  "a_calls [] A = ([], A)"
| "a_calls (c # cs) A =
     (case a_do c A of None \<Rightarrow> map_prod (\<lambda>rs. - 1 # rs) id (a_calls cs A)
      | Some B \<Rightarrow> map_prod (\<lambda>rs. 0 # rs) id (a_calls cs B))"

definition calls_cost :: "fs_call list \<Rightarrow> nat" where
  "calls_cost cs = sum_list (map call_cost cs)"

lemma calls_simulate:
  "fs_rep st A \<Longrightarrow> list_all call_ok cs \<Longrightarrow> room st (calls_cost cs + k) \<Longrightarrow>
    \<exists>st'. fs_calls cs st = Some (fst (a_calls cs A), st') \<and> fs_rep st' (snd (a_calls cs A)) \<and> room st' k \<and>
      local_change st st'"
proof (induction cs arbitrary: st A)
  case (Cons c cs)
  have "room st (call_cost c)" using Cons.prems(3) by (simp add: room_def calls_cost_def)
  then obtain r st1 where s: "fs_do c st = Some (r, st1)" "simulates (call_cost c) st A (a_do c A) (r, st1)"
    using call_simulates [of st A c] Cons.prems by auto
  then have rm: "room st1 (calls_cost cs + k)"
    using Cons.prems(3) by (auto simp: simulates_def room_def calls_cost_def)
  show ?case
  proof (cases "a_do c A")
    case None
    then show ?thesis using s Cons.IH [of st1 A] Cons.prems(2) rm
      by (auto simp: simulates_def intro: local_change_trans)
  next
    case (Some B)
    then show ?thesis using s Cons.IH [of st1 B] Cons.prems(2) rm
      by (auto simp: simulates_def intro: local_change_trans)
  qed
qed (simp add: calls_cost_def)

text \<open>
  C3: The file system on the heap refines the abstract one, a map from absolute paths to
  directories and files with their contents, and the path of the working directory. For
  every sequence of \<open>fs_mkdir\<close>, \<open>fs_touch\<close>, \<open>fs_write\<close> and \<open>fs_chdir\<close> with paths of 1 to
  127 characters, absolute or relative, and room on the heap for all of it: the calls return
  the results of the abstract calls, 0 where they are defined and -1 where they are not, and
  the state afterwards keeps the invariant and represents the abstract result.
\<close>

theorem fs_calls_refine:
  assumes "fs_inv st" "cwd_at st w" "list_all call_ok cs" "room st (calls_cost cs)"
  shows "\<exists>st' rs F w'. fs_calls cs st = Some (rs, st') \<and> a_calls cs (fs_abs st, w) = (rs, F, w') \<and>
    fs_inv st' \<and> fs_abs st' = F \<and> cwd_at st' w'"
proof -
  have "fs_rep st (fs_abs st, w)" using assms(1,2) by (simp add: fs_rep_def)
  then obtain st' where "fs_calls cs st = Some (fst (a_calls cs (fs_abs st, w)), st')"
    "fs_rep st' (snd (a_calls cs (fs_abs st, w)))"
    using calls_simulate [of st _ cs 0] assms(3,4) by auto
  then show ?thesis
    by (cases "a_calls cs (fs_abs st, w)") (auto simp: fs_rep_def)
qed

lemma fs_st1_rep: "fs_inv fs_st1" "cwd_at fs_st1 []" "fs_abs fs_st1 = [[] \<mapsto> Dir]"
proof -
  show "fs_inv fs_st1" using fs_st1_ok(1) by (auto simp: fs_inv_def)
  show "cwd_at fs_st1 []" by (simp add: cwd_at_def fs_st1_ok(2))
  have "fs_lookup fs_st1 (fs_root fs_st1) (c # cs) = None" for c cs
    by (simp add: fs_st1_find)
  then show "fs_abs fs_st1 = [[] \<mapsto> Dir]"
    by (auto simp: fs_abs_def fun_eq_iff entry_at_def fs_st1_ok(4) neq_Nil_conv split: option.split)
qed

lemma fs_rep_read_missing:
  assumes rep: "fs_rep st (F, w)" and p: "cstring path" "path \<noteq> []" and F: "F (abs_path w path) = None"
  shows "fs_read (Some path) st = Some (NULL, st)"
proof -
  obtain K where inv: "fs_ok K st" using rep by (auto simp: fs_rep_def fs_inv_def)
  have w: "cwd_at st w" using rep by (simp add: fs_rep_def)
  have "fs_lookup st (path_base st path) (components path) = None"
    using abs_None_iff [OF inv abs_path_cstring [OF w p(1)]] lookup_abs_path [OF w p(1), of "components path"]
      F rep by (simp add: fs_rep_def abs_path_def split: if_splits)
  then show ?thesis using fs_resolve_node [OF inv p] by (simp add: fs_read_def)
qed

theorem fs_calls_refine_witness:
  "\<exists>st'. fs_calls [Mkdir ''/home'', Chdir ''home'', Write ''notes'' ''hi'', Touch ''/home/notes''] fs_st1 =
      Some ([0, 0, 0, - 1], st') \<and>
    fs_abs st' [''home'', ''notes''] = Some (File [0x68, 0x69]) \<and> cwd_at st' [''home'']"
proof -
  let ?cs = "[Mkdir ''/home'', Chdir ''home'', Write ''notes'' ''hi'', Touch ''/home/notes'']"
  have a: "fst (a_calls ?cs ([[] \<mapsto> Dir], [])) = [0, 0, 0, - 1]"
    "fst (snd (a_calls ?cs ([[] \<mapsto> Dir], []))) [''home'', ''notes''] = Some (File [0x68, 0x69])"
    "snd (snd (a_calls ?cs ([[] \<mapsto> Dir], []))) = [''home'']"
    by code_simp+
  have "room fs_st1 (calls_cost ?cs)" by (simp add: room_def fs_st1_ok(5) calls_cost_def)
  moreover have "list_all call_ok ?cs" by (simp add: data_fits_def)
  ultimately obtain st' rs F w where r: "fs_calls ?cs fs_st1 = Some (rs, st')"
    "a_calls ?cs ([[] \<mapsto> Dir], []) = (rs, F, w)" "fs_abs st' = F" "cwd_at st' w"
    using fs_calls_refine [OF fs_st1_rep(1,2), of ?cs] fs_st1_rep(3) by metis
  show ?thesis using r(1,3,4) a unfolding r(2) by auto
qed

end
