(* ===== verification/Security.thy ===== *)
theory Security
  imports Fs_Files
begin

text \<open>
  Users and permissions, \<open>kernel/security.c\<close>: a table of eight users and the index of the
  one that is logged in. The abstract table is a list of names and permissions
  (\<open>sec_table\<close>), the log-in is a position in it, and every operation is shown to be the
  obvious operation on that list. The name of a user is an array of 16 bytes, so a name is
  cut to 15 characters when it is stored, and only the stored name is compared afterwards.
\<close>

definition MAX_USERS :: int where "MAX_USERS = 8"

definition PERM_READ :: u32 where "PERM_READ = 1"
definition PERM_WRITE :: u32 where "PERM_WRITE = 2"
definition PERM_EXEC :: u32 where "PERM_EXEC = 4"
definition PERM_SNAP :: u32 where "PERM_SNAP = 8"
definition PERM_ADMIN :: u32 where "PERM_ADMIN = 16"

lemmas perm_defs = PERM_READ_def PERM_WRITE_def PERM_EXEC_def PERM_SNAP_def PERM_ADMIN_def

record user =
  usr_id :: int
  usr_name :: string
  usr_perms :: u32

record sec_st = fs_st +
  users :: "user list"
  user_count :: int
  current_user_idx :: int

subsection \<open>The part of the state that the file system uses\<close>

text \<open>
  The invariant of the file system depends on these fields only, so it carries over from a
  state to any other, of any component, that agrees on them.
\<close>

type_synonym fs_view = "u32 \<times> u8 list \<times> nat \<times> (ptr \<Rightarrow> fs_node option) \<times> (ptr \<Rightarrow> u8 list option) \<times>
  (ptr \<Rightarrow> snap option) \<times> ptr \<times> ptr \<times> ptr"

definition fs_view :: "'a fs_st_scheme \<Rightarrow> fs_view" where
  "fs_view st = (heap_offset st, g_key st, g_key_len st, fs_nodes st, fs_bufs st, fs_snaps st,
     fs_root st, fs_cwd st, snap_head st)"

lemma fs_viewD:
  assumes "fs_view s = fs_view t"
  shows "heap_offset s = heap_offset t" "fs_nodes s = fs_nodes t" "fs_bufs s = fs_bufs t"
    "fs_snaps s = fs_snaps t" "fs_root s = fs_root t" "fs_cwd s = fs_cwd t" "snap_head s = snap_head t"
    "g_key s = g_key t" "g_key_len s = g_key_len t"
  using assms by (simp_all add: fs_view_def)

lemma fs_ok_view: "fs_view s = fs_view t \<Longrightarrow> fs_ok K s = fs_ok K t"
  unfolding fs_ok_def kmem_wf_def crypto_ready_def below_top_def heap_top_def
  by (simp add: fs_viewD [of s t])

lemma fs_inv_view: "fs_view s = fs_view t \<Longrightarrow> fs_inv s = fs_inv t"
  unfolding fs_inv_def using fs_ok_view by blast

lemma room_view: "fs_view s = fs_view t \<Longrightarrow> room s k = room t k"
  by (simp add: room_def fs_viewD [of s t])

lemma fs_view_calls [simp, frame_simps]:
  "fs_view (log_event m st) = fs_view st" "fs_view (con_call f c st) = fs_view st"
  by (cases m; simp add: fs_view_def log_event_Some con_call_def)+

text \<open>The local copies of the string routines; the comparison accepts \<open>NULL\<close>.\<close>

fun s_strcmp :: "string option \<Rightarrow> string option \<Rightarrow> int" where
  "s_strcmp None None = 0"
| "s_strcmp None (Some b) = 1"
| "s_strcmp (Some a) None = 1"
| "s_strcmp (Some (a # as)) (Some (b # bs)) =
     (if a = b then s_strcmp (Some as) (Some bs) else ord a - ord b)"
| "s_strcmp (Some (a # as)) (Some []) = ord a - ord NUL"
| "s_strcmp (Some []) (Some (b # bs)) = ord NUL - ord b"
| "s_strcmp (Some []) (Some []) = ord NUL - ord NUL"

fun s_strncpy_loop :: "string \<Rightarrow> nat \<Rightarrow> string" where
  "s_strncpy_loop (c # src) (Suc m) = c # s_strncpy_loop src m"
| "s_strncpy_loop _ _ = []"

definition s_strncpy :: "string \<Rightarrow> string option \<Rightarrow> int \<Rightarrow> string" where
  "s_strncpy dst src max_len =
     (case src of None \<Rightarrow> dst
      | Some s \<Rightarrow> if max_len \<le> 0 then dst else s_strncpy_loop s (nat (max_len - 1)))"

subsection \<open>Operations\<close>

text \<open>A pointer to a user is the user, \<open>NULL\<close> is \<open>None\<close>.\<close>

definition sec_get_current_user :: "'a sec_st_scheme \<Rightarrow> user option" where
  "sec_get_current_user st =
     (if current_user_idx st < 0 \<or> current_user_idx st \<ge> user_count st then None
      else Some (users st ! nat (current_user_idx st)))"

definition sec_get_current_username :: "'a sec_st_scheme \<Rightarrow> string" where
  "sec_get_current_username st =
     (case sec_get_current_user st of None \<Rightarrow> ''<none>'' | Some u \<Rightarrow> usr_name u)"

text \<open>The search for a user of a name, from index \<open>i\<close> on: the loop of both its callers.\<close>

function user_loop :: "string \<Rightarrow> int \<Rightarrow> 'a sec_st_scheme \<Rightarrow> int option" where
  "user_loop name i st =
     (if i < user_count st then
        if s_strcmp (Some (usr_name (users st ! nat i))) (Some name) = 0 then Some i
        else user_loop name (i + 1) st
      else None)"
  by pat_completeness auto
termination
  by (relation "measure (\<lambda>(name, i, st). nat (user_count st - i))") auto

declare user_loop.simps [simp del]

definition sec_add_user :: "string option \<Rightarrow> u32 \<Rightarrow> 'a sec_st_scheme \<Rightarrow> int \<times> 'a sec_st_scheme" where
  "sec_add_user name perms st =
     (case name of None \<Rightarrow> (-1, st)
      | Some nm \<Rightarrow>
          if nm = [] then (-1, st)
          else if user_count st \<ge> MAX_USERS then (-1, st)
          else if user_loop nm 0 st \<noteq> None then (-1, st)
          else let k = nat (user_count st);
                   u = (users st ! k)\<lparr>usr_id := user_count st\<rparr>;
                   u = u\<lparr>usr_name := s_strncpy (usr_name u) name 16\<rparr>;
                   u = u\<lparr>usr_perms := perms\<rparr>;
                   st = st\<lparr>users := (users st)[k := u], user_count := user_count st + 1\<rparr>;
                   st = log_event (Some ''security: added user'') st
               in (usr_id u, st))"

definition sec_init :: "'a sec_st_scheme \<Rightarrow> 'a sec_st_scheme" where
  "sec_init st =
     (let st = st\<lparr>user_count := 0, current_user_idx := -1\<rparr>;
          (root_id, st) = sec_add_user (Some ''root'')
            (PERM_READ OR PERM_WRITE OR PERM_EXEC OR PERM_SNAP OR PERM_ADMIN) st;
          (guest_id, st) = sec_add_user (Some ''guest'') PERM_READ st
      in if root_id \<ge> 0
         then log_event (Some ''security: created users root, guest; logged in as root'')
                (st\<lparr>current_user_idx := 0\<rparr>)
         else log_event (Some ''security: failed to create initial users'') st)"

definition sec_login :: "string option \<Rightarrow> 'a sec_st_scheme \<Rightarrow> int \<times> 'a sec_st_scheme" where
  "sec_login name st =
     (case name of None \<Rightarrow> (-1, st)
      | Some nm \<Rightarrow>
          if nm = [] then (-1, st)
          else case user_loop nm 0 st of
            Some i \<Rightarrow>
              let st = st\<lparr>current_user_idx := i\<rparr>;
                  st = log_event (Some ''security: user login'') st;
                  st = console_write Security_c ''Logged in as '' st;
                  st = console_write Security_c (usr_name (users st ! nat i)) st;
                  st = console_write Security_c [newline] st
              in (0, st)
          | None \<Rightarrow>
              let st = console_write Security_c (''No such user.'' @ [newline]) st;
                  st = log_event (Some ''security: failed login attempt'') st
              in (-1, st))"

text \<open>
  \<open>sec_list_users\<close> copies into an array of the caller; the model returns the copied prefix
  and the count, so the caller's array has to hold \<open>max\<close> users.
\<close>

fun copy_users :: "user list \<Rightarrow> nat \<Rightarrow> user list" where
  "copy_users (u # us) (Suc n) = u # copy_users us n"
| "copy_users _ _ = []"

definition sec_list_users :: "int \<Rightarrow> 'a sec_st_scheme \<Rightarrow> int \<times> user list" where
  "sec_list_users mx st =
     (if mx \<le> 0 then (0, [])
      else let n = (if user_count st < mx then user_count st else mx)
           in (n, copy_users (users st) (nat n)))"

definition sec_check_perm :: "u32 \<Rightarrow> 'a sec_st_scheme \<Rightarrow> int" where
  "sec_check_perm required st =
     (case sec_get_current_user st of None \<Rightarrow> 0
      | Some u \<Rightarrow> if usr_perms u AND required = required then 1 else 0)"

definition sec_require_perm ::
  "u32 \<Rightarrow> string option \<Rightarrow> 'a sec_st_scheme \<Rightarrow> int \<times> 'a sec_st_scheme" where
  "sec_require_perm required action st =
     (if sec_check_perm required st \<noteq> 0 then (0, st)
      else let st = console_write Security_c ''Permission denied: '' st;
               st = (case action of None \<Rightarrow> st | Some a \<Rightarrow> console_write Security_c a st);
               st = console_write Security_c [newline] st;
               st = log_event (Some ''security: permission denied'') st
           in (-1, st))"

subsection \<open>The string routines\<close>

lemma s_strcmp_Some [simp]: "s_strcmp (Some a) (Some b) = kstrcmp a b"
  by (induction a b rule: kstrcmp.induct) auto

lemma s_strncpy_loop_eq: "s_strncpy_loop s m = take m s"
  by (induction s m rule: s_strncpy_loop.induct) auto

lemma s_strncpy_eq: "0 < n \<Longrightarrow> s_strncpy dst (Some s) n = take (nat (n - 1)) s"
  by (simp add: s_strncpy_def s_strncpy_loop_eq)

lemma copy_users_eq: "copy_users us n = take n us"
  by (induction us n rule: copy_users.induct) auto

subsection \<open>The abstract table\<close>

text \<open>
  The well-formed states: the count and the log-in index are in range, a user's id is its
  position, and no two users have the same name.
\<close>

definition sec_table :: "'a sec_st_scheme \<Rightarrow> (string \<times> u32) list" where
  "sec_table st = map (\<lambda>u. (usr_name u, usr_perms u)) (take (nat (user_count st)) (users st))"

definition sec_wf :: "'a sec_st_scheme \<Rightarrow> bool" where
  "sec_wf st \<longleftrightarrow> length (users st) = 8 \<and> 0 \<le> user_count st \<and> user_count st \<le> 8 \<and>
     -1 \<le> current_user_idx st \<and> current_user_idx st < user_count st \<and>
     (\<forall>i < nat (user_count st). usr_id (users st ! i) = int i \<and> cstring (usr_name (users st ! i)))"

text \<open>The log-in as an entry of the abstract table.\<close>

definition sec_current :: "'a sec_st_scheme \<Rightarrow> (string \<times> u32) option" where
  "sec_current st =
     (if current_user_idx st < 0 then None else Some (sec_table st ! nat (current_user_idx st)))"

fun table_find :: "string \<Rightarrow> (string \<times> u32) list \<Rightarrow> nat option" where
  "table_find n [] = None"
| "table_find n (e # es) = (if fst e = n then Some 0 else map_option Suc (table_find n es))"

lemma table_find_None: "table_find n es = None \<longleftrightarrow> n \<notin> fst ` set es"
  by (induction es) auto

lemma table_find_Some:
  assumes "table_find n es = Some i"
  shows "i < length es" "fst (es ! i) = n" "\<And>j. j < i \<Longrightarrow> fst (es ! j) \<noteq> n"
proof -
  have "i < length es \<and> fst (es ! i) = n \<and> (\<forall>j < i. fst (es ! j) \<noteq> n)"
    using assms
  proof (induction es arbitrary: i)
    case (Cons e es)
    then show ?case by (cases i) (auto simp: nth_Cons' split: if_splits)
  qed simp
  then show "i < length es" "fst (es ! i) = n" "\<And>j. j < i \<Longrightarrow> fst (es ! j) \<noteq> n" by auto
qed

lemma sec_table_log [simp, frame_simps]:
  "sec_table (log_event m st) = sec_table st" "sec_table (con_call f c st) = sec_table st"
  "users (log_event m st) = users st" "users (con_call f c st) = users st"
  "user_count (log_event m st) = user_count st" "user_count (con_call f c st) = user_count st"
  "current_user_idx (log_event m st) = current_user_idx st"
  "current_user_idx (con_call f c st) = current_user_idx st"
  by (cases m; simp add: sec_table_def log_event_Some con_call_def)+

lemma length_sec_table: "sec_wf st \<Longrightarrow> length (sec_table st) = nat (user_count st)"
  by (auto simp: sec_wf_def sec_table_def)

lemma sec_table_nth:
  "sec_wf st \<Longrightarrow> i < nat (user_count st) \<Longrightarrow>
     sec_table st ! i = (usr_name (users st ! i), usr_perms (users st ! i))"
  by (auto simp: sec_wf_def sec_table_def)

lemma user_loop_from:
  assumes "sec_wf st" "cstring name"
  shows "i \<le> nat (user_count st) \<Longrightarrow> user_loop name (int i) st =
    map_option (\<lambda>k. int (i + k)) (table_find name (drop i (sec_table st)))"
proof (induction "nat (user_count st) - i" arbitrary: i)
  case 0
  then have "i = nat (user_count st)" "\<not> int i < user_count st"
    using assms(1) by (auto simp: sec_wf_def)
  then show ?case using length_sec_table [OF assms(1)]
    by (subst user_loop.simps) simp
next
  case (Suc n)
  then have i: "i < nat (user_count st)" "int i < user_count st" by linarith+
  have "cstring (usr_name (users st ! i))" using assms(1) i by (auto simp: sec_wf_def)
  then have cmp: "s_strcmp (Some (usr_name (users st ! i))) (Some name) = 0 \<longleftrightarrow>
      usr_name (users st ! i) = name" using assms(2) by simp
  have d: "drop i (sec_table st) = sec_table st ! i # drop (Suc i) (sec_table st)"
    using i assms(1) by (simp add: Cons_nth_drop_Suc length_sec_table)
  have ih: "user_loop name (int i + 1) st =
      map_option (\<lambda>k. int (Suc i + k)) (table_find name (drop (Suc i) (sec_table st)))"
    using Suc.hyps(1) [of "Suc i"] Suc.hyps(2) i by (simp add: add.commute)
  show ?case
    by (subst user_loop.simps)
      (use i cmp ih in \<open>auto simp: d sec_table_nth [OF assms(1)] option.map_comp o_def
        intro!: option.map_cong\<close>)
qed

lemma user_loop_refines:
  "sec_wf st \<Longrightarrow> cstring name \<Longrightarrow> user_loop name 0 st = map_option int (table_find name (sec_table st))"
  using user_loop_from [of st name 0] by simp

lemma sec_get_current_user_current:
  assumes "sec_wf st"
  shows "map_option (\<lambda>u. (usr_name u, usr_perms u)) (sec_get_current_user st) = sec_current st"
proof (cases "current_user_idx st < 0")
  case False
  then have "nat (current_user_idx st) < nat (user_count st)" using assms by (simp add: sec_wf_def)
  then show ?thesis using False assms
    by (simp add: sec_get_current_user_def sec_current_def sec_table_nth [OF assms])
qed (simp add: sec_get_current_user_def sec_current_def)

lemma sec_wf_calls [intro]:
  "sec_wf st \<Longrightarrow> sec_wf (log_event m st)" "sec_wf st \<Longrightarrow> sec_wf (con_call f c st)"
  by (simp_all add: sec_wf_def frame_simps)

lemma sec_current_calls [simp, frame_simps]:
  "sec_current (log_event m st) = sec_current st" "sec_current (con_call f c st) = sec_current st"
  by (simp_all add: sec_current_def)

subsection \<open>The operations on the abstract table\<close>

lemma sec_check_perm_current:
  assumes "sec_wf st"
  shows "sec_check_perm r st =
    (case sec_current st of None \<Rightarrow> 0 | Some (n, p) \<Rightarrow> if p AND r = r then 1 else 0)"
  unfolding sec_get_current_user_current [OF assms, symmetric]
  by (auto simp: sec_check_perm_def split: option.splits)

lemma sec_get_current_username_current:
  assumes "sec_wf st"
  shows "sec_get_current_username st =
    (case sec_current st of None \<Rightarrow> ''<none>'' | Some (n, p) \<Rightarrow> n)"
  unfolding sec_get_current_user_current [OF assms, symmetric]
  by (auto simp: sec_get_current_username_def split: option.splits)

lemma sec_login_cases:
  assumes wf: "sec_wf st" and name: "cstring name" "name \<noteq> []"
  obtains (found) i where "table_find name (sec_table st) = Some i" "i < nat (user_count st)"
      "sec_login (Some name) st =
        (0, console_write Security_c [newline] (console_write Security_c name
              (console_write Security_c ''Logged in as ''
                (log_event (Some ''security: user login'') (st\<lparr>current_user_idx := int i\<rparr>)))))"
    | (unknown) "table_find name (sec_table st) = None"
      "sec_login (Some name) st =
        (-1, log_event (Some ''security: failed login attempt'')
               (console_write Security_c (''No such user.'' @ [newline]) st))"
proof (cases "table_find name (sec_table st)")
  case None
  then show ?thesis using unknown user_loop_refines [OF wf name(1)] name(2)
    by (simp add: sec_login_def)
next
  case (Some i)
  note t = table_find_Some [OF Some]
  then have i: "i < nat (user_count st)" using length_sec_table [OF wf] by simp
  then have "usr_name (users st ! i) = name" using t(2) sec_table_nth [OF wf, of i] by simp
  then show ?thesis using found [OF Some i] user_loop_refines [OF wf name(1)] Some name(2)
    by (simp add: sec_login_def frame_simps)
qed

lemma sec_table_idx [simp, frame_simps]: "sec_table (st\<lparr>current_user_idx := i\<rparr>) = sec_table st"
  by (simp add: sec_table_def)

lemma sec_wf_idx: "sec_wf st \<Longrightarrow> i < nat (user_count st) \<Longrightarrow> sec_wf (st\<lparr>current_user_idx := int i\<rparr>)"
  by (auto simp: sec_wf_def)

lemma sec_current_idx: "sec_current (st\<lparr>current_user_idx := int i\<rparr>) = Some (sec_table st ! i)"
  by (simp add: sec_current_def)

lemma sec_add_user_eq:
  assumes wf: "sec_wf st" and name: "cstring name" "name \<noteq> []"
  shows "sec_add_user (Some name) perms st =
    (if length (sec_table st) < 8 \<and> name \<notin> fst ` set (sec_table st)
     then (int (length (sec_table st)),
           log_event (Some ''security: added user'')
             (st\<lparr>users := (users st)[length (sec_table st) :=
                  (users st ! length (sec_table st))\<lparr>usr_id := int (length (sec_table st)),
                    usr_name := take 15 name, usr_perms := perms\<rparr>],
                user_count := user_count st + 1\<rparr>))
     else (-1, st))"
  using wf user_loop_refines [OF wf name(1)] name(2) length_sec_table [OF wf]
  by (auto simp: table_find_None sec_add_user_def MAX_USERS_def Let_def s_strncpy_eq sec_wf_def)

lemma sec_added:
  fixes perms :: u32
  assumes wf: "sec_wf st" and name: "cstring name" and k: "k = length (sec_table st)" "k < 8"
  defines "st' \<equiv> st\<lparr>users := (users st)[k := (users st ! k)\<lparr>usr_id := int k, usr_name := take 15 name,
                    usr_perms := perms\<rparr>], user_count := user_count st + 1\<rparr>"
  shows "sec_wf st'" "sec_table st' = sec_table st @ [(take 15 name, perms)]"
    "sec_current st' = sec_current st"
proof -
  have k': "k = nat (user_count st)" "user_count st < 8" "0 \<le> user_count st" "length (users st) = 8"
    using k length_sec_table [OF wf] wf by (auto simp: sec_wf_def)
  show "sec_wf st'" using wf k' name by (auto simp: sec_wf_def st'_def nth_list_update)
  have "nat (user_count st + 1) = Suc k" using k' by simp
  then show t: "sec_table st' = sec_table st @ [(take 15 name, perms)]"
    using k k' by (simp add: sec_table_def st'_def take_Suc_update)
  show "sec_current st' = sec_current st"
    using wf k' length_sec_table [OF wf]
    by (auto simp: sec_current_def t nth_append) (auto simp: st'_def sec_wf_def)
qed

lemma fs_view_sec [simp, frame_simps]:
  "fs_view (snd (sec_add_user n p st)) = fs_view st" "fs_view (st\<lparr>current_user_idx := i\<rparr>) = fs_view st"
  "fs_view (snd (sec_login n st)) = fs_view st" "fs_view (snd (sec_require_perm r a st)) = fs_view st"
proof -
  have upd: "fs_view (st\<lparr>users := us, user_count := k\<rparr>) = fs_view st"
    "fs_view (st\<lparr>current_user_idx := i\<rparr>) = fs_view st" for us k i
    by (simp_all add: fs_view_def)
  show "fs_view (snd (sec_add_user n p st)) = fs_view st"
    by (auto simp: sec_add_user_def Let_def upd split: option.splits)
  show "fs_view (snd (sec_login n st)) = fs_view st"
    by (auto simp: sec_login_def Let_def upd split: option.splits)
  show "fs_view (snd (sec_require_perm r a st)) = fs_view st"
    by (cases a) (auto simp: sec_require_perm_def Let_def)
qed (simp add: fs_view_def)

lemma fs_view_sec_init [simp, frame_simps]: "fs_view (sec_init st) = fs_view st"
proof -
  let ?a = "st\<lparr>user_count := 0, current_user_idx := -1\<rparr>"
  let ?p = "PERM_READ OR PERM_WRITE OR PERM_EXEC OR PERM_SNAP OR PERM_ADMIN"
  obtain r b where b: "sec_add_user (Some ''root'') ?p ?a = (r, b)" by (rule prod.exhaust)
  obtain g c where c: "sec_add_user (Some ''guest'') PERM_READ b = (g, c)" by (rule prod.exhaust)
  have "fs_view b = fs_view ?a" "fs_view c = fs_view b"
    using fs_view_sec(1) [of "Some ''root''" ?p ?a] fs_view_sec(1) [of "Some ''guest''" PERM_READ b] b c
    by simp_all
  moreover have "fs_view ?a = fs_view st" by (simp add: fs_view_def)
  ultimately show ?thesis by (simp add: sec_init_def b c)
qed

text \<open>
  The boot: \<open>sec_init\<close> fills the table with its two users and logs the first one in, whatever
  the table held before.
\<close>

definition boot_table :: "(string \<times> u32) list" where
  "boot_table = [(''root'', 31), (''guest'', 1)]"

lemma sec_init_table:
  assumes "length (users st) = 8"
  shows "sec_wf (sec_init st)" "sec_table (sec_init st) = boot_table"
    "sec_current (sec_init st) = Some (''root'', 31)"
proof -
  let ?a = "st\<lparr>user_count := 0, current_user_idx := -1\<rparr>"
  have wa: "sec_wf ?a" "sec_table ?a = []" using assms by (auto simp: sec_wf_def sec_table_def)
  obtain r b where b: "sec_add_user (Some ''root'') 31 ?a = (r, b)" by fastforce
  have wb: "sec_wf b" "sec_table b = [(''root'', 31)]" "r = 0"
    using sec_added [OF wa(1), where name = "''root''" and k = 0 and perms = 31] wa b
    by (auto simp: sec_add_user_eq [OF wa(1)] frame_simps)
  obtain g c where c: "sec_add_user (Some ''guest'') 1 b = (g, c)" by fastforce
  have wc: "sec_wf c" "sec_table c = boot_table"
    using sec_added [OF wb(1), where name = "''guest''" and k = 1 and perms = 1] wb c
    by (auto simp: sec_add_user_eq [OF wb(1)] frame_simps boot_table_def)
  have "user_count c = 2" using length_sec_table [OF wc(1)] wc by (simp add: boot_table_def sec_wf_def)
  then have "0 < nat (user_count c)" by simp
  then have wd: "sec_wf (c\<lparr>current_user_idx := 0\<rparr>)" using sec_wf_idx [OF wc(1), of 0] by simp
  have eq: "sec_init st = log_event (Some ''security: created users root, guest; logged in as root'')
      (c\<lparr>current_user_idx := 0\<rparr>)"
    using b c wb(3) by (simp add: sec_init_def perm_defs)
  show "sec_wf (sec_init st)" unfolding eq using wd by (rule sec_wf_calls)
  show "sec_table (sec_init st) = boot_table" unfolding eq using wc by simp
  show "sec_current (sec_init st) = Some (''root'', 31)"
    unfolding eq using sec_current_idx [of 0 c] wc by (simp add: boot_table_def)
qed

text \<open>A concrete state: the table of the C program as it is loaded, beside a new file system.\<close>

definition sec_st0 :: sec_st where
  "sec_st0 = fs_st.extend fs_st1
     \<lparr>users = replicate 8 \<lparr>usr_id = 0, usr_name = [], usr_perms = 0\<rparr>,
      user_count = 0, current_user_idx = -1\<rparr>"

lemma length_users_st0: "length (users sec_st0) = 8"
  by (simp add: sec_st0_def fs_st.defs)

lemmas boot_state = sec_init_table [OF length_users_st0]

text \<open>
  Logging in with a non-empty name is a search in the table of users: when a user of that
  name exists, \<open>sec_login\<close> returns 0, that user is the current one afterwards and the new
  name is printed; otherwise it returns -1, prints that there is no such user, and leaves the
  log-in as it was. Neither case changes the table, and the state stays well formed.
\<close>

theorem sec_login_spec:
  assumes "sec_wf st" "cstring name" "name \<noteq> []" "sec_login (Some name) st = (r, st')"
  shows "sec_wf st' \<and> sec_table st' = sec_table st \<and>
    (case table_find name (sec_table st) of
      Some i \<Rightarrow> r = 0 \<and> sec_current st' = Some (sec_table st ! i) \<and>
        written (con_out st') = written (con_out st) @ [''Logged in as '', name, [newline]]
    | None \<Rightarrow> r = -1 \<and> sec_current st' = sec_current st \<and>
        written (con_out st') = written (con_out st) @ [''No such user.'' @ [newline]])"
  using assms(1-3)
proof (cases rule: sec_login_cases)
  case (found i)
  then show ?thesis using assms(1,4)
    by (auto simp: frame_simps sec_current_idx intro!: sec_wf_idx sec_wf_calls)
next
  case unknown
  then show ?thesis using assms(1,4) by (auto simp: frame_simps)
qed

theorem sec_login_spec_witness:
  "\<exists>r st'. sec_login (Some ''guest'') (sec_init sec_st0) = (r, st') \<and> r = 0 \<and>
     sec_current st' = Some (''guest'', 1)"
proof -
  obtain r st' where l: "sec_login (Some ''guest'') (sec_init sec_st0) = (r, st')" by fastforce
  have "table_find ''guest'' boot_table = Some 1" by (simp add: boot_table_def)
  then show ?thesis using sec_login_spec [OF boot_state(1) _ _ l] l
    by (simp add: boot_state boot_table_def)
qed

text \<open>
  \<open>sec_add_user\<close> appends an entry to the table of users exactly when there are fewer than
  eight and the name is not in the table; it then returns the position of the entry, whose
  name is cut to 15 characters, and keeps the log-in. In every other case it returns -1 and
  changes nothing. The state stays well formed.
\<close>

theorem sec_add_user_spec:
  assumes "sec_wf st" "cstring name" "name \<noteq> []" "sec_add_user (Some name) perms st = (r, st')"
  shows "sec_wf st' \<and> sec_current st' = sec_current st \<and>
    (if length (sec_table st) < 8 \<and> name \<notin> fst ` set (sec_table st)
     then r = int (length (sec_table st)) \<and>
       sec_table st' = sec_table st @ [(take 15 name, perms)]
     else r = -1 \<and> st' = st)"
  using assms(4) sec_added [OF assms(1,2) refl] assms(1)
  by (auto simp: sec_add_user_eq [OF assms(1-3)] frame_simps split: if_splits)

theorem sec_add_user_spec_witness:
  "\<exists>r st'. sec_add_user (Some ''alice'') PERM_WRITE (sec_init sec_st0) = (r, st') \<and> r = 2 \<and>
     sec_table st' = boot_table @ [(''alice'', PERM_WRITE)]"
proof -
  obtain r st' where l: "sec_add_user (Some ''alice'') PERM_WRITE (sec_init sec_st0) = (r, st')"
    by fastforce
  show ?thesis using sec_add_user_spec [OF boot_state(1) _ _ l] l
    by (simp add: boot_state boot_table_def)
qed

definition sec_logins :: "string list \<Rightarrow> 'a sec_st_scheme \<Rightarrow> 'a sec_st_scheme" where
  "sec_logins ns st = fold (\<lambda>n st. snd (sec_login (Some n) st)) ns st"

lemma sec_login_keeps:
  assumes "sec_wf st" "cstring n" "sec_table st = boot_table" "sec_current st \<in> Some ` set boot_table"
  shows "sec_wf (snd (sec_login (Some n) st)) \<and> sec_table (snd (sec_login (Some n) st)) = boot_table \<and>
    sec_current (snd (sec_login (Some n) st)) \<in> Some ` set boot_table"
proof (cases "n = []")
  case True
  then show ?thesis using assms by (simp add: sec_login_def)
next
  case False
  show ?thesis using assms(1,2) False
  proof (cases rule: sec_login_cases)
    case (found i)
    then have "boot_table ! i \<in> set boot_table" using assms(3) by (auto dest!: table_find_Some(1))
    then show ?thesis using found assms
      by (auto simp: frame_simps sec_current_idx intro!: sec_wf_idx sec_wf_calls)
  next
    case unknown
    then show ?thesis using assms by (auto simp: frame_simps)
  qed
qed

lemma sec_logins_keep:
  assumes "sec_wf st" "\<forall>n \<in> set ns. cstring n" "sec_table st = boot_table"
    "sec_current st \<in> Some ` set boot_table"
  shows "sec_wf (sec_logins ns st) \<and> sec_table (sec_logins ns st) = boot_table \<and>
    sec_current (sec_logins ns st) \<in> Some ` set boot_table"
  using assms
proof (induction ns arbitrary: st)
  case (Cons n ns)
  then show ?case using sec_login_keeps [of st n] by (simp add: sec_logins_def)
qed (simp add: sec_logins_def)

lemma sec_require_perm_eq:
  "sec_require_perm r (Some a) st =
    (if sec_check_perm r st \<noteq> 0 then (0, st)
     else (-1, log_event (Some ''security: permission denied'')
                 (console_write Security_c [newline] (console_write Security_c a
                   (console_write Security_c ''Permission denied: '' st)))))"
  by (simp add: sec_require_perm_def)

text \<open>
  C11: After the boot and any sequence of log-ins, successful or not, the current user is
  \<open>root\<close> or \<open>guest\<close>; \<open>sec_require_perm\<close> lets \<open>root\<close> do what needs any of the five permissions,
  and lets \<open>guest\<close> only do what needs reading or no permission at all. When it refuses, it
  prints the action and leaves the table and the log-in alone.
\<close>

theorem sec_guest_only_reads:
  assumes "length (users st) = 8" "\<forall>n \<in> set ns. cstring n" "st' = sec_logins ns (sec_init st)"
    "sec_require_perm r (Some a) st' = (v, st'')"
  shows "(sec_get_current_username st' = ''root'' \<and> (v = 0 \<longleftrightarrow> r AND 31 = r) \<or>
      sec_get_current_username st' = ''guest'' \<and> (v = 0 \<longleftrightarrow> r = 0 \<or> r = PERM_READ)) \<and>
    (if v = 0 then st'' = st'
     else v = -1 \<and> sec_table st'' = sec_table st' \<and> sec_current st'' = sec_current st' \<and>
       written (con_out st'') = written (con_out st') @ [''Permission denied: '', a, [newline]])"
proof -
  have st': "sec_wf st'" "sec_current st' \<in> Some ` set boot_table"
    using sec_logins_keep [OF sec_init_table(1) assms(2) sec_init_table(2)] sec_init_table(3) assms(1,3)
    by (auto simp: boot_table_def)
  have one: "1 AND r = r \<longleftrightarrow> r = 0 \<or> r = 1" for r :: u32
    by (auto simp: and_one_eq and.commute one_and_eq mod2_eq_if split: if_splits)
  from st' assms(4) show ?thesis
    by (auto simp: sec_require_perm_eq sec_check_perm_current sec_get_current_username_current
        boot_table_def one PERM_READ_def and.commute frame_simps split: if_splits)
qed

theorem sec_guest_only_reads_witness:
  "\<exists>v st''. sec_require_perm PERM_WRITE (Some ''write file'') (sec_logins [''guest''] (sec_init sec_st0)) =
     (v, st'') \<and> v = -1"
proof -
  let ?st = "sec_logins [''guest''] (sec_init sec_st0)"
  obtain v st'' where r: "sec_require_perm PERM_WRITE (Some ''write file'') ?st = (v, st'')" by fastforce
  have n: "cstring ''guest''" "''guest'' \<noteq> []" by simp_all
  have "sec_current ?st = Some (''guest'', 1)"
    using boot_state(1) n
  proof (cases rule: sec_login_cases)
    case (found i)
    then have "i = 1" by (simp add: boot_state boot_table_def)
    then show ?thesis using found(3)
      by (simp add: sec_logins_def boot_state boot_table_def sec_current_def frame_simps)
  next
    case unknown
    then show ?thesis by (simp add: boot_state boot_table_def)
  qed
  moreover have "sec_wf ?st"
    using sec_logins_keep [OF boot_state(1), of "[''guest'']"] by (simp add: boot_state boot_table_def)
  ultimately have "sec_get_current_username ?st = ''guest''"
    by (simp add: sec_get_current_username_current)
  then show ?thesis using sec_guest_only_reads [OF length_users_st0 _ refl r] r
    by (auto simp: PERM_WRITE_def PERM_READ_def)
qed

end
