(* ===== verification/Decimal.thy ===== *)
theory Decimal
  imports Output
begin

text \<open>
  Decimal numbers: the routine \<open>kprint_u32\<close> of \<open>syscall.c\<close>, \<open>isr.c\<close> and \<open>kernel_main.c\<close>, its
  signed relative \<open>isr_print_uint\<close>, \<open>ui_itoa\<close> of the shell, and the loop with which the shell
  reads the number of a sector. Each prints the decimal notation of its argument, and reading
  what was printed gives the number back.
\<close>

definition digit_char :: "nat \<Rightarrow> char" where
  "digit_char d = char_of (48 + d)"

text \<open>The loop that fills the buffer with the digits, the lowest first.\<close>

function digits_loop :: "nat \<Rightarrow> u32 \<Rightarrow> string \<Rightarrow> string" where
  "digits_loop cap v buf =
     (if v > 0 \<and> length buf < cap
      then digits_loop cap (v div 10) (buf @ [digit_char (unat (v mod 10))])
      else buf)"
  by pat_completeness auto
termination
  by (relation "measure (\<lambda>(cap, v, buf). unat v)")
    (auto simp: unat_div word_gt_0 unat_gt_0 intro: div_less_dividend)

declare digits_loop.simps [simp del]

text \<open>The loop that prints the buffer from its end.\<close>

fun putc_down :: "tu \<Rightarrow> string \<Rightarrow> nat \<Rightarrow> 'a out_st_scheme \<Rightarrow> 'a out_st_scheme" where
  "putc_down f buf 0 st = st"
| "putc_down f buf (Suc i) st = putc_down f buf i (con_call f (Con_putc (buf ! i)) st)"

definition kprint_u32 :: "tu \<Rightarrow> u32 \<Rightarrow> 'a out_st_scheme \<Rightarrow> 'a out_st_scheme" where
  "kprint_u32 f v st =
     (if v = 0 then console_write f ''0'' st
      else let buf = digits_loop 16 v []
           in putc_down f buf (length buf) st)"

function int_digits_loop :: "nat \<Rightarrow> int \<Rightarrow> string \<Rightarrow> string" where
  "int_digits_loop cap v buf =
     (if v > 0 \<and> length buf < cap
      then int_digits_loop cap (v div 10) (buf @ [digit_char (nat (v mod 10))])
      else buf)"
  by pat_completeness auto
termination
  by (relation "measure (\<lambda>(cap, v, buf). nat v)") auto

declare int_digits_loop.simps [simp del]

definition isr_print_uint :: "int \<Rightarrow> 'a out_st_scheme \<Rightarrow> 'a out_st_scheme" where
  "isr_print_uint v st =
     (if v = 0 then console_write Isr_c ''0'' st
      else let buf = int_digits_loop 16 v []
           in putc_down Isr_c buf (length buf) st)"

definition ui_itoa :: "u32 \<Rightarrow> string" where
  "ui_itoa v = (if v = 0 then ''0'' else rev (digits_loop 15 v []))"

text \<open>The digits of \<open>cmd_uptime\<close>, whose loop has no bound of its own.\<close>

function uptime_loop :: "u32 \<Rightarrow> string \<Rightarrow> string" where
  "uptime_loop t tmp =
     (if t > 0 then uptime_loop (t div 10) (tmp @ [digit_char (unat (t mod 10))]) else tmp)"
  by pat_completeness auto
termination
  by (relation "measure (\<lambda>(t, tmp). unat t)")
    (auto simp: unat_div word_gt_0 unat_gt_0 intro: div_less_dividend)

declare uptime_loop.simps [simp del]

text \<open>
  Reading a sector number: the digits from the start of the string, the value in 32 bits, and
  the rest of the string.
\<close>

fun parse_u32 :: "u32 \<Rightarrow> string \<Rightarrow> u32 \<times> string" where
  "parse_u32 lba [] = (lba, [])"
| "parse_u32 lba (c # s) =
     (if ord c \<ge> 48 \<and> ord c \<le> 57 then parse_u32 (lba * 10 + of_int (ord c - 48)) s
      else (lba, c # s))"

subsection \<open>The notation\<close>

fun decimal :: "nat \<Rightarrow> string" where
  "decimal n = (if n < 10 then [digit_char n] else decimal (n div 10) @ [digit_char (n mod 10)])"

declare decimal.simps [simp del]

lemma length_decimal: "n < 10 ^ Suc k \<Longrightarrow> length (decimal n) \<le> Suc k"
proof (induction k arbitrary: n)
  case 0
  then show ?case by (simp add: decimal.simps)
next
  case (Suc k)
  have "n div 10 < 10 ^ Suc k" using Suc.prems by (simp add: less_mult_imp_div_less mult.commute)
  then show ?case using Suc.IH [of "n div 10"] by (simp add: decimal.simps [of n])
qed

lemma length_decimal_u32: "length (decimal (unat (v :: u32))) \<le> 10"
  using length_decimal [of "unat v" 9] unat_u32_bound [of v] by simp

lemma decimal_step: "0 < n \<Longrightarrow> n div 10 > 0 \<Longrightarrow> decimal n = decimal (n div 10) @ [digit_char (n mod 10)]"
  by (subst decimal.simps) (auto simp: div_greater_zero_iff)

lemma digits_loop_eq:
  assumes "v > 0" "length buf + length (decimal (unat v)) \<le> cap"
  shows "digits_loop cap v buf = buf @ rev (decimal (unat v))"
  using assms
proof (induction cap v buf rule: digits_loop.induct)
  case (1 cap v buf)
  have ne: "decimal (unat v) \<noteq> []" by (subst decimal.simps) simp
  then have buf: "length buf < cap" using "1.prems"(2) by (cases "decimal (unat v)") auto
  have d: "unat (v div 10) = unat v div 10" "unat (v mod 10) = unat v mod 10"
    by (simp_all add: unat_div unat_mod)
  have v: "0 < unat v" using "1.prems"(1) by (simp add: word_less_nat_alt)
  show ?case
  proof (cases "v div 10 > 0")
    case True
    then have q: "unat v div 10 > 0" using d by (simp add: word_less_nat_alt)
    note dec = decimal_step [OF v q]
    have "digits_loop cap (v div 10) (buf @ [digit_char (unat (v mod 10))]) =
        (buf @ [digit_char (unat (v mod 10))]) @ rev (decimal (unat (v div 10)))"
      using "1.prems" buf True dec d by (intro "1.IH") auto
    then show ?thesis using "1.prems"(1) buf dec d by (subst digits_loop.simps) simp
  next
    case False
    then have z: "v div 10 = 0" by (simp add: word_gt_0)
    then have "unat v < 10" using d by (metis unat_0 div_eq_0_iff zero_neq_numeral)
    then have "decimal (unat v) = [digit_char (unat v)]" "unat (v mod 10) = unat v"
      using d by (simp_all add: decimal.simps)
    moreover have "digits_loop cap 0 b = b" for b by (subst digits_loop.simps) simp
    ultimately show ?thesis using "1.prems"(1) buf z by (subst digits_loop.simps) simp
  qed
qed

lemma uptime_loop_bounded:
  "length buf + unat v \<le> cap \<Longrightarrow> uptime_loop v buf = digits_loop cap v buf"
proof (induction cap v buf rule: digits_loop.induct)
  case (1 cap v buf)
  show ?case
  proof (cases "v > 0")
    case True
    then have v: "0 < unat v" by (simp add: word_less_nat_alt)
    then have "unat (v div 10) < unat v" by (simp add: unat_div)
    then have "uptime_loop (v div 10) (buf @ [digit_char (unat (v mod 10))]) =
        digits_loop cap (v div 10) (buf @ [digit_char (unat (v mod 10))])"
      using "1.prems" True v by (intro "1.IH") auto
    then show ?thesis using True v "1.prems"
      by (subst uptime_loop.simps, subst digits_loop.simps) auto
  next
    case False
    then show ?thesis by (subst uptime_loop.simps, subst digits_loop.simps) simp
  qed
qed

lemma uptime_loop_eq: "v > 0 \<Longrightarrow> uptime_loop v [] = rev (decimal (unat v))"
  using uptime_loop_bounded [of "[]" v "unat v + 10"] digits_loop_eq [of v "[]" "unat v + 10"]
    length_decimal_u32 [of v] by simp

lemma digit_char_0: "digit_char 0 = CHR ''0''"
  by (simp add: digit_char_def char_of_def bit_0)

lemma ui_itoa_decimal: "ui_itoa v = decimal (unat v)"
proof (cases "v = 0")
  case True
  then show ?thesis by (simp add: ui_itoa_def decimal.simps digit_char_0)
next
  case False
  then have "v > 0" by (simp add: word_gt_0)
  from digits_loop_eq [OF this, of "[]" 15] show ?thesis
    using False length_decimal_u32 [of v] by (simp add: ui_itoa_def)
qed

fun putcs :: "(tu \<times> con_op) list \<Rightarrow> string" where
  "putcs [] = []"
| "putcs ((f, Con_putc c) # cs) = c # putcs cs"
| "putcs ((f, Con_write s) # cs) = s @ putcs cs"
| "putcs ((f, op) # cs) = putcs cs"

lemma putcs_append [simp]: "putcs (xs @ ys) = putcs xs @ putcs ys"
proof (induction xs)
  case (Cons x xs)
  then show ?case by (cases x; cases "snd x") auto
qed simp

lemma putc_down_eq:
  "i \<le> length buf \<Longrightarrow> con_out (putc_down f buf i st) = con_out st @ map (\<lambda>c. (f, Con_putc c)) (rev (take i buf))"
  by (induction i arbitrary: st) (auto simp: take_Suc_conv_app_nth)

lemma putc_down_state:
  "putc_down f buf i st = st\<lparr>con_out := con_out (putc_down f buf i st)\<rparr>"
proof (induction i arbitrary: st)
  case (Suc i)
  then show ?case by (metis (no_types, lifting) putc_down.simps(2) con_call_def out_st.surjective out_st.update_convs(1))
qed simp

lemma putcs_map [simp]: "putcs (map (\<lambda>c. (f, Con_putc c)) s) = s"
  by (induction s) auto

lemma kprint_u32_putcs: "putcs (con_out (kprint_u32 f v st)) = putcs (con_out st) @ decimal (unat v)"
proof (cases "v = 0")
  case True
  then show ?thesis by (simp add: kprint_u32_def decimal.simps digit_char_0)
next
  case False
  then have "v > 0" by (simp add: word_gt_0)
  from digits_loop_eq [OF this, of "[]" 16] show ?thesis
    using False length_decimal_u32 [of v] by (simp add: kprint_u32_def Let_def putc_down_eq)
qed

lemma kprint_u32_state: "kprint_u32 f v st = st\<lparr>con_out := con_out (kprint_u32 f v st)\<rparr>"
proof -
  have "con_call f c st = st\<lparr>con_out := con_out (con_call f c st)\<rparr>" for c
    by (simp add: con_call_def)
  then show ?thesis using putc_down_state [of f _ _ st] by (simp add: kprint_u32_def Let_def)
qed

text \<open>A state that differs from an earlier one in what was printed only.\<close>

definition con_only :: "'a out_st_scheme \<Rightarrow> 'a out_st_scheme \<Rightarrow> bool" where
  "con_only st st' \<longleftrightarrow> st' = st\<lparr>con_out := con_out st'\<rparr>"

lemma con_only_refl [simp]: "con_only st st"
  by (simp add: con_only_def)

lemma con_only_call [simp]: "con_only st s \<Longrightarrow> con_only st (con_call f c s)"
  by (metis (no_types, lifting) con_only_def con_call_def out_st.update_convs(1) out_st.surjective
      out_st.select_convs(1))

lemma con_only_trans: "con_only a b \<Longrightarrow> con_only b c \<Longrightarrow> con_only a c"
  unfolding con_only_def by (metis (no_types, lifting) out_st.surjective out_st.update_convs(1))

lemma con_only_kprint [simp]: "con_only st s \<Longrightarrow> con_only st (kprint_u32 f v s)"
  by (metis (no_types, lifting) con_only_def kprint_u32_state out_st.update_convs(1) out_st.surjective)

text \<open>The signed routine, for the vector numbers that it prints.\<close>

lemma int_digits_loop_eq:
  "int_digits_loop cap (int n) buf = digits_loop cap (of_nat n) buf" if "n < 2 ^ 32"
  using that
proof (induction n arbitrary: buf rule: less_induct)
  case (less n)
  have u: "unat (of_nat n :: u32) = n" using less.prems by (simp add: unat_of_nat32)
  have d: "(of_nat n :: u32) div 10 = of_nat (n div 10)" "(of_nat n :: u32) mod 10 = of_nat (n mod 10)"
    using less.prems by (simp_all add: unat_of_nat32 word_unat_eq_iff unat_div unat_mod)
  have m: "unat (of_nat (n mod 10) :: u32) = n mod 10" by (simp add: unat_of_nat32)
  show ?case
  proof (cases "0 < n \<and> length buf < cap")
    case True
    have "int_digits_loop cap (int (n div 10)) (buf @ [digit_char (n mod 10)]) =
        digits_loop cap (of_nat (n div 10)) (buf @ [digit_char (n mod 10)])"
      using True less.prems by (intro less.IH) auto
    then show ?thesis using True u d m
      by (subst int_digits_loop.simps, subst digits_loop.simps)
        (auto simp: word_less_nat_alt zdiv_int nat_mod_distrib)
  next
    case False
    then show ?thesis using u
      by (subst int_digits_loop.simps, subst digits_loop.simps) (auto simp: word_less_nat_alt)
  qed
qed

lemma isr_print_uint_kprint:
  assumes "n < 2 ^ 32"
  shows "isr_print_uint (int n) st = kprint_u32 Isr_c (of_nat n) st"
proof -
  have "(of_nat n :: u32) = 0 \<longleftrightarrow> n = 0" using unat_of_nat32 [OF assms] by (auto simp: unat_eq_zero)
  then show ?thesis
    using int_digits_loop_eq [OF assms, of 16 "[]"] by (simp add: isr_print_uint_def kprint_u32_def)
qed

subsection \<open>Reading a number\<close>

lemma ord_digit_char: "d < 10 \<Longrightarrow> ord (digit_char d) = 48 + int d"
  using of_nat_of_char [of "char_of (48 + d)", where ?'a = int]
  by (simp add: ord_def digit_char_def)

lemma parse_u32_digit:
  "d < 10 \<Longrightarrow> parse_u32 a (digit_char d # s) = parse_u32 (a * 10 + of_nat d) s"
  by (simp add: ord_digit_char)

lemma parse_u32_decimal:
  "parse_u32 a (decimal n @ s) =
     parse_u32 (a * 10 ^ length (decimal n) + of_nat n) s"
proof (induction n arbitrary: s rule: less_induct)
  case (less n)
  show ?case
  proof (cases "n < 10")
    case True
    then show ?thesis using parse_u32_digit [OF True, of a s]
      by (simp add: decimal.simps [of n] del: parse_u32.simps)
  next
    case False
    define q d where "q = n div 10" and "d = n mod 10"
    have n: "n = 10 * q + d" "d < 10" "q < n" using False by (auto simp: q_def d_def)
    have "parse_u32 a (decimal n @ s) = parse_u32 a (decimal q @ digit_char d # s)"
      using False by (simp add: decimal.simps [of n] q_def d_def)
    also have "\<dots> = parse_u32 ((a * 10 ^ length (decimal q) + of_nat q) * 10 + of_nat d) s"
      using less.IH [OF n(3)] n(2) by (simp only: parse_u32_digit)
    also have "(a * 10 ^ length (decimal q) + of_nat q) * 10 + of_nat d =
        a * 10 ^ Suc (length (decimal q)) + of_nat n"
      unfolding n(1) by (simp add: algebra_simps)
    also have "Suc (length (decimal q)) = length (decimal n)"
      using False by (simp add: decimal.simps [of n] q_def)
    finally show ?thesis .
  qed
qed

text \<open>
  C30: The three routines that print a 32-bit number print its decimal notation: \<open>kprint_u32\<close>
  character by character on the console, \<open>ui_itoa\<close> into the string of the status bar and the
  digits of \<open>cmd_uptime\<close> in reverse; no buffer is too small. And the loop with which the shell
  reads a sector number gives back the number from what was printed, at the end of the string
  and in front of every character that is not a digit, with the string from there on.
\<close>

theorem print_parse_u32:
  "putcs (con_out (kprint_u32 f v st)) = putcs (con_out st) @ decimal (unat v) \<and>
   ui_itoa v = decimal (unat v) \<and>
   (if v = 0 then ''0'' else rev (uptime_loop v [])) = decimal (unat v) \<and>
   length (decimal (unat v)) \<le> 10 \<and>
   parse_u32 0 (decimal (unat v)) = (v, []) \<and>
   (\<forall>c. c \<notin> set ''0123456789'' \<longrightarrow> parse_u32 0 (decimal (unat v) @ c # s) = (v, c # s))"
proof -
  have digit: "c \<in> set ''0123456789''" if "48 \<le> ord c" "ord c \<le> 57" for c
  proof -
    have "ord c = int (of_char c)" unfolding ord_def by (rule of_nat_of_char [symmetric])
    then have "of_char c \<in> {48..<58 :: nat}" using that by simp
    then have "of_char c \<in> set [48..<58 :: nat]" by (simp only: set_upt)
    then have "char_of (of_char c :: nat) \<in> char_of ` set [48..<58 :: nat]" by (rule imageI)
    also have "char_of ` set [48..<58 :: nat] = set ''0123456789''" by code_simp
    finally show ?thesis by simp
  qed
  have "parse_u32 0 (decimal (unat v) @ c # s) = (v, c # s)" if c: "c \<notin> set ''0123456789''" for c
    using digit [of c] c parse_u32_decimal [of 0 "unat v" "c # s"] by (auto simp del: set_simps)
  then show ?thesis
    using ui_itoa_decimal [of v]
    by (simp add: kprint_u32_putcs ui_itoa_decimal length_decimal_u32 uptime_loop_eq word_gt_0
        parse_u32_decimal [where s = "[]", simplified] decimal.simps [of 0] digit_char_0)
qed

text \<open>A concrete run: a number in front of a letter.\<close>

theorem print_parse_u32_witness:
  "parse_u32 0 (decimal (unat (305 :: u32)) @ ''x9'') = (305, ''x9'')"
proof -
  have "\<forall>c. c \<notin> set ''0123456789'' \<longrightarrow>
      parse_u32 0 (decimal (unat (305 :: u32)) @ c # ''9'') = (305, c # ''9'')"
    using print_parse_u32 [of Syscall_c 305 undefined "''9''"] by (elim conjE)
  then show ?thesis by (elim allE [of _ "CHR ''x''"]) simp
qed

end
