(* ===== verification/Cpu.thy ===== *)
theory Cpu
  imports Security Decimal
begin

text \<open>
  The processor tables and the dispatch of interrupts: \<open>gdt.c\<close>, \<open>idt.c\<close>, \<open>isr.c\<close> and \<open>irq.c\<close>
  of \<open>kernel/arch/i386/cpu\<close>. The tables are lists of the packed entries; the addresses that the
  linker gives to the entry points in assembly and to static objects are arguments. Writes to
  ports and the instructions that load a table register are recorded in the order in which
  they happen. The decoding functions read an entry the way the processor's manual lays it
  out, and the properties are stated with them.
\<close>

subsection \<open>Segments\<close>

record gdt_entry =
  ge_limit_low :: u16
  ge_base_low :: u16
  ge_base_middle :: u8
  ge_access :: u8
  ge_granularity :: u8
  ge_base_high :: u8

text \<open>The fields of the task state segment that the kernel sets; all others stay zero.\<close>

record tss_entry =
  tss_prev :: u32
  tss_esp0 :: u32
  tss_ss0 :: u32
  tss_others :: "u32 list"
  tss_es :: u32
  tss_cs :: u32
  tss_ss :: u32
  tss_ds :: u32
  tss_fs :: u32
  tss_gs :: u32
  tss_ldt :: u32
  tss_trap :: u16
  tss_iomap_base :: u16

definition sizeof_tss :: u32 where "sizeof_tss = 104"
definition sizeof_gdt_entry :: u16 where "sizeof_gdt_entry = 8"

definition KERNEL_CODE_SEG :: u32 where "KERNEL_CODE_SEG = push_bit 3 1"
definition KERNEL_DATA_SEG :: u32 where "KERNEL_DATA_SEG = push_bit 3 2"
definition USER_CODE_SEG :: u32 where "USER_CODE_SEG = push_bit 3 3 OR 3"
definition USER_DATA_SEG :: u32 where "USER_DATA_SEG = push_bit 3 4 OR 3"
definition TSS_SEG :: u32 where "TSS_SEG = push_bit 3 5"

subsection \<open>Gates\<close>

record idt_entry =
  ie_base_lo :: u16
  ie_sel :: u16
  ie_always0 :: u8
  ie_flags :: u8
  ie_base_hi :: u16

text \<open>
  How a call of C code ends: it returns, or the machine halts, faults, or goes on in ring 3
  (the assembly routine \<open>switch_to_user_mode\<close>).
\<close>

datatype outcome = Returned | Halted | Faulted | User_mode

text \<open>The handlers that the drivers register, and the instructions that load a register.\<close>

datatype irq_handler = Timer_callback | Keyboard_callback

datatype cpu_load = Gdt_flush u16 u32 | Tss_flush u32 | Idt_load u16 u32

record cpu_st = sec_st +
  gdt :: "gdt_entry list"
  gdt_tss :: tss_entry
  idt :: "idt_entry list"
  irq_handlers :: "irq_handler option list"
  cpu_loads :: "cpu_load list"
  port_log :: "(u16 \<times> u8) list"

definition outb :: "u16 \<Rightarrow> u8 \<Rightarrow> 'a cpu_st_scheme \<Rightarrow> 'a cpu_st_scheme" where
  "outb port v st = st\<lparr>port_log := port_log st @ [(port, v)]\<rparr>"

definition gdt_set_entry ::
  "nat \<Rightarrow> u32 \<Rightarrow> u32 \<Rightarrow> u8 \<Rightarrow> u8 \<Rightarrow> 'a cpu_st_scheme \<Rightarrow> 'a cpu_st_scheme" where
  "gdt_set_entry num base limit access gran st =
     (let e = gdt st ! num;
          e = e\<lparr>ge_base_low := ucast (base AND 0xFFFF)\<rparr>;
          e = e\<lparr>ge_base_middle := ucast (drop_bit 16 base AND 0xFF)\<rparr>;
          e = e\<lparr>ge_base_high := ucast (drop_bit 24 base AND 0xFF)\<rparr>;
          e = e\<lparr>ge_limit_low := ucast (limit AND 0xFFFF)\<rparr>;
          e = e\<lparr>ge_granularity := ucast (drop_bit 16 limit AND 0x0F)\<rparr>;
          e = e\<lparr>ge_granularity := ge_granularity e OR (gran AND 0xF0)\<rparr>;
          e = e\<lparr>ge_access := access\<rparr>
      in st\<lparr>gdt := (gdt st)[num := e]\<rparr>)"

definition zero_tss :: tss_entry where
  "zero_tss = \<lparr>tss_prev = 0, tss_esp0 = 0, tss_ss0 = 0, tss_others = replicate 15 0, tss_es = 0, tss_cs = 0,
     tss_ss = 0, tss_ds = 0, tss_fs = 0, tss_gs = 0, tss_ldt = 0, tss_trap = 0, tss_iomap_base = 0\<rparr>"

definition write_tss :: "u32 \<Rightarrow> nat \<Rightarrow> u16 \<Rightarrow> u32 \<Rightarrow> 'a cpu_st_scheme \<Rightarrow> 'a cpu_st_scheme" where
  "write_tss tss_addr num ss0 esp0 st =
     (let base = tss_addr;
          limit = base + sizeof_tss;
          st = gdt_set_entry num base limit 0x89 0x40 st;
          t = zero_tss\<lparr>tss_ss0 := ucast ss0, tss_esp0 := esp0\<rparr>;
          t = t\<lparr>tss_cs := KERNEL_CODE_SEG OR 0, tss_ss := KERNEL_DATA_SEG OR 0,
                tss_ds := KERNEL_DATA_SEG OR 0, tss_es := KERNEL_DATA_SEG OR 0,
                tss_fs := KERNEL_DATA_SEG OR 0, tss_gs := KERNEL_DATA_SEG OR 0\<rparr>;
          t = t\<lparr>tss_iomap_base := ucast sizeof_tss\<rparr>
      in st\<lparr>gdt_tss := t\<rparr>)"

definition tss_set_kernel_stack :: "u32 \<Rightarrow> 'a cpu_st_scheme \<Rightarrow> 'a cpu_st_scheme" where
  "tss_set_kernel_stack stack_top st = st\<lparr>gdt_tss := (gdt_tss st)\<lparr>tss_esp0 := stack_top\<rparr>\<rparr>"

definition cpu_load_call :: "cpu_load \<Rightarrow> 'a cpu_st_scheme \<Rightarrow> 'a cpu_st_scheme" where
  "cpu_load_call l st = st\<lparr>cpu_loads := cpu_loads st @ [l]\<rparr>"

definition gdt_init :: "u32 \<Rightarrow> u32 \<Rightarrow> u32 \<Rightarrow> 'a cpu_st_scheme \<Rightarrow> 'a cpu_st_scheme" where
  "gdt_init gdt_addr tss_addr kernel_tss_stack st =
     (let gp_limit = sizeof_gdt_entry * 6 - 1;
          gp_base = gdt_addr;
          st = gdt_set_entry 0 0 0 0 0 st;
          st = gdt_set_entry 1 0 0xFFFFFFFF 0x9A 0xCF st;
          st = gdt_set_entry 2 0 0xFFFFFFFF 0x92 0xCF st;
          st = gdt_set_entry 3 0 0xFFFFFFFF 0xFA 0xCF st;
          st = gdt_set_entry 4 0 0xFFFFFFFF 0xF2 0xCF st;
          stack_top = kernel_tss_stack + 4096;
          st = write_tss tss_addr 5 (ucast KERNEL_DATA_SEG) stack_top st;
          st = cpu_load_call (Gdt_flush gp_limit gp_base) st
      in cpu_load_call (Tss_flush TSS_SEG) st)"

subsection \<open>Interrupts\<close>

definition idt_set_gate :: "u8 \<Rightarrow> u32 \<Rightarrow> u16 \<Rightarrow> u8 \<Rightarrow> 'a cpu_st_scheme \<Rightarrow> 'a cpu_st_scheme" where
  "idt_set_gate num base sel flags st =
     st\<lparr>idt := (idt st)[unat num :=
       \<lparr>ie_base_lo = ucast (base AND 0xFFFF), ie_sel = sel, ie_always0 = 0, ie_flags = flags,
        ie_base_hi = ucast (drop_bit 16 base AND 0xFFFF)\<rparr>]\<rparr>"

text \<open>The 32 calls of \<open>isr_install\<close>, and the 16 of \<open>irq_install\<close>, in the order of the vectors.\<close>

definition isr_install :: "(nat \<Rightarrow> u32) \<Rightarrow> 'a cpu_st_scheme \<Rightarrow> 'a cpu_st_scheme" where
  "isr_install isr st = fold (\<lambda>n. idt_set_gate (of_nat n) (isr n) 0x08 0x8E) [0..<32] st"

definition idt_init :: "u32 \<Rightarrow> (nat \<Rightarrow> u32) \<Rightarrow> 'a cpu_st_scheme \<Rightarrow> 'a cpu_st_scheme" where
  "idt_init idt_addr isr st =
     (let idtp_limit = 256 * 8 - 1;
          idtp_base = idt_addr;
          st = fold (\<lambda>i. idt_set_gate (of_nat i) 0 0x08 0x8E) [0..<32] st;
          st = isr_install isr st
      in cpu_load_call (Idt_load idtp_limit idtp_base) st)"

definition idt_get_array :: "'a cpu_st_scheme \<Rightarrow> idt_entry list" where
  "idt_get_array st = idt st"

definition PIC1_COMMAND :: u16 where "PIC1_COMMAND = 0x20"
definition PIC1_DATA :: u16 where "PIC1_DATA = 0x21"
definition PIC2_COMMAND :: u16 where "PIC2_COMMAND = 0xA0"
definition PIC2_DATA :: u16 where "PIC2_DATA = 0xA1"
definition PIC_EOI :: u8 where "PIC_EOI = 0x20"

lemmas pic_defs = PIC1_COMMAND_def PIC1_DATA_def PIC2_COMMAND_def PIC2_DATA_def PIC_EOI_def

text \<open>\<open>a1\<close> and \<open>a2\<close> are the masks that the controllers return; \<open>irq\<close> are the entry points.\<close>

definition irq_install :: "u8 \<Rightarrow> u8 \<Rightarrow> (nat \<Rightarrow> u32) \<Rightarrow> 'a cpu_st_scheme \<Rightarrow> 'a cpu_st_scheme" where
  "irq_install a1 a2 irq st =
     (let st = outb PIC1_COMMAND 0x11 st; st = outb PIC2_COMMAND 0x11 st;
          st = outb PIC1_DATA 0x20 st; st = outb PIC2_DATA 0x28 st;
          st = outb PIC1_DATA 0x04 st; st = outb PIC2_DATA 0x02 st;
          st = outb PIC1_DATA 0x01 st; st = outb PIC2_DATA 0x01 st;
          st = outb PIC1_DATA a1 st; st = outb PIC2_DATA a2 st
      in fold (\<lambda>n. idt_set_gate (of_nat (32 + n)) (irq n) 0x08 0x8E) [0..<16] st)"

definition irq_register_handler :: "int \<Rightarrow> irq_handler \<Rightarrow> 'a cpu_st_scheme \<Rightarrow> 'a cpu_st_scheme" where
  "irq_register_handler irq h st =
     (if irq \<ge> 0 \<and> irq < 16 then st\<lparr>irq_handlers := (irq_handlers st)[nat irq := Some h]\<rparr> else st)"

text \<open>
  The common C code of the interrupts. A handler is called through the table; \<open>run\<close> is the
  meaning of a function pointer, given where the handlers are modelled. When the handler does
  not return, nothing after the call happens.
\<close>

definition irq_handler_c ::
  "(irq_handler \<Rightarrow> 'a cpu_st_scheme \<Rightarrow> (outcome \<times> 'a cpu_st_scheme) option) \<Rightarrow> int \<Rightarrow>
     'a cpu_st_scheme \<Rightarrow> (outcome \<times> 'a cpu_st_scheme) option" where
  "irq_handler_c run irq_no st =
     (if irq_no < 0 then None
      else do {
        (res, st) \<leftarrow> (if irq_no < 16
               then case irq_handlers st ! nat irq_no of None \<Rightarrow> Some (Returned, st) | Some h \<Rightarrow> run h st
               else Some (Returned, st));
        if res \<noteq> Returned then Some (res, st)
        else let st = (if irq_no \<ge> 8 then outb PIC2_COMMAND PIC_EOI st else st)
             in Some (Returned, outb PIC1_COMMAND PIC_EOI st)
      })"

subsection \<open>Exceptions\<close>

definition exception_messages :: "string list" where
  "exception_messages =
     [''Division By Zero'', ''Debug'', ''Non-maskable Interrupt'', ''Breakpoint'',
      ''Overflow'', ''Bound Range Exceeded'', ''Invalid Opcode'', ''Device Not Available'',
      ''Double Fault'', ''Coprocessor Segment Overrun'', ''Invalid TSS'',
      ''Segment Not Present'', ''Stack-Segment Fault'', ''General Protection Fault'',
      ''Page Fault'', ''Reserved'', ''x87 Floating-Point Exception'',
      ''Alignment Check'', ''Machine Check'', ''SIMD Floating-Point Exception'',
      ''Virtualization Exception'', ''Reserved'', ''Reserved'', ''Reserved'',
      ''Reserved'', ''Reserved'', ''Reserved'', ''Reserved'', ''Reserved'',
      ''Reserved'', ''Reserved'', ''Reserved'']"

text \<open>
  Both handlers end in a loop of \<open>hlt\<close>; the result is the state in which the loop starts, or
  \<open>None\<close> when the vector lies outside the table.
\<close>

definition exception_handler_common :: "nat \<Rightarrow> 'a cpu_st_scheme \<Rightarrow> 'a cpu_st_scheme option" where
  "exception_handler_common n st =
     (if n \<ge> length exception_messages then None
      else let st = console_write Isr_c ''CPU Exception: '' st;
               st = console_write Isr_c (exception_messages ! n) st;
               st = console_write Isr_c '' (vector '' st;
               st = isr_print_uint (int n) st
           in Some (console_write Isr_c ('')'' @ [newline] @ ''System halted.'' @ [newline]) st))"

text \<open>The 32 handlers that the macro \<open>DEFINE_ISR_HANDLER\<close> generates, by the number in their names.\<close>

definition isr_handler :: "nat \<Rightarrow> 'a cpu_st_scheme \<Rightarrow> 'a cpu_st_scheme option" where
  "isr_handler n st = exception_handler_common n st"

definition isr_dispatch :: "u32 \<Rightarrow> u32 \<Rightarrow> 'a cpu_st_scheme \<Rightarrow> 'a cpu_st_scheme option" where
  "isr_dispatch vec err st =
     (if unat vec \<ge> length exception_messages then None
      else let st = console_write Isr_c ''CPU Exception: '' st;
               st = console_write Isr_c (exception_messages ! unat vec) st;
               st = console_write Isr_c ([newline] @ ''Error code: '') st;
               st = kprint_u32 Isr_c err st
           in Some (console_write Isr_c ([newline] @ ''Halting.'' @ [newline]) st))"

text \<open>
  Every exception of the processor stops the kernel with its name and its vector on the
  console; a vector of 32 or more reads beyond the table of names.
\<close>

theorem exception_reports:
  "if n < 32 then \<exists>st'. isr_handler n st = Some st' \<and> con_only st st' \<and>
       putcs (con_out st') = putcs (con_out st) @ ''CPU Exception: '' @ exception_messages ! n @ '' (vector '' @
         decimal n @ '')'' @ [newline] @ ''System halted.'' @ [newline]
   else isr_handler n st = None"
proof (cases "n < 32")
  case True
  have len: "length exception_messages = 32" by (simp add: exception_messages_def)
  have "unat (of_nat n :: u32) = n" using True by (intro unat_of_nat32) simp
  then show ?thesis
    using True len by (simp add: isr_handler_def exception_handler_common_def isr_print_uint_kprint kprint_u32_putcs)
next
  case False
  then show ?thesis by (simp add: isr_handler_def exception_handler_common_def exception_messages_def)
qed

subsection \<open>What the processor reads\<close>

definition gdt_base :: "gdt_entry \<Rightarrow> u32" where
  "gdt_base e = ucast (ge_base_low e) OR push_bit 16 (ucast (ge_base_middle e))
     OR push_bit 24 (ucast (ge_base_high e))"

definition gdt_limit :: "gdt_entry \<Rightarrow> u32" where
  "gdt_limit e = ucast (ge_limit_low e) OR push_bit 16 (ucast (ge_granularity e AND 0x0F))"

text \<open>The limit in bytes: the flag G counts it in pages.\<close>

definition gdt_limit_bytes :: "gdt_entry \<Rightarrow> u32" where
  "gdt_limit_bytes e =
     (if bit (ge_granularity e) 7 then push_bit 12 (gdt_limit e) OR 0xFFF else gdt_limit e)"

definition gdt_present :: "gdt_entry \<Rightarrow> bool" where
  "gdt_present e = bit (ge_access e) 7"

definition gdt_dpl :: "gdt_entry \<Rightarrow> u8" where
  "gdt_dpl e = drop_bit 5 (ge_access e) AND 3"

definition gdt_executable :: "gdt_entry \<Rightarrow> bool" where
  "gdt_executable e = bit (ge_access e) 3"

definition gate_offset :: "idt_entry \<Rightarrow> u32" where
  "gate_offset e = ucast (ie_base_lo e) OR push_bit 16 (ucast (ie_base_hi e))"

definition gate_dpl :: "idt_entry \<Rightarrow> u8" where
  "gate_dpl e = drop_bit 5 (ie_flags e) AND 3"

definition gate_present :: "idt_entry \<Rightarrow> bool" where
  "gate_present e = bit (ie_flags e) 7"

text \<open>
  What an interrupt controller makes of the writes to its two ports: a command with bit 4 set
  starts an initialisation, in which the next three bytes at the data port are the first of its
  eight vectors, the wiring and the mode; at other times a byte at the data port is the mask.
\<close>

record pic =
  pic_next :: nat
  pic_base :: u8
  pic_mask :: u8

definition pic_write :: "u16 \<Rightarrow> u16 \<Rightarrow> u16 \<times> u8 \<Rightarrow> pic \<Rightarrow> pic" where
  "pic_write cmd data = (\<lambda>(p, v) c.
     if p = cmd then (if bit v 4 then c\<lparr>pic_next := 2, pic_mask := 0\<rparr> else c)
     else if p = data
     then if pic_next c = 2 then c\<lparr>pic_next := 3, pic_base := v AND 0xF8\<rparr>
          else if pic_next c = 3 then c\<lparr>pic_next := 4\<rparr>
          else if pic_next c = 4 then c\<lparr>pic_next := 0\<rparr>
          else c\<lparr>pic_mask := v\<rparr>
     else c)"

text \<open>The vector on which the request \<open>n\<close> arrives, through the first or the second controller.\<close>

definition pic_vector :: "pic \<Rightarrow> pic \<Rightarrow> nat \<Rightarrow> nat" where
  "pic_vector c1 c2 n = (if n < 8 then unat (pic_base c1) + n else unat (pic_base c2) + (n - 8))"

definition mk_gate :: "u32 \<Rightarrow> u16 \<Rightarrow> u8 \<Rightarrow> idt_entry" where
  "mk_gate base sel flags =
     \<lparr>ie_base_lo = ucast (base AND 0xFFFF), ie_sel = sel, ie_always0 = 0, ie_flags = flags,
      ie_base_hi = ucast (drop_bit 16 base AND 0xFFFF)\<rparr>"

lemma masks: "(0xFF :: 'a::len word) = mask 8" "(0xFFFF :: 'a::len word) = mask 16"
  "(0xF :: 'a::len word) = mask 4" "(0xFFF :: 'a::len word) = mask 12" "(3 :: 'a::len word) = mask 2"
  by (simp_all add: mask_eq_exp_minus_1)

lemma gate_offset_mk [simp]: "gate_offset (mk_gate base sel flags) = base"
  unfolding gate_offset_def mk_gate_def masks by (rule bit_word_eqI) (auto simp: bit_simps)

lemma idt_set_gate_eq: "idt_set_gate num base sel flags st = st\<lparr>idt := (idt st)[unat num := mk_gate base sel flags]\<rparr>"
  by (simp add: idt_set_gate_def mk_gate_def)

lemma fold_gates:
  assumes "m \<le> n" "b + n \<le> 256" "length (idt st) = 256"
  shows "fold (\<lambda>i. idt_set_gate (of_nat (b + i)) (h i) sel flags) [m..<n] st =
    st\<lparr>idt := map (\<lambda>v. if b + m \<le> v \<and> v < b + n then mk_gate (h (v - b)) sel flags else idt st ! v) [0..<256]\<rparr>"
  using assms
proof (induction n rule: nat_induct_at_least)
  case base
  have "map (\<lambda>v. idt st ! v) [0..<256] = idt st" using base by (metis map_nth)
  moreover have "map (\<lambda>v. if b + m \<le> v \<and> v < b + m then mk_gate (h (v - b)) sel flags else idt st ! v) [0..<256] =
      map (\<lambda>v. idt st ! v) [0..<256]"
    by (rule map_cong) auto
  ultimately show ?case by simp
next
  case (Suc n)
  have u: "unat (of_nat (b + n) :: u8) = b + n"
    using Suc.prems by (simp add: unat_of_nat take_bit_nat_eq_self del: of_nat_add)
  have ih: "fold (\<lambda>i. idt_set_gate (of_nat (b + i)) (h i) sel flags) [m..<n] st =
      st\<lparr>idt := map (\<lambda>v. if b + m \<le> v \<and> v < b + n then mk_gate (h (v - b)) sel flags else idt st ! v) [0..<256]\<rparr>"
    using Suc.IH Suc.prems by simp
  have "fold (\<lambda>i. idt_set_gate (of_nat (b + i)) (h i) sel flags) [m..<Suc n] st =
      idt_set_gate (of_nat (b + n)) (h n) sel flags
        (fold (\<lambda>i. idt_set_gate (of_nat (b + i)) (h i) sel flags) [m..<n] st)"
    using Suc.hyps by simp
  also have "\<dots> = st\<lparr>idt := (map (\<lambda>v. if b + m \<le> v \<and> v < b + n then mk_gate (h (v - b)) sel flags
      else idt st ! v) [0..<256])[b + n := mk_gate (h n) sel flags]\<rparr>"
    unfolding ih idt_set_gate_eq u by simp
  also have "(map (\<lambda>v. if b + m \<le> v \<and> v < b + n then mk_gate (h (v - b)) sel flags
      else idt st ! v) [0..<256])[b + n := mk_gate (h n) sel flags] =
      map (\<lambda>v. if b + m \<le> v \<and> v < b + Suc n then mk_gate (h (v - b)) sel flags else idt st ! v) [0..<256]"
    using Suc.prems Suc.hyps by (intro nth_equalityI) (auto simp: nth_list_update less_Suc_eq simp del: upt_Suc)
  finally show ?case .
qed

lemma three_parts:
  "(ucast (ucast (base AND mask 16) :: u16) OR push_bit 16 (ucast (ucast (drop_bit 16 base AND mask 8) :: u8))
     OR push_bit 24 (ucast (ucast (drop_bit 24 base AND mask 8) :: u8)) :: u32) = base"
proof (rule bit_word_eqI)
  fix n assume "n < LENGTH(32)"
  then consider "n < 16" | "16 \<le> n" "n < 24" | "24 \<le> n" "n < 32" by fastforce
  then show "bit (ucast (ucast (base AND mask 16) :: u16) OR
      push_bit 16 (ucast (ucast (drop_bit 16 base AND mask 8) :: u8)) OR
      push_bit 24 (ucast (ucast (drop_bit 24 base AND mask 8) :: u8)) :: u32) n = bit base n"
    by cases (auto simp: bit_simps)
qed

lemma gdt_base_entry:
  "gdt_base (e\<lparr>ge_base_low := ucast (base AND 0xFFFF), ge_base_middle := ucast (drop_bit 16 base AND 0xFF),
     ge_base_high := ucast (drop_bit 24 base AND 0xFF)\<rparr>) = base"
  using three_parts [of base] by (simp add: gdt_base_def masks)

lemma gdt_limit_entry:
  "gdt_limit (e\<lparr>ge_limit_low := ucast (limit AND 0xFFFF),
     ge_granularity := ucast (drop_bit 16 limit AND 0x0F) OR (gran AND 0xF0)\<rparr>) = limit AND 0xFFFFF"
proof -
  have m: "(0xFFFFF :: u32) = mask 20" "(0xF0 :: u8) = push_bit 4 (mask 4)"
    by (simp_all add: mask_eq_exp_minus_1 push_bit_eq_mult)
  show ?thesis
    unfolding gdt_limit_def masks m by (rule bit_word_eqI) (auto simp: bit_simps)
qed

definition mk_segment :: "u32 \<Rightarrow> u32 \<Rightarrow> u8 \<Rightarrow> u8 \<Rightarrow> gdt_entry" where
  "mk_segment base limit access gran =
     \<lparr>ge_limit_low = ucast (limit AND 0xFFFF), ge_base_low = ucast (base AND 0xFFFF),
      ge_base_middle = ucast (drop_bit 16 base AND 0xFF), ge_access = access,
      ge_granularity = ucast (drop_bit 16 limit AND 0x0F) OR (gran AND 0xF0),
      ge_base_high = ucast (drop_bit 24 base AND 0xFF)\<rparr>"

lemma mk_segment_decode [simp]:
  "gdt_base (mk_segment base limit access gran) = base"
  "gdt_limit (mk_segment base limit access gran) = limit AND 0xFFFFF"
  using gdt_base_entry [where e = "mk_segment base limit access gran" and base = base]
    gdt_limit_entry [where e = "mk_segment base limit access gran" and limit = limit and gran = gran]
  by (simp_all add: mk_segment_def)

lemma gdt_set_entry_eq:
  "gdt_set_entry num base limit access gran st = st\<lparr>gdt := (gdt st)[num := mk_segment base limit access gran]\<rparr>"
  by (cases "gdt st ! num") (simp add: gdt_set_entry_def mk_segment_def Let_def)

lemma gdt_init_eq:
  assumes "length (gdt st) = 6"
  shows "gdt (gdt_init ga ta ks st) =
      [mk_segment 0 0 0 0, mk_segment 0 0xFFFFFFFF 0x9A 0xCF, mk_segment 0 0xFFFFFFFF 0x92 0xCF,
       mk_segment 0 0xFFFFFFFF 0xFA 0xCF, mk_segment 0 0xFFFFFFFF 0xF2 0xCF,
       mk_segment ta (ta + sizeof_tss) 0x89 0x40]"
    "tss_esp0 (gdt_tss (gdt_init ga ta ks st)) = ks + 4096"
    "tss_ss0 (gdt_tss (gdt_init ga ta ks st)) = KERNEL_DATA_SEG"
    "cpu_loads (gdt_init ga ta ks st) = cpu_loads st @ [Gdt_flush 47 ga, Tss_flush TSS_SEG]"
proof -
  obtain a b c d e f where "gdt st = [a, b, c, d, e, f]"
    using assms by (auto simp: length_Suc_conv numeral_eq_Suc)
  then show "gdt (gdt_init ga ta ks st) =
      [mk_segment 0 0 0 0, mk_segment 0 0xFFFFFFFF 0x9A 0xCF, mk_segment 0 0xFFFFFFFF 0x92 0xCF,
       mk_segment 0 0xFFFFFFFF 0xFA 0xCF, mk_segment 0 0xFFFFFFFF 0xF2 0xCF,
       mk_segment ta (ta + sizeof_tss) 0x89 0x40]"
    by (simp add: gdt_init_def gdt_set_entry_eq write_tss_def cpu_load_call_def Let_def numeral_eq_Suc)
qed (simp_all add: gdt_init_def write_tss_def cpu_load_call_def gdt_set_entry_eq Let_def
  sizeof_gdt_entry_def KERNEL_DATA_SEG_def push_bit_eq_mult)

text \<open>
  C31: After \<open>gdt_init\<close> the descriptors that the selectors of the kernel name describe, as the
  processor decodes them, flat segments of 4 GB: code and data of the kernel with privilege
  0, code and data of user programs with privilege 3; and the task register is loaded with a
  descriptor of the task state segment, in which an interrupt from ring 3 finds the kernel's
  data selector and the top of its stack. The limit of that descriptor is not the size of the
  segment less one, 103, but the low 20 bits of the address behind it.
\<close>

theorem gdt_init_segments:
  assumes "length (gdt st) = 6" "st' = gdt_init ga ta ks st"
    "seg = (\<lambda>sel :: u32. gdt st' ! unat (drop_bit 3 sel))"
  shows "(\<forall>sel \<in> {KERNEL_CODE_SEG, KERNEL_DATA_SEG, USER_CODE_SEG, USER_DATA_SEG}.
      gdt_base (seg sel) = 0 \<and> gdt_limit_bytes (seg sel) = 0xFFFFFFFF \<and> gdt_present (seg sel) \<and>
      gdt_dpl (seg sel) = ucast (sel AND 3) \<and>
      gdt_executable (seg sel) = (sel \<in> {KERNEL_CODE_SEG, USER_CODE_SEG})) \<and>
    gdt_base (seg TSS_SEG) = ta \<and> gdt_limit_bytes (seg TSS_SEG) = (ta + 104) AND 0xFFFFF \<and>
    tss_ss0 (gdt_tss st') = KERNEL_DATA_SEG \<and> tss_esp0 (gdt_tss st') = ks + 4096 \<and>
    cpu_loads st' = cpu_loads st @ [Gdt_flush 47 ga, Tss_flush TSS_SEG]"
proof -
  note init = gdt_init_eq [OF assms(1), of ga ta ks]
  have idx: "unat (drop_bit 3 KERNEL_CODE_SEG) = 1" "unat (drop_bit 3 KERNEL_DATA_SEG) = 2"
    "unat (drop_bit 3 USER_CODE_SEG) = 3" "unat (drop_bit 3 USER_DATA_SEG) = 4"
    "unat (drop_bit 3 TSS_SEG) = 5"
    by (simp_all add: KERNEL_CODE_SEG_def KERNEL_DATA_SEG_def USER_CODE_SEG_def USER_DATA_SEG_def
        TSS_SEG_def push_bit_eq_mult drop_bit_eq_div)
  have seg: "seg KERNEL_CODE_SEG = mk_segment 0 0xFFFFFFFF 0x9A 0xCF"
    "seg KERNEL_DATA_SEG = mk_segment 0 0xFFFFFFFF 0x92 0xCF"
    "seg USER_CODE_SEG = mk_segment 0 0xFFFFFFFF 0xFA 0xCF"
    "seg USER_DATA_SEG = mk_segment 0 0xFFFFFFFF 0xF2 0xCF"
    "seg TSS_SEG = mk_segment ta (ta + sizeof_tss) 0x89 0x40"
    by (simp_all add: assms(2,3) idx init(1))
  have g: "bit (ge_granularity (mk_segment b l a 0xCF)) 7" for b l a
    by (simp add: mk_segment_def bit_simps)
  have g': "\<not> bit (ge_granularity (mk_segment b l a 0x40)) 7" for b l a
    unfolding mk_segment_def masks by (simp add: bit_simps)
  show ?thesis
    using init(2-4)
    by (simp add: assms(2) seg gdt_limit_bytes_def g g' sizeof_tss_def)
      (simp add: mk_segment_def gdt_present_def gdt_dpl_def gdt_executable_def
        KERNEL_CODE_SEG_def KERNEL_DATA_SEG_def USER_CODE_SEG_def USER_DATA_SEG_def
        push_bit_eq_mult drop_bit_eq_div bit_simps)
qed

text \<open>A concrete state: the tables of the C program as it is loaded.\<close>

definition cpu_st0 :: cpu_st where
  "cpu_st0 = sec_st.extend (sec_init sec_st0)
     \<lparr>gdt = replicate 6 (mk_segment 0 0 0 0), gdt_tss = zero_tss, idt = replicate 256 (mk_gate 0 0 0),
      irq_handlers = replicate 16 None, cpu_loads = [], port_log = []\<rparr>"

lemma cpu_st0_tables: "length (gdt cpu_st0) = 6" "length (idt cpu_st0) = 256" "length (irq_handlers cpu_st0) = 16"
  by (simp_all add: cpu_st0_def sec_st.defs)

theorem gdt_init_segments_witness:
  "gdt_limit_bytes (gdt (gdt_init 0x100000 0x104000 0x105000 cpu_st0) ! 5) = 0x4068"
  using gdt_init_segments [OF cpu_st0_tables(1) refl refl, where ga = "0x100000" and ta = "0x104000" and ks = "0x105000"]
  by (simp add: TSS_SEG_def push_bit_eq_mult drop_bit_eq_div)

end
