(* ===== verification/Syscall.thy ===== *)
theory Syscall
  imports Cpu
begin

text \<open>
  The timer's counter (\<open>kernel/arch/i386/drivers/timer.c\<close>) and the system calls
  (\<open>kernel/syscall.c\<close>). The memory that a program passes a string in is an argument: it gives
  the string at an address, or \<open>None\<close> where reading it faults. \<open>timer_callback\<close> calls the shell
  and is in theory \<open>Interrupts\<close>.
\<close>

record tick_st = cpu_st +
  timer_ticks :: u32

definition timer_get_ticks :: "'a tick_st_scheme \<Rightarrow> u32" where
  "timer_get_ticks st = timer_ticks st"

definition timer_get_seconds :: "'a tick_st_scheme \<Rightarrow> u32" where
  "timer_get_seconds st = timer_ticks st div 100"

definition timer_install :: "'a tick_st_scheme \<Rightarrow> 'a tick_st_scheme" where
  "timer_install st =
     (let freq = 100;
          divisor = (1193180 :: u32) div freq;
          st = outb 0x43 0x36 st;
          st = outb 0x40 (ucast (divisor AND 0xFF)) st;
          st = outb 0x40 (ucast (drop_bit 8 divisor AND 0xFF)) st
      in irq_register_handler 0 Timer_callback st)"

definition SYS_PUTS :: u32 where "SYS_PUTS = 1"
definition SYS_GET_TICKS :: u32 where "SYS_GET_TICKS = 2"

definition syscall_init :: "u32 \<Rightarrow> 'a cpu_st_scheme \<Rightarrow> 'a cpu_st_scheme" where
  "syscall_init isr80_syscall st =
     (let st = console_write Syscall_c ''Installing syscall at: '' st;
          st = kprint_u32 Syscall_c isr80_syscall st;
          st = console_write Syscall_c [newline] st;
          st = idt_set_gate 0x80 isr80_syscall 0x08 0xEE st;
          idt_arr = idt_get_array st;
          st = console_write Syscall_c ''IDT[80] base_hi: '' st;
          st = kprint_u32 Syscall_c (ucast (ie_base_hi (idt_arr ! 0x80))) st;
          st = console_write Syscall_c '' base_lo: '' st;
          st = kprint_u32 Syscall_c (ucast (ie_base_lo (idt_arr ! 0x80))) st;
          st = console_write Syscall_c '' flags: '' st;
          st = kprint_u32 Syscall_c (ucast (ie_flags (idt_arr ! 0x80))) st
      in console_write Syscall_c [newline] st)"

definition syscall_handler ::
  "(ptr \<Rightarrow> string option) \<Rightarrow> u32 \<Rightarrow> u32 \<Rightarrow> u32 \<Rightarrow> u32 \<Rightarrow> 'a tick_st_scheme \<Rightarrow> (u32 \<times> 'a tick_st_scheme) option"
  where
  "syscall_handler mem num a1 a2 a3 st =
     (if num = SYS_PUTS then
        if a1 = NULL then Some (0, st)
        else do { s \<leftarrow> mem a1; Some (0, console_write Syscall_c s st) }
      else if num = SYS_GET_TICKS then Some (timer_get_ticks st, st)
      else let st = console_write Syscall_c ''[KERNEL] Unknown syscall: '' st;
               st = kprint_u32 Syscall_c num st;
               st = console_write Syscall_c [newline] st
           in Some (-1, st))"

text \<open>
  A system call never changes the state of the kernel beyond what it prints. Call 1 prints
  the string at the address that the program passes and returns 0 (nothing for the null
  pointer), call 2 returns the number of timer ticks, and every other number is refused with
  -1 after it is printed in decimal. Call 1 makes no check of the address.
\<close>

theorem syscall_handler_spec:
  assumes "syscall_handler mem num a1 a2 a3 st = Some (r, st')"
  shows "con_only st st' \<and>
    (if num = 1 then r = 0 \<and>
       (\<exists>s. (if a1 = NULL then s = [] else mem a1 = Some s) \<and> putcs (con_out st') = putcs (con_out st) @ s)
     else if num = 2 then r = timer_ticks st \<and> st' = st
     else r = 0xFFFFFFFF \<and> putcs (con_out st') =
       putcs (con_out st) @ ''[KERNEL] Unknown syscall: '' @ decimal (unat num) @ [newline])"
proof (cases "num = 1 \<or> num = 2")
  case True
  then show ?thesis using assms
    by (auto simp: syscall_handler_def SYS_PUTS_def SYS_GET_TICKS_def timer_get_ticks_def
        split: if_splits elim!: bind_SomeE)
next
  case False
  then show ?thesis using assms
    by (auto simp: syscall_handler_def SYS_PUTS_def SYS_GET_TICKS_def kprint_u32_putcs)
qed

theorem syscall_handler_spec_witness:
  "\<exists>r st'. syscall_handler (\<lambda>_. None) 7 0 0 0 (cpu_st.extend cpu_st0 \<lparr>timer_ticks = 5\<rparr>) = Some (r, st') \<and>
     r = 0xFFFFFFFF"
proof -
  let ?st = "cpu_st.extend cpu_st0 \<lparr>timer_ticks = 5\<rparr>"
  obtain r st' where s: "syscall_handler (\<lambda>_. None) 7 0 0 0 ?st = Some (r, st')"
    by (simp add: syscall_handler_def SYS_PUTS_def SYS_GET_TICKS_def)
  then show ?thesis using syscall_handler_spec [OF s] by simp
qed

lemma idt_calls [simp, frame_simps]:
  "idt (con_call f c st) = idt st" "idt (outb p v st) = idt st" "idt (kprint_u32 f w st) = idt st"
  "idt (cpu_load_call l st) = idt st"
proof -
  show "idt (kprint_u32 f w st) = idt st"
    by (subst kprint_u32_state) simp
qed (simp_all add: con_call_def outb_def cpu_load_call_def)

lemma idt_init_gates:
  assumes "length (idt st) = 256"
  shows "idt (idt_init ia isr st) =
    map (\<lambda>v. if v < 32 then mk_gate (isr v) 0x08 0x8E else idt st ! v) [0..<256]"
proof -
  let ?s = "st\<lparr>idt := map (\<lambda>v. if v < 32 then mk_gate 0 0x08 0x8E else idt st ! v) [0..<256]\<rparr>"
  have "fold (\<lambda>i. idt_set_gate (of_nat i) 0 0x08 0x8E) [0..<32] st = ?s"
    using fold_gates [of 0 32 0 st "\<lambda>_. 0" "0x08" "0x8E"] assms by simp
  moreover have "fold (\<lambda>n. idt_set_gate (of_nat n) (isr n) 0x08 0x8E) [0..<32] ?s =
      ?s\<lparr>idt := map (\<lambda>v. if v < 32 then mk_gate (isr v) 0x08 0x8E else idt ?s ! v) [0..<256]\<rparr>"
    using fold_gates [of 0 32 0 ?s isr "0x08" "0x8E"] by simp
  ultimately have "idt (idt_init ia isr st) =
      map (\<lambda>v. if v < 32 then mk_gate (isr v) 0x08 0x8E else idt ?s ! v) [0..<256]"
    by (simp only: idt_init_def isr_install_def Let_def idt_calls) simp
  also have "\<dots> = map (\<lambda>v. if v < 32 then mk_gate (isr v) 0x08 0x8E else idt st ! v) [0..<256]"
    by (rule map_cong) auto
  finally show ?thesis .
qed

lemma irq_install_gates:
  fixes st :: "'a cpu_st_scheme"
  assumes "length (idt st) = 256"
  shows "idt (irq_install a1 a2 irq st) =
    map (\<lambda>v. if 32 \<le> v \<and> v < 48 then mk_gate (irq (v - 32)) 0x08 0x8E else idt st ! v) [0..<256]"
proof -
  have "fold (\<lambda>n. idt_set_gate (of_nat (32 + n)) (irq n) 0x08 0x8E) [0..<16] s =
      s\<lparr>idt := map (\<lambda>v. if 32 \<le> v \<and> v < 48 then mk_gate (irq (v - 32)) 0x08 0x8E else idt s ! v) [0..<256]\<rparr>"
    if "idt s = idt st" for s :: "'a cpu_st_scheme"
    using fold_gates [of 0 16 32 s irq "0x08" "0x8E"] that assms by simp
  moreover have "\<exists>s. idt s = idt st \<and>
      irq_install a1 a2 irq st = fold (\<lambda>n. idt_set_gate (of_nat (32 + n)) (irq n) 0x08 0x8E) [0..<16] s"
    unfolding irq_install_def Let_def by (rule exI, rule conjI [OF _ refl]) (simp only: idt_calls)
  ultimately show ?thesis by auto
qed

lemma gate_flags [simp]:
  "gate_present (mk_gate b s 0x8E)" "gate_dpl (mk_gate b s 0x8E) = 0"
  "gate_present (mk_gate b s 0xEE)" "gate_dpl (mk_gate b s 0xEE) = 3"
  by (simp_all add: gate_present_def gate_dpl_def mk_gate_def bit_simps drop_bit_eq_div)

lemma port_log_calls [simp]:
  "port_log (con_call f c st) = port_log st" "port_log (kprint_u32 f w st) = port_log st"
  "port_log (cpu_load_call l st) = port_log st"
  "port_log (fold (\<lambda>n. idt_set_gate (u n) (v n) sel fl) ns st) = port_log st"
proof -
  show "port_log (kprint_u32 f w st) = port_log st" by (subst kprint_u32_state) simp
  show "port_log (fold (\<lambda>n. idt_set_gate (u n) (v n) sel fl) ns st) = port_log st"
    by (induction ns arbitrary: st) (simp_all add: idt_set_gate_def)
qed (simp_all add: con_call_def cpu_load_call_def)

lemma port_log_installs [simp]:
  "port_log (syscall_init sys st) = port_log st" "port_log (idt_init ia isr st) = port_log st"
  by (simp_all add: syscall_init_def idt_init_def isr_install_def Let_def)
    (simp add: idt_set_gate_def)

lemma irq_install_port_log:
  "port_log (irq_install a1 a2 irq st) = port_log st @
    [(0x20, 0x11), (0xA0, 0x11), (0x21, 0x20), (0xA1, 0x28), (0x21, 0x04), (0xA1, 0x02), (0x21, 0x01),
     (0xA1, 0x01), (0x21, a1), (0xA1, a2)]"
  unfolding port_log_installs irq_install_def Let_def port_log_calls
  by (simp add: outb_def PIC1_COMMAND_def PIC2_COMMAND_def PIC1_DATA_def PIC2_DATA_def)

text \<open>
  C32: After the three steps of the boot that fill it, the interrupt table sends each of the 32
  exceptions to its stub, the 16 hardware interrupts to theirs, and \<open>int 0x80\<close> to the system
  call; only the last may be used from ring 3, all gates are present and have the kernel's code
  selector, and every other entry of the table is what it was. The bytes sent to the two
  interrupt controllers, whatever their state was, leave them operating with the masks that were
  read, so that request \<open>n\<close> arrives on the vector of stub \<open>n\<close>.
\<close>

theorem boot_gates:
  assumes "length (idt st) = 256" "v < 256" "e = idt s ! v"
    and "s = syscall_init sys (irq_install a1 a2 irq (idt_init ia isr st))"
    and "c1 = fold (pic_write 0x20 0x21) (port_log s) c" "c2 = fold (pic_write 0xA0 0xA1) (port_log s) d"
  shows "(if v < 32 \<or> 32 \<le> v \<and> v < 48 \<or> v = 0x80
    then gate_present e \<and> ie_sel e = ucast KERNEL_CODE_SEG \<and>
      gate_offset e = (if v < 32 then isr v else if v < 48 then irq (v - 32) else sys) \<and>
      (gate_dpl e = 3 \<longleftrightarrow> v = 0x80)
    else e = idt st ! v) \<and>
    pic_next c1 = 0 \<and> pic_mask c1 = a1 \<and> pic_next c2 = 0 \<and> pic_mask c2 = a2 \<and>
    (\<forall>n < 16. gate_offset (idt s ! pic_vector c1 c2 n) = irq n)"
proof -
  let ?s = "irq_install a1 a2 irq (idt_init ia isr st)"
  have len: "length (idt (idt_init ia isr st)) = 256" by (simp add: idt_init_gates [OF assms(1)])
  have "idt s = (idt ?s)[0x80 := mk_gate sys 0x08 0xEE]"
    by (simp add: assms(4) syscall_init_def Let_def idt_set_gate_eq)
  then have e: "idt s ! v = (if v = 0x80 then mk_gate sys 0x08 0xEE
      else if v < 32 then mk_gate (isr v) 0x08 0x8E
      else if v < 48 then mk_gate (irq (v - 32)) 0x08 0x8E else idt st ! v)" if "v < 256" for v
    using that irq_install_gates [OF len] idt_init_gates [OF assms(1)]
    by (auto simp: nth_list_update simp del: upt_Suc)
  have "ie_sel (mk_gate b 8 f) = ucast KERNEL_CODE_SEG" for b f
    by (simp add: mk_gate_def KERNEL_CODE_SEG_def push_bit_eq_mult)
  moreover have c: "c1 = \<lparr>pic_next = 0, pic_base = 0x20, pic_mask = a1\<rparr>"
    "c2 = \<lparr>pic_next = 0, pic_base = 0x28, pic_mask = a2\<rparr>"
    by (simp_all add: assms(4-6) irq_install_port_log pic_write_def bit_numeral_rec)
  moreover have "gate_offset (idt s ! pic_vector c1 c2 n) = irq n" if "n < 16" for n
  proof -
    have "pic_vector c1 c2 n = 32 + n" using that by (simp add: c pic_vector_def)
    then show ?thesis using that by (simp add: e)
  qed
  ultimately show ?thesis using e [OF assms(2)] by (auto simp: assms(3))
qed

theorem boot_gates_witness:
  "gate_offset (idt (syscall_init 0x1234 (irq_install 0 0 (\<lambda>n. of_nat n)
     (idt_init 0x9000 (\<lambda>n. of_nat n) cpu_st0))) ! 33) = 1"
  using boot_gates [OF cpu_st0_tables(2) _ refl refl refl refl, where v = 33 and sys = "0x1234" and ?a1.0 = 0
      and ?a2.0 = 0 and irq = "\<lambda>n. of_nat n" and isr = "\<lambda>n. of_nat n" and ia = "0x9000"]
  by simp

end
