(* ===== verification/Blockdev.thy ===== *)
theory Blockdev
  imports Syscall
begin

text \<open>
  Block devices: \<open>kernel/fs/blockdev.c\<close>, \<open>blockdev.h\<close> and \<open>kernel/fs/ramdisk.c\<close>. A
  \<open>block_device\<close> is the record of function pointers of the code, over a type \<open>'d\<close> of device
  contents; a transfer returns the code, the caller's buffer and the device. The locale
  \<open>block_dev\<close> states what the clients of a device rely on, in terms of its sectors, and its
  lemmas hold for every device; the RAM disk interprets it.
\<close>

type_synonym 'd dev_read = "u64 \<Rightarrow> u32 \<Rightarrow> u8 list \<Rightarrow> 'd \<Rightarrow> (int \<times> u8 list \<times> 'd) option"
type_synonym 'd dev_write = "u64 \<Rightarrow> u32 \<Rightarrow> u8 list \<Rightarrow> 'd \<Rightarrow> (int \<times> 'd) option"

record 'd block_device =
  bd_name :: string
  bd_num_sectors :: u64
  bd_read :: "'d dev_read"
  bd_write :: "'d dev_write"

record 'd dev_st = tick_st +
  g_root_dev :: "'d block_device option"
  disk :: 'd

definition blockdev_get_root :: "('d, 'a) dev_st_scheme \<Rightarrow> 'd block_device option" where
  "blockdev_get_root st = g_root_dev st"

definition blockdev_set_root ::
  "'d block_device option \<Rightarrow> ('d, 'a) dev_st_scheme \<Rightarrow> ('d, 'a) dev_st_scheme" where
  "blockdev_set_root dev st = st\<lparr>g_root_dev := dev\<rparr>"

subsection \<open>The RAM disk\<close>

definition SECTOR_SIZE :: u64 where "SECTOR_SIZE = 512"

record ramdisk =
  rd_data :: "u8 list"
  rd_size_bytes :: u64

text \<open>The copy loop, which is undefined when it leaves one of its arrays.\<close>

fun copy_bytes :: "nat \<Rightarrow> u8 list \<Rightarrow> nat \<Rightarrow> u8 list \<Rightarrow> nat \<Rightarrow> u8 list option" where
  "copy_bytes 0 src i dst j = Some dst"
| "copy_bytes (Suc n) src i dst j =
     (if i < length src \<and> j < length dst then copy_bytes n src (Suc i) (dst[j := src ! i]) (Suc j)
      else None)"

definition ramdisk_read :: "ramdisk dev_read" where
  "ramdisk_read lba count buffer rd =
     (let offset = lba * SECTOR_SIZE;
          bytes = (ucast count :: u64) * SECTOR_SIZE
      in if offset + bytes > rd_size_bytes rd then Some (-1, buffer, rd)
         else do { dst \<leftarrow> copy_bytes (unat bytes) (rd_data rd) (unat offset) buffer 0;
                   Some (0, dst, rd) })"

definition ramdisk_write :: "ramdisk dev_write" where
  "ramdisk_write lba count buffer rd =
     (let offset = lba * SECTOR_SIZE;
          bytes = (ucast count :: u64) * SECTOR_SIZE
      in if offset + bytes > rd_size_bytes rd then Some (-1, rd)
         else do { dst \<leftarrow> copy_bytes (unat bytes) buffer 0 (rd_data rd) (unat offset);
                   Some (0, rd\<lparr>rd_data := dst\<rparr>) })"

definition sizeof_ramdisk :: u32 where "sizeof_ramdisk = 32"

text \<open>
  The block of the data has the size that \<open>kmalloc\<close> was asked for, the low 32 bits of the
  size; the loop that clears it runs to the full size.
\<close>

definition ramdisk_create ::
  "u64 \<Rightarrow> ('d, 'a) dev_st_scheme \<Rightarrow>
     ((ramdisk block_device \<times> ramdisk) option \<times> ('d, 'a) dev_st_scheme) option" where
  "ramdisk_create size_bytes st =
     (let (rd, st) = kmalloc sizeof_ramdisk st
      in if rd = NULL
         then Some (None, console_write Ramdisk_c (''ramdisk_create: kmalloc ramdisk_t failed'' @ [newline]) st)
         else let (d, st) = kmalloc (ucast size_bytes) st
              in if d = NULL
                 then Some (None, console_write Ramdisk_c (''ramdisk_create: kmalloc data failed'' @ [newline]) st)
                 else if unat size_bytes > unat (ucast size_bytes :: u32) then None
                 else Some (Some (\<lparr>bd_name = ''ram0'', bd_num_sectors = size_bytes div SECTOR_SIZE,
                                  bd_read = ramdisk_read, bd_write = ramdisk_write\<rparr>,
                                \<lparr>rd_data = replicate (unat size_bytes) 0, rd_size_bytes = size_bytes\<rparr>),
                          console_write Ramdisk_c ''ramdisk: created '' st))"

subsection \<open>The contract of a block device\<close>

text \<open>
  \<open>nsec\<close> is the number of sectors and \<open>sec d i\<close> the contents of sector \<open>i\<close>; \<open>good\<close> is the
  invariant of a device that takes a transfer, and \<open>most\<close> the number of sectors that one transfer
  can take. A device may still be occupied with what it was given when a write returns: \<open>settle\<close>
  is the device after it has been left alone for as long as it needs, and only then is it \<open>good\<close>
  again, with the sectors as written.
\<close>

definition sectors_of :: "(nat \<Rightarrow> u8 list) \<Rightarrow> nat \<Rightarrow> nat \<Rightarrow> u8 list" where
  "sectors_of sec lba n = concat (map sec [lba..<lba + n])"

definition chunk :: "u8 list \<Rightarrow> nat \<Rightarrow> u8 list" where
  "chunk bs i = take 512 (drop (512 * i) bs)"

locale block_dev =
  fixes rd :: "'d dev_read" and wr :: "'d dev_write"
    and good :: "'d \<Rightarrow> bool" and nsec :: "'d \<Rightarrow> nat" and sec :: "'d \<Rightarrow> nat \<Rightarrow> u8 list"
    and most :: nat and settle :: "'d \<Rightarrow> 'd"
  assumes sec_length: "good d \<Longrightarrow> i < nsec d \<Longrightarrow> length (sec d i) = 512"
    and read_ok: "good d \<Longrightarrow> unat lba + unat count \<le> nsec d \<Longrightarrow> unat count \<le> most \<Longrightarrow>
      512 * unat count \<le> length buf \<Longrightarrow>
      \<exists>d'. rd lba count buf d =
          Some (0, sectors_of (sec d) (unat lba) (unat count) @ drop (512 * unat count) buf, d') \<and>
        good d' \<and> nsec d' = nsec d \<and> (\<forall>i < nsec d. sec d' i = sec d i)"
    and write_ok: "good d \<Longrightarrow> unat lba + unat count \<le> nsec d \<Longrightarrow> unat count \<le> most \<Longrightarrow>
      512 * unat count \<le> length buf \<Longrightarrow>
      \<exists>d'. wr lba count buf d = Some (0, d') \<and> good (settle d') \<and> nsec (settle d') = nsec d \<and>
        (\<forall>i < nsec d. sec (settle d') i =
           (if unat lba \<le> i \<and> i < unat lba + unat count then chunk buf (i - unat lba) else sec d i))"
    and settle_ok: "good d \<Longrightarrow> good (settle d) \<and> nsec (settle d) = nsec d \<and> (\<forall>i < nsec d. sec (settle d) i = sec d i)"
begin

lemma write_then_read:
  assumes "good d" "unat lba + unat count \<le> nsec d" "unat count \<le> most"
    "512 * unat count = length buf" "length out = length buf"
  obtains d1 d2 where "wr lba count buf d = Some (0, d1)" "rd lba count out (settle d1) = Some (0, buf, d2)"
    "good (settle d1)" "good d2" "nsec (settle d1) = nsec d" "nsec d2 = nsec d"
    "\<And>i. i < nsec d \<Longrightarrow> i < unat lba \<or> unat lba + unat count \<le> i \<Longrightarrow> sec (settle d1) i = sec d i"
    "\<And>i. i < nsec d \<Longrightarrow> sec d2 i = sec (settle d1) i"
proof -
  obtain d1 where d1: "wr lba count buf d = Some (0, d1)" "good (settle d1)" "nsec (settle d1) = nsec d"
    "\<forall>i < nsec d. sec (settle d1) i = (if unat lba \<le> i \<and> i < unat lba + unat count
       then chunk buf (i - unat lba) else sec d i)"
    using write_ok [OF assms(1-3), of buf] assms(4) by auto
  have chunks: "concat (map (chunk bs) [0..<n]) = take (512 * n) bs" for bs n
    by (induction n) (auto simp: chunk_def take_add mult.commute add.commute [of 512])
  have "map (sec (settle d1)) [unat lba..<unat lba + unat count] = map (chunk buf) [0..<unat count]"
    using d1(4) assms(2) by (intro nth_equalityI) auto
  then have "sectors_of (sec (settle d1)) (unat lba) (unat count) = buf"
    using chunks [of buf "unat count"] assms(4) by (simp add: sectors_of_def)
  then obtain d2 where "rd lba count out (settle d1) = Some (0, buf, d2)" "good d2" "nsec d2 = nsec d"
    "\<forall>i < nsec d. sec d2 i = sec (settle d1) i"
    using read_ok [OF d1(2), of lba count out] assms d1(3) by auto
  moreover have "sec (settle d1) i = sec d i" if "i < nsec d" "i < unat lba \<or> unat lba + unat count \<le> i" for i
    using d1(4) that by auto
  ultimately show thesis using that d1(1-3) by metis
qed

end

subsection \<open>The RAM disk meets the contract\<close>

lemma copy_bytes_eq:
  assumes "i + n \<le> length src" "j + n \<le> length dst"
  shows "copy_bytes n src i dst j = Some (take j dst @ take n (drop i src) @ drop (j + n) dst)"
  using assms
proof (induction n arbitrary: i j dst)
  case (Suc n)
  let ?dst = "dst[j := src ! i]"
  have "copy_bytes (Suc n) src i dst j = copy_bytes n src (Suc i) ?dst (Suc j)"
    using Suc.prems by simp
  also have "\<dots> = Some (take (Suc j) ?dst @ take n (drop (Suc i) src) @ drop (Suc j + n) ?dst)"
    using Suc.prems by (intro Suc.IH) auto
  also have "take (Suc j) ?dst = take j dst @ [src ! i]"
    using Suc.prems by (simp add: take_Suc_update)
  also have "drop (Suc j + n) ?dst = drop (j + Suc n) dst" by simp
  finally show ?case using Suc.prems by (simp add: Cons_nth_drop_Suc [symmetric])
qed simp

definition ramdisk_ok :: "ramdisk \<Rightarrow> bool" where
  "ramdisk_ok rd \<longleftrightarrow> length (rd_data rd) = unat (rd_size_bytes rd)"

definition ramdisk_sectors :: "ramdisk \<Rightarrow> nat" where
  "ramdisk_sectors rd = length (rd_data rd) div 512"

definition ramdisk_sector :: "ramdisk \<Rightarrow> nat \<Rightarrow> u8 list" where
  "ramdisk_sector rd i = chunk (rd_data rd) i"

lemma unat_u64_bound: "unat (x :: u64) < 18446744073709551616"
  using unsigned_less [of x] by simp

lemma transfer_range:
  assumes "ramdisk_ok rd" "unat lba + unat count \<le> ramdisk_sectors rd"
  shows "unat (lba * SECTOR_SIZE) = 512 * unat lba"
    "unat ((ucast (count :: u32) :: u64) * SECTOR_SIZE) = 512 * unat count"
    "\<not> lba * SECTOR_SIZE + ucast count * SECTOR_SIZE > rd_size_bytes rd"
    "512 * unat lba + 512 * unat count \<le> length (rd_data rd)"
proof -
  have "(unat lba + unat count) * 512 \<le> length (rd_data rd)"
    using assms(2) by (simp add: ramdisk_sectors_def less_eq_div_iff_mult_less_eq)
  then show len: "512 * unat lba + 512 * unat count \<le> length (rd_data rd)" by simp
  then have b: "512 * unat lba + 512 * unat count < 2 ^ 64"
    using unat_u64_bound [of "rd_size_bytes rd"] assms(1) by (simp add: ramdisk_ok_def)
  have c: "unat (ucast count :: u64) = unat count"
    using unat_u32_bound [of count] by (simp add: unsigned_ucast_eq take_bit_nat_eq_self)
  show l: "unat (lba * SECTOR_SIZE) = 512 * unat lba"
    using b by (simp add: SECTOR_SIZE_def unat_word_ariths)
  show n: "unat ((ucast count :: u64) * SECTOR_SIZE) = 512 * unat count"
    using b by (simp add: SECTOR_SIZE_def unat_word_ariths c)
  have "unat (lba * SECTOR_SIZE + ucast count * SECTOR_SIZE) = 512 * unat lba + 512 * unat count"
    using b l n by (simp add: unat_add_no_wrap)
  then show "\<not> lba * SECTOR_SIZE + ucast count * SECTOR_SIZE > rd_size_bytes rd"
    using len assms(1) by (simp add: word_less_nat_alt ramdisk_ok_def)
qed

lemma concat_chunks: "512 * (m + n) \<le> length bs \<Longrightarrow>
    concat (map (chunk bs) [m..<m + n]) = take (512 * n) (drop (512 * m) bs)"
proof (induction n)
  case (Suc n)
  have "concat (map (chunk bs) [m..<m + Suc n]) = concat (map (chunk bs) [m..<m + n]) @ chunk bs (m + n)"
    by simp
  also have "\<dots> = take (512 * n) (drop (512 * m) bs) @ take 512 (drop (512 * n) (drop (512 * m) bs))"
  proof -
    have "concat (map (chunk bs) [m..<m + n]) = take (512 * n) (drop (512 * m) bs)"
      using Suc by simp
    moreover have "chunk bs (m + n) = take 512 (drop (512 * n) (drop (512 * m) bs))"
      by (simp add: chunk_def add_mult_distrib2 add.commute)
    ultimately show ?thesis by simp
  qed
  also have "\<dots> = take (512 * n + 512) (drop (512 * m) bs)" by (simp only: take_add)
  finally show ?case by (simp add: add.commute)
qed simp

lemma ramdisk_read_ok:
  assumes "ramdisk_ok rd" "unat lba + unat count \<le> ramdisk_sectors rd" "512 * unat count \<le> length buf"
  shows "ramdisk_read lba count buf rd = Some (0,
    sectors_of (ramdisk_sector rd) (unat lba) (unat count) @ drop (512 * unat count) buf, rd)"
proof -
  note r = transfer_range [OF assms(1,2)]
  have "sectors_of (ramdisk_sector rd) (unat lba) (unat count) =
      take (512 * unat count) (drop (512 * unat lba) (rd_data rd))"
    using concat_chunks [of "unat lba" "unat count" "rd_data rd"] r(4)
    by (simp add: sectors_of_def ramdisk_sector_def [abs_def])
  then show ?thesis using r assms(3)
    by (simp add: ramdisk_read_def Let_def copy_bytes_eq)
qed

lemma length_chunk_le: "length (chunk bs i) \<le> 512"
  by (simp add: chunk_def)

lemma chunk_splice:
  assumes "512 * l + 512 * n \<le> length xs" "512 * n \<le> length bs" "i < length xs div 512"
  shows "chunk (take (512 * l) xs @ take (512 * n) bs @ drop (512 * l + 512 * n) xs) i =
    (if l \<le> i \<and> i < l + n then chunk bs (i - l) else chunk xs i)"
proof -
  have i: "512 * i + 512 \<le> length xs" using assms(3) by linarith
  show ?thesis
  proof (rule nth_equalityI)
    show "length (chunk (take (512 * l) xs @ take (512 * n) bs @ drop (512 * l + 512 * n) xs) i) =
        length (if l \<le> i \<and> i < l + n then chunk bs (i - l) else chunk xs i)"
      using i assms by (auto simp: chunk_def)
  next
    fix k assume k: "k < length (chunk (take (512 * l) xs @ take (512 * n) bs @ drop (512 * l + 512 * n) xs) i)"
    then have k: "k < 512" using length_chunk_le less_le_trans by blast
    have e: "chunk ys i ! k = ys ! (512 * i + k)" if "512 * i + 512 \<le> length ys" for ys i
      using that k by (simp add: chunk_def)
    consider "i < l" | "l \<le> i" "i < l + n" | "l + n \<le> i" by linarith
    then show "chunk (take (512 * l) xs @ take (512 * n) bs @ drop (512 * l + 512 * n) xs) i ! k =
        (if l \<le> i \<and> i < l + n then chunk bs (i - l) else chunk xs i) ! k"
    proof cases
      case 1
      then have "512 * i + k < 512 * l" using k by linarith
      then show ?thesis using 1 i assms by (simp add: e nth_append)
    next
      case 2
      then have c: "chunk bs (i - l) ! k = bs ! (512 * (i - l) + k)"
        using assms(2) by (intro e) linarith
      moreover have "512 * i + k = 512 * l + (512 * (i - l) + k)" "512 * (i - l) + k < 512 * n"
        using 2 k by (auto simp: algebra_simps)
      ultimately show ?thesis using 2 i assms by (simp add: e [of i] nth_append)
    next
      case 3
      then have "\<not> 512 * i + k < 512 * l" "\<not> 512 * i + k - 512 * l < 512 * n"
        "512 * l + 512 * n + (512 * i + k - 512 * l - 512 * n) = 512 * i + k" by linarith+
      then show ?thesis using 3 i assms by (simp add: e nth_append)
    qed
  qed
qed

lemma ramdisk_write_ok:
  assumes "ramdisk_ok rd" "unat lba + unat count \<le> ramdisk_sectors rd" "512 * unat count \<le> length buf"
  shows "\<exists>rd'. ramdisk_write lba count buf rd = Some (0, rd') \<and> ramdisk_ok rd' \<and>
    ramdisk_sectors rd' = ramdisk_sectors rd \<and>
    (\<forall>i < ramdisk_sectors rd. ramdisk_sector rd' i =
       (if unat lba \<le> i \<and> i < unat lba + unat count then chunk buf (i - unat lba) else ramdisk_sector rd i))"
proof -
  note r = transfer_range [OF assms(1,2)]
  let ?d = "take (512 * unat lba) (rd_data rd) @ take (512 * unat count) buf @
      drop (512 * unat lba + 512 * unat count) (rd_data rd)"
  have "length ?d = length (rd_data rd)" using r(4) assms(3) by simp
  moreover have "ramdisk_write lba count buf rd = Some (0, rd\<lparr>rd_data := ?d\<rparr>)"
    using r assms(3) by (simp add: ramdisk_write_def Let_def copy_bytes_eq)
  moreover have "\<forall>i < ramdisk_sectors rd. chunk ?d i =
       (if unat lba \<le> i \<and> i < unat lba + unat count then chunk buf (i - unat lba) else ramdisk_sector rd i)"
    using chunk_splice [OF r(4) assms(3)] by (simp add: ramdisk_sectors_def ramdisk_sector_def)
  ultimately show ?thesis using assms(1)
    by (auto simp: ramdisk_ok_def ramdisk_sectors_def ramdisk_sector_def)
qed

interpretation rdisk: block_dev ramdisk_read ramdisk_write ramdisk_ok ramdisk_sectors ramdisk_sector
  "2 ^ 32" "\<lambda>rd. rd"
proof (unfold_locales, goal_cases)
  case (1 d i)
  then have "512 * i + 512 \<le> length (rd_data d)" unfolding ramdisk_sectors_def by linarith
  then show ?case by (simp add: ramdisk_sector_def chunk_def)
next
  case (2 d lba count buf)
  then show ?case using ramdisk_read_ok [of d lba count buf] by simp
next
  case (3 d lba count buf)
  show ?case by (rule ramdisk_write_ok [OF 3(1,2,4)])
qed simp

text \<open>
  C33: What is written to a range of sectors of the RAM disk is read back from it: for every
  range inside the disk and every buffer of its length, the write returns 0, a read of the
  same range afterwards returns 0 and the same bytes, and every sector outside the range keeps
  its contents.
\<close>

theorem ramdisk_write_read:
  assumes "ramdisk_ok rd" "unat lba + unat count \<le> ramdisk_sectors rd" "512 * unat count = length buf"
    "length out = length buf"
  shows "\<exists>rd'. ramdisk_write lba count buf rd = Some (0, rd') \<and> ramdisk_ok rd' \<and>
    ramdisk_read lba count out rd' = Some (0, buf, rd') \<and>
    (\<forall>i < ramdisk_sectors rd. i < unat lba \<or> unat lba + unat count \<le> i \<longrightarrow>
       ramdisk_sector rd' i = ramdisk_sector rd i)"
proof -
  have "unat count \<le> 2 ^ 32" using unat_u32_bound [of count] by simp
  then obtain d1 d2 where d: "ramdisk_write lba count buf rd = Some (0, d1)"
    "ramdisk_read lba count out d1 = Some (0, buf, d2)" "ramdisk_ok d1"
    "ramdisk_sectors d1 = ramdisk_sectors rd"
    "\<And>i. i < ramdisk_sectors rd \<Longrightarrow> i < unat lba \<or> unat lba + unat count \<le> i \<Longrightarrow>
       ramdisk_sector d1 i = ramdisk_sector rd i"
    using rdisk.write_then_read [OF assms(1,2) _ assms(3,4)] by metis
  have "d2 = d1" using ramdisk_read_ok [of d1 lba count out] d(2-4) assms(2-4) by simp
  then show ?thesis using d by auto
qed

theorem ramdisk_write_read_witness:
  "\<exists>rd'. ramdisk_write 1 1 (replicate 512 7) \<lparr>rd_data = replicate 1024 0, rd_size_bytes = 1024\<rparr> = Some (0, rd') \<and>
     ramdisk_read 1 1 (replicate 512 0) rd' = Some (0, replicate 512 7, rd')"
  using ramdisk_write_read [of "\<lparr>rd_data = replicate 1024 0, rd_size_bytes = 1024\<rparr>" 1 1
      "replicate 512 7" "replicate 512 0"]
  by (auto simp: ramdisk_ok_def ramdisk_sectors_def)

text \<open>
  The range check of the RAM disk works on 64-bit products that wrap around: the sector
  number \<open>2 ^ 55\<close>, far beyond any disk, passes it, and reading or writing that sector reads
  or writes sector 0.
\<close>

theorem ramdisk_lba_wraps:
  "ramdisk_read (2 ^ 55) count buf rd = ramdisk_read 0 count buf rd \<and>
   ramdisk_write (2 ^ 55) count buf rd = ramdisk_write 0 count buf rd"
proof -
  have "(2 ^ 55 :: u64) * SECTOR_SIZE = 0"
    by (simp add: SECTOR_SIZE_def word_unat_eq_iff unat_word_ariths)
  then show ?thesis by (simp add: ramdisk_read_def ramdisk_write_def)
qed

end
