(* ===== verification/Fs_Find.thy ===== *)
theory Fs_Find
  imports Fs_Walk
begin

text \<open>
  \<open>fs_find\<close>: the walk over the tree with a path buffer of 128 bytes. The result is either
  the list of the paths whose last name contains the needle, or, when some path of the tree
  has 128 characters or more, a store past the end of the buffer.
\<close>

subsection \<open>The path buffer\<close>

definition ext :: "string \<Rightarrow> string \<Rightarrow> string" where
  "ext pre nm = (if pre = [slash] then slash # nm else pre @ slash # nm)"

definition full :: "string \<Rightarrow> string list \<Rightarrow> string" where
  "full pre cs = foldl ext pre cs"

definition buf_ok :: "string \<Rightarrow> char list \<Rightarrow> bool" where
  "buf_ok pre buf \<longleftrightarrow> length buf = MAX_PATH_LEN \<and> take (length pre) buf = pre \<and>
     pre \<noteq> [] \<and> length pre < MAX_PATH_LEN"

lemma copy_name_result:
  "length buf = MAX_PATH_LEN \<Longrightarrow> length (copy_name buf k s) = MAX_PATH_LEN \<and>
     (k + length s < MAX_PATH_LEN \<longrightarrow> take (k + length s) (copy_name buf k s) = take k buf @ s)"
proof (induction s arbitrary: buf k)
  case (Cons c s)
  show ?case
  proof (cases "k + 1 < MAX_PATH_LEN")
    case True
    then have "take (Suc k) (buf[k := c]) = take k buf @ [c]" using Cons.prems by (simp add: take_Suc_update)
    then show ?thesis using Cons.IH [of "buf[k := c]" "k + 1"] Cons.prems True by simp
  next
    case False
    then show ?thesis using Cons.prems by simp
  qed
qed simp

lemma put_char_ok: "i < length buf \<Longrightarrow> put_char buf i c = Some (buf[i := c])"
  by (simp add: put_char_def)

lemma find_path_result:
  assumes b: "buf_ok pre buf" and "cstring pre" "cstring nm" "nm \<noteq> []"
  shows "if length (ext pre nm) < MAX_PATH_LEN
    then \<exists>buf'. find_path nm buf (length pre) = Some (buf', length (ext pre nm)) \<and>
      buf_ok (ext pre nm) buf' \<and> cstr buf' = ext pre nm
    else find_path nm buf (length pre) = None"
proof -
  have root: "length pre = 1 \<and> buf ! 0 = slash \<longleftrightarrow> pre = [slash]"
  proof
    assume "length pre = 1 \<and> buf ! 0 = slash"
    then show "pre = [slash]" using b by (cases buf; cases pre) (auto simp: buf_ok_def)
  next
    assume "pre = [slash]"
    then show "length pre = 1 \<and> buf ! 0 = slash" using b by (cases buf) (auto simp: buf_ok_def)
  qed
  have final: "\<exists>buf'. put_char m (length p) NUL = Some buf' \<and> buf_ok p buf' \<and> cstr buf' = p"
    if "length m = MAX_PATH_LEN" "take (length p) m = p" "length p < MAX_PATH_LEN" "p \<noteq> []" "cstring p" for m p
  proof -
    have "cstr (m[length p := NUL]) = p" using that by (metis cstr_update_NUL)
    then show ?thesis using that by (auto simp: put_char_ok buf_ok_def)
  qed
  show ?thesis
  proof (cases "pre = [slash]")
    case True
    let ?m = "copy_name buf 1 nm"
    have m: "length ?m = MAX_PATH_LEN" "1 + length nm < MAX_PATH_LEN \<Longrightarrow> take (1 + length nm) ?m = take 1 buf @ nm"
      using copy_name_result [of buf 1 nm] b by (auto simp: buf_ok_def)
    have t1: "take 1 buf = [slash]" using b True by (simp add: buf_ok_def)
    have f: "find_path nm buf (length pre) =
        do { pathbuf \<leftarrow> put_char ?m (1 + length nm) NUL; Some (pathbuf, 1 + length nm) }"
      using root True by (simp add: find_path_def kstrlen_def Let_def)
    show ?thesis
    proof (cases "1 + length nm < MAX_PATH_LEN")
      case T: True
      then have "take (length (slash # nm)) ?m = slash # nm" using m(2) t1 by simp
      from final [OF m(1) this] T assms(3) obtain buf' where
        "put_char ?m (length (slash # nm)) NUL = Some buf'" "buf_ok (slash # nm) buf'" "cstr buf' = slash # nm"
        by auto
      then show ?thesis using f True T by (simp add: ext_def)
    next
      case False
      then show ?thesis using f True m(1) by (simp add: ext_def put_char_def)
    qed
  next
    case False
    then have nr: "\<not> (length pre = 1 \<and> buf ! 0 = slash)" using root by simp
    show ?thesis
    proof (cases "length pre + 1 < MAX_PATH_LEN")
      case True
      define b2 where "b2 = buf[length pre := slash, length pre + 1 := NUL]"
      have b2: "length b2 = MAX_PATH_LEN" "take (length pre + 1) b2 = pre @ [slash]"
        using b True by (simp_all add: b2_def buf_ok_def take_Suc_update)
      let ?m = "copy_name b2 (length pre + 1) nm"
      let ?n = "length pre + 1 + length nm"
      have m: "length ?m = MAX_PATH_LEN" "?n < MAX_PATH_LEN \<Longrightarrow> take ?n ?m = pre @ slash # nm"
        using copy_name_result [OF b2(1), of "length pre + 1" nm] b2(2) by auto
      have f: "find_path nm buf (length pre) =
          do { pathbuf \<leftarrow> put_char ?m ?n NUL; Some (pathbuf, ?n) }"
        using nr True b by (auto simp: find_path_def kstrlen_def Let_def put_char_ok buf_ok_def b2_def)
      show ?thesis
      proof (cases "?n < MAX_PATH_LEN")
        case T: True
        then have "take (length (pre @ slash # nm)) ?m = pre @ slash # nm" using m(2) by simp
        from final [OF m(1) this] T assms(2,3) obtain buf' where
          "put_char ?m (length (pre @ slash # nm)) NUL = Some buf'" "buf_ok (pre @ slash # nm) buf'"
          "cstr buf' = pre @ slash # nm" by auto
        then show ?thesis using f False T by (simp add: ext_def)
      next
        case F: False
        then show ?thesis using f False m(1) by (simp add: ext_def put_char_def)
      qed
    next
      case F: False
      have len: "length (copy_name buf (length pre) nm) = MAX_PATH_LEN"
        using copy_name_result b by (auto simp: buf_ok_def)
      have "MAX_PATH_LEN \<le> length pre + length nm" using F assms(4) by (cases nm) auto
      then show ?thesis
        using nr F False len by (auto simp: find_path_def kstrlen_def Let_def put_char_def ext_def)
    qed
  qed
qed

lemma ext_extends: "take (length pre) (ext pre nm) = pre"
  by (simp add: ext_def)

lemma buf_ok_shorter:
  assumes "buf_ok (ext pre nm) buf" "pre \<noteq> []" "nm \<noteq> []"
  shows "buf_ok pre (buf[length pre := NUL])" "length pre < length buf"
proof -
  have l: "length pre < length (ext pre nm)" using assms(3) by (simp add: ext_def)
  show "length pre < length buf" using assms l by (simp add: buf_ok_def)
  have "take (length pre) buf = take (length pre) (take (length (ext pre nm)) buf)"
    using l by (simp add: min_def)
  also have "\<dots> = pre" using assms(1) ext_extends [of pre nm] by (simp add: buf_ok_def)
  finally show "buf_ok pre (buf[length pre := NUL])" using assms l by (simp add: buf_ok_def)
qed

lemma ext_ne [simp]: "ext pre nm \<noteq> []"
  by (simp add: ext_def)

lemma cstring_ext: "cstring pre \<Longrightarrow> cstring nm \<Longrightarrow> cstring (ext pre nm)"
  by (simp add: ext_def)

lemma full_simps [simp]: "full pre [] = pre" "full pre (c # cs) = full (ext pre c) cs"
  by (simp_all add: full_def)

lemma full_root: "list_all valid_name cs \<Longrightarrow> pre \<noteq> [slash] \<Longrightarrow> full pre cs = pre @ path_of cs"
proof (induction cs arbitrary: pre)
  case (Cons c cs)
  have "ext pre c \<noteq> [slash]" using Cons.prems by (auto simp: ext_def valid_name_def append_eq_Cons_conv)
  then show ?case using Cons by (simp add: ext_def path_of_def)
qed (simp add: path_of_def)

lemma full_slash: "list_all valid_name cs \<Longrightarrow> cs \<noteq> [] \<Longrightarrow> full [slash] cs = path_of cs"
proof (cases cs)
  case (Cons c ds)
  assume v: "list_all valid_name cs"
  then have "slash # c \<noteq> [slash]" using Cons by (auto simp: valid_name_def)
  then show ?thesis using full_root [of ds "slash # c"] v Cons by (simp add: ext_def path_of_def)
qed simp

subsection \<open>The walk\<close>

definition emit :: "string list \<Rightarrow> 'a fs_st_scheme \<Rightarrow> 'a fs_st_scheme" where
  "emit ps st = fold (\<lambda>p s. console_write Fs_c [newline] (console_write Fs_c p s)) ps st"

lemma emit_simps [simp]:
  "emit [] st = st" "emit (ps @ qs) st = emit qs (emit ps st)"
  by (simp_all add: emit_def)

lemma emit_nodes [simp]: "fs_nodes (emit ps st) = fs_nodes st"
  unfolding emit_def by (rule fold_nodes) simp

text \<open>
  What a walk over nodes with the paths \<open>E\<close> below the prefix does: it prints the paths that
  match, or it stops with the store past the buffer because one of the paths is too long.
\<close>

definition walked :: "string \<Rightarrow> string \<Rightarrow> string list set \<Rightarrow> 'a fs_st_scheme \<Rightarrow>
    (char list \<times> 'a fs_st_scheme) option \<Rightarrow> bool" where
  "walked needle pre E st r \<longleftrightarrow>
     (r = None \<and> (\<exists>cs \<in> E. MAX_PATH_LEN \<le> length (full pre cs))) \<or>
     (\<exists>buf ps. r = Some (buf, emit ps st) \<and> buf_ok pre buf \<and>
        (\<forall>cs \<in> E. length (full pre cs) < MAX_PATH_LEN) \<and>
        set ps = full pre ` {cs \<in> E. kstrstr (last cs) needle \<noteq> None})"

lemma walkedE:
  assumes "walked needle pre E st r"
  obtains (bad) cs where "r = None" "cs \<in> E" "MAX_PATH_LEN \<le> length (full pre cs)"
  | (good) buf ps where "r = Some (buf, emit ps st)" "buf_ok pre buf"
      "\<And>cs. cs \<in> E \<Longrightarrow> length (full pre cs) < MAX_PATH_LEN"
      "set ps = full pre ` {cs \<in> E. kstrstr (last cs) needle \<noteq> None}"
  using assms unfolding walked_def by blast

definition names_below :: "'a fs_st_scheme \<Rightarrow> ptr \<Rightarrow> string list set" where
  "names_below st d = fst ` below st d"

lemma names_below_kids:
  assumes "fs_ok K st" "fs_nodes st d = Some dn"
  shows "names_below st d = (\<Union>c \<in> set (K d). insert [name_of (fs_nodes st) c]
    ((#) (name_of (fs_nodes st) c) ` names_below st c))"
  unfolding names_below_def below_kids [OF assms] image_UN image_insert image_image
  by (intro SUP_cong refl arg_cong2 [of _ _ _ _ insert]) (force simp: image_iff)+

lemma names_below_ne: "cs \<in> names_below st d \<Longrightarrow> cs \<noteq> []"
  by (auto simp: names_below_def below_def)

lemma filter_last:
  assumes "\<And>cs. cs \<in> N \<Longrightarrow> cs \<noteq> []"
  shows "{cs \<in> insert [x] ((#) x ` N). P (last cs)} =
    (if P x then {[x]} else {}) \<union> (#) x ` {cs \<in> N. P (last cs)}"
proof -
  have "last (x # cs) = last cs" if "cs \<in> N" for cs using assms [OF that] by simp
  then show ?thesis by (auto simp del: last.simps simp: last_ConsL)
qed

lemma find_walk_list:
  fixes st0 st :: "'a fs_st_scheme"
  assumes inv: "fs_ok K st0" and pre: "cstring pre"
    and IH: "\<And>c n pre buf (st :: 'a fs_st_scheme). c \<in> set cs \<Longrightarrow> fs_nodes st0 c = Some n \<Longrightarrow> fs_nodes st = fs_nodes st0 \<Longrightarrow>
      buf_ok pre buf \<Longrightarrow> cstring pre \<Longrightarrow>
      walked needle pre (names_below st0 c) st (fs_find_walk (n_child n) buf (length pre) needle st)"
    and nm: "\<And>c. c \<in> set cs \<Longrightarrow> valid_name (name_of (fs_nodes st0) c)"
  shows "chain (fs_nodes st0) p cs \<Longrightarrow> fs_nodes st = fs_nodes st0 \<Longrightarrow> buf_ok pre buf \<Longrightarrow>
    walked needle pre (\<Union>c \<in> set cs. insert [name_of (fs_nodes st0) c]
      ((#) (name_of (fs_nodes st0) c) ` names_below st0 c)) st
      (fs_find_walk p buf (length pre) needle st)"
  using IH nm
proof (induction cs arbitrary: p st buf)
  case Nil
  then show ?case by (simp add: walked_def fs_find_walk.simps)
next
  case (Cons c cs)
  obtain n where n: "p = c" "c \<noteq> NULL" "fs_nodes st0 c = Some n" "chain (fs_nodes st0) (n_sibling n) cs"
    using Cons.prems(1) by auto
  have vn: "valid_name (n_name n)" using Cons.prems(5) [of c] n(3) by simp
  then have v: "cstring (n_name n)" "n_name n \<noteq> []" by (auto simp: valid_name_def)
  note okc = tree_okD(3) [OF fs_okD(4) [OF inv] n(3)]
  let ?E = "insert [n_name n] ((#) (n_name n) ` names_below st0 c)"
  let ?R = "\<Union>c \<in> set cs. insert [name_of (fs_nodes st0) c] ((#) (name_of (fs_nodes st0) c) ` names_below st0 c)"
  note fp = find_path_result [OF Cons.prems(3) pre v]
  have pn: "pre \<noteq> []" using Cons.prems(3) by (simp add: buf_ok_def)
  show ?case
  proof (cases "length (ext pre (n_name n)) < MAX_PATH_LEN")
    case False
    then have "fs_find_walk p buf (length pre) needle st = None"
      using fp n(1-3) Cons.prems(2) by (subst fs_find_walk.simps) simp
    then show ?thesis using False n(3) by (auto simp: walked_def)
  next
    case short: True
    then obtain b1 where b1: "find_path (n_name n) buf (length pre) = Some (b1, length (ext pre (n_name n)))"
      "buf_ok (ext pre (n_name n)) b1" "cstr b1 = ext pre (n_name n)" using fp by auto
    define ps1 where "ps1 = (if kstrstr (n_name n) needle \<noteq> None then [ext pre (n_name n)] else [])"
    define st1 where "st1 = emit ps1 st"
    have s1: "fs_nodes st1 = fs_nodes st0" using Cons.prems(2) by (simp add: st1_def)
    define r where "r = (if n_is_dir n \<and> n_child n \<noteq> NULL
      then fs_find_walk (n_child n) b1 (length (ext pre (n_name n))) needle st1 else Some (b1, st1))"
    have r: "walked needle (ext pre (n_name n)) (names_below st0 c) st1 r"
    proof (cases "n_is_dir n \<and> n_child n \<noteq> NULL")
      case True
      then show ?thesis
        using Cons.prems(4) [of c n st1, OF _ n(3) s1 b1(2) cstring_ext [OF pre v(1)]] by (simp add: r_def)
    next
      case False
      have "K c = []"
      proof (rule ccontr)
        assume k: "K c \<noteq> []"
        then have "n_is_dir n" by (rule node_okD(4) [OF okc])
        moreover have "n_child n \<noteq> NULL" using node_okD(1) [OF okc] k chain_null by metis
        ultimately show False using False by simp
      qed
      then have "names_below st0 c = {}" using names_below_kids [OF inv n(3)] by simp
      then show ?thesis using False b1(2) by (auto simp: walked_def r_def intro!: exI [of _ "[]"])
    qed
    have step: "fs_find_walk p buf (length pre) needle st =
      do { (b, s) \<leftarrow> r; b \<leftarrow> put_char b (length pre) NUL;
           fs_find_walk (n_sibling n) b (length pre) needle s }"
      using n(1-3) Cons.prems(2) b1(1,3)
      by (subst fs_find_walk.simps) (simp add: r_def st1_def ps1_def emit_def Let_def cong: if_cong)
    from r show ?thesis
    proof (cases rule: walkedE)
      case (bad cs')
      then show ?thesis using step n(3) by (auto simp: walked_def intro!: bexI [of _ "n_name n # cs'"])
    next
      case (good b2 ps2)
      define st2 where "st2 = emit ps2 st1"
      define b3 where "b3 = b2[length pre := NUL]"
      have b3: "buf_ok pre b3" "put_char b2 (length pre) NUL = Some b3"
        using buf_ok_shorter [OF good(2) pn v(2)] by (simp_all add: b3_def put_char_ok)
      have s2: "fs_nodes st2 = fs_nodes st0" using s1 by (simp add: st2_def)
      have w: "walked needle pre ?R st2 (fs_find_walk (n_sibling n) b3 (length pre) needle st2)"
      proof (rule Cons.IH [OF n(4) s2 b3(1)])
        show "walked needle pre' (names_below st0 c') st' (fs_find_walk (n_child m) buf' (length pre') needle st')"
          if "c' \<in> set cs" "fs_nodes st0 c' = Some m" "fs_nodes st' = fs_nodes st0" "buf_ok pre' buf'" "cstring pre'"
          for c' m pre' buf' and st' :: "'a fs_st_scheme"
          using Cons.prems(4) [OF _ that(2-5)] that(1) by simp
        show "valid_name (name_of (fs_nodes st0) c')" if "c' \<in> set cs" for c'
          using Cons.prems(5) that by simp
      qed
      have run: "fs_find_walk p buf (length pre) needle st = fs_find_walk (n_sibling n) b3 (length pre) needle st2"
        using step good(1) b3(2) by (simp add: st2_def)
      have Es: "length (full pre cs') < MAX_PATH_LEN" if "cs' \<in> ?E" for cs'
        using that short good(3) by auto
      have prE: "set (ps1 @ ps2) = full pre ` {cs \<in> ?E. kstrstr (last cs) needle \<noteq> None}"
      proof -
        have "{cs \<in> ?E. kstrstr (last cs) needle \<noteq> None} =
          (if kstrstr (n_name n) needle \<noteq> None then {[n_name n]} else {}) \<union>
          (#) (n_name n) ` {cs \<in> names_below st0 c. kstrstr (last cs) needle \<noteq> None}"
          by (rule filter_last) (rule names_below_ne)
        then show ?thesis using good(4) by (auto simp: ps1_def image_Un image_image)
      qed
      have U: "(\<Union>c \<in> set (c # cs). insert [name_of (fs_nodes st0) c]
          ((#) (name_of (fs_nodes st0) c) ` names_below st0 c)) = ?E \<union> ?R"
        using n(3) by simp
      from w show ?thesis
      proof (cases rule: walkedE)
        case bad2: (bad cs')
        show ?thesis
          unfolding U walked_def run
          by (rule disjI1, rule conjI, rule bad2(1), rule bexI, rule bad2(3), rule UnI2, rule bad2(2))
      next
        case good2: (good b4 ps3)
        have e: "emit ps3 st2 = emit ((ps1 @ ps2) @ ps3) st" by (simp add: st1_def st2_def)
        have "set ((ps1 @ ps2) @ ps3) = full pre ` {cs \<in> ?E \<union> ?R. kstrstr (last cs) needle \<noteq> None}"
          unfolding set_append [of "ps1 @ ps2"] prE good2(4) by blast
        moreover have "\<forall>cs \<in> ?E \<union> ?R. length (full pre cs) < MAX_PATH_LEN"
          by (rule ballI, erule UnE, erule Es, erule good2(3))
        ultimately show ?thesis
          unfolding U walked_def run good2(1) e using good2(2)
          by (intro disjI2 exI conjI) (rule refl)
      qed
    qed
  qed
qed

lemma find_walk_dir:
  fixes st0 st :: "'a fs_st_scheme"
  assumes inv: "fs_ok K st0"
  shows "fs_nodes st0 d = Some n \<Longrightarrow> fs_nodes st = fs_nodes st0 \<Longrightarrow> buf_ok pre buf \<Longrightarrow> cstring pre \<Longrightarrow>
    walked needle pre (names_below st0 d) st (fs_find_walk (n_child n) buf (length pre) needle st)"
proof (induction d arbitrary: n pre buf st rule: wf_induct_rule [OF wf_edges [OF fs_okD(4) [OF inv]]])
  case (1 d)
  note t = fs_okD(4) [OF inv]
  have ch: "chain (fs_nodes st0) (n_child n) (K d)" by (rule node_okD(1) [OF tree_okD(3) [OF t 1(2)]])
  have "walked needle pre (\<Union>c \<in> set (K d). insert [name_of (fs_nodes st0) c]
      ((#) (name_of (fs_nodes st0) c) ` names_below st0 c)) st
      (fs_find_walk (n_child n) buf (length pre) needle st)"
  proof (rule find_walk_list [OF inv 1(5) _ _ ch 1(3,4)])
    show "walked needle pre' (names_below st0 c) st' (fs_find_walk (n_child m) buf' (length pre') needle st')"
      if "c \<in> set (K d)" "fs_nodes st0 c = Some m" "fs_nodes st' = fs_nodes st0" "buf_ok pre' buf'" "cstring pre'"
      for c m pre' buf' and st' :: "'a fs_st_scheme"
      using 1(1) [OF _ that(2-5)] that(1) by (simp add: edges_def)
    show "valid_name (name_of (fs_nodes st0) c)" if "c \<in> set (K d)" for c
      using t that by (rule kidD) simp
  qed
  then show ?case using names_below_kids [OF inv 1(2)] by simp
qed

lemma fs_find_walked:
  assumes inv: "fs_ok K st" and nd: "needle \<noteq> []"
  defines "E \<equiv> {cs. cs \<noteq> [] \<and> list_all cstring cs \<and> fs_lookup st (fs_root st) cs \<noteq> None}"
  shows "(fs_find (Some needle) st = None \<and> (\<exists>cs \<in> E. 128 \<le> length (path_of cs))) \<or>
    (\<exists>ps. fs_find (Some needle) st = Some (0, emit ps st) \<and> (\<forall>cs \<in> E. length (path_of cs) < 128) \<and>
       set ps = path_of ` {cs \<in> E. kstrstr (last cs) needle \<noteq> None})"
proof -
  obtain r where r: "fs_nodes st (fs_root st) = Some r" "fs_root st \<noteq> NULL" using root_node [OF inv] by blast
  have E: "E = names_below st (fs_root st)" by (force simp: E_def names_below_def below_def image_iff)
  let ?buf = "slash # replicate (MAX_PATH_LEN - 1) NUL"
  have b: "buf_ok [slash] ?buf" by (simp add: buf_ok_def MAX_PATH_LEN_def)
  have w: "walked needle [slash] E st (fs_find_walk (n_child r) ?buf 1 needle st)"
    using find_walk_dir [OF inv r(1) refl b, of needle] E by simp
  have fl: "full [slash] cs = path_of cs" if "cs \<in> E" for cs
    using that lookup_valid [OF inv, of "fs_root st" cs] r(1) full_slash by (auto simp: E_def)
  have im: "full [slash] ` {cs \<in> E. kstrstr (last cs) needle \<noteq> None} = path_of ` {cs \<in> E. kstrstr (last cs) needle \<noteq> None}"
    using fl by (intro image_cong) auto
  show ?thesis
  proof (cases "n_child r = NULL")
    case True
    have "K (fs_root st) = []"
      using node_okD(1) [OF tree_okD(3) [OF fs_okD(4) [OF inv] r(1)]] True chain_null by simp
    then have "E = {}" using names_below_kids [OF inv r(1)] E by simp
    moreover have "fs_find (Some needle) st = Some (0, st)" using True r nd by (simp add: fs_find_def)
    ultimately show ?thesis by (auto intro!: exI [of _ "[]"])
  next
    case False
    then have run: "fs_find (Some needle) st =
        do { (_, s) \<leftarrow> fs_find_walk (n_child r) ?buf 1 needle st; Some (0, s) }"
      using r nd by (simp add: fs_find_def)
    from w show ?thesis
    proof (cases rule: walkedE)
      case (bad cs)
      then show ?thesis using run fl by (auto simp: MAX_PATH_LEN_def)
    next
      case (good buf ps)
      then have "fs_find (Some needle) st = Some (0, emit ps st)" using run by simp
      moreover have "\<forall>cs \<in> E. length (path_of cs) < 128" using good(3) fl by (simp add: MAX_PATH_LEN_def)
      ultimately show ?thesis using good(4) im by blast
    qed
  qed
qed

subsection \<open>Properties\<close>

text \<open>
  C22: when every path of the tree has less than 128 characters, \<open>fs_find\<close> ends, returns 0
  and prints, one per line, exactly the absolute paths of the nodes whose name contains the
  needle.
\<close>

theorem fs_find_prints_matches:
  assumes "fs_inv st" "cstring needle" "needle \<noteq> []"
    and "\<And>cs. list_all cstring cs \<Longrightarrow> fs_lookup st (fs_root st) cs \<noteq> None \<Longrightarrow> length (path_of cs) < 128"
  shows "\<exists>ps. fs_find (Some needle) st = Some (0, emit ps st) \<and>
    set ps = {path_of cs | cs. cs \<noteq> [] \<and> list_all cstring cs \<and> fs_lookup st (fs_root st) cs \<noteq> None \<and>
      sublist needle (last cs)}"
proof -
  from assms(1) obtain K where inv: "fs_ok K st" by (auto simp: fs_inv_def)
  let ?E = "{cs. cs \<noteq> [] \<and> list_all cstring cs \<and> fs_lookup st (fs_root st) cs \<noteq> None}"
  have no: "\<not> (\<exists>cs \<in> ?E. 128 \<le> length (path_of cs))" using assms(4) by force
  from fs_find_walked [OF inv assms(3)] no obtain ps where ps: "fs_find (Some needle) st = Some (0, emit ps st)"
    "set ps = path_of ` {cs \<in> ?E. kstrstr (last cs) needle \<noteq> None}" by blast
  have "kstrstr (last cs) needle \<noteq> None \<longleftrightarrow> sublist needle (last cs)" if "cs \<in> ?E" for cs
    by (rule kstrstr_iff) (use that assms(2) in \<open>auto simp: list_all_iff\<close>)
  then have "{cs \<in> ?E. kstrstr (last cs) needle \<noteq> None} = {cs \<in> ?E. sublist needle (last cs)}" by blast
  then have "set ps = {path_of cs | cs. cs \<noteq> [] \<and> list_all cstring cs \<and>
      fs_lookup st (fs_root st) cs \<noteq> None \<and> sublist needle (last cs)}"
    unfolding ps(2) by (auto simp: image_iff)
  then show ?thesis using ps(1) by blast
qed

theorem fs_find_prints_matches_witness:
  "\<exists>st1 ps. fs_touch (Some ''/motd'') fs_st1 = Some (0, st1) \<and>
     fs_find (Some ''ot'') st1 = Some (0, emit ps st1) \<and> set ps = {''/motd''}"
proof -
  have v: "valid_name ''motd''" by (simp add: valid_name_def MAX_NAME_LEN_def)
  then obtain n st1 where st1: "fs_touch (Some ''/motd'') fs_st1 = Some (0, st1)"
    "created (\<lambda>_. []) fs_st1 (fs_root fs_st1) ''motd'' False n st1" by (rule fs_st1_create)
  note C = createdD [OF st1(2)]
  have inv: "fs_inv st1" using C(9) by (auto simp: fs_inv_def)
  have rt: "fs_nodes fs_st1 (fs_root fs_st1) \<noteq> None" by (simp add: fs_st1_ok(4))
  have old: "fs_lookup fs_st1 (fs_root fs_st1) cs = (if cs = [] then Some (fs_root fs_st1) else None)" for cs
    using fs_st1_find by (cases cs) auto
  have lk: "fs_lookup st1 (fs_root st1) cs \<noteq> None \<longleftrightarrow> cs = [] \<or> cs = [''motd'']"
    if "list_all cstring cs" for cs
  proof (cases cs rule: rev_cases)
    case (snoc ys y)
    then show ?thesis
      using created_lookup [OF st1(2) rt that] C(11) by (auto simp: old)
  qed simp
  have short: "length (path_of cs) < 128" if "list_all cstring cs" "fs_lookup st1 (fs_root st1) cs \<noteq> None" for cs
    using lk [OF that(1)] that(2) by (auto simp: path_of_def)
  have sub: "sublist ''ot'' ''motd''" using sublist_appendI [of "''ot''" "''m''" "''d''"] by simp
  have "\<exists>ps. fs_find (Some ''ot'') st1 = Some (0, emit ps st1) \<and>
    set ps = {path_of cs | cs. cs \<noteq> [] \<and> list_all cstring cs \<and> fs_lookup st1 (fs_root st1) cs \<noteq> None \<and>
      sublist ''ot'' (last cs)}"
    by (rule fs_find_prints_matches [OF inv _ _ short]) simp_all
  moreover have "{path_of cs | cs. cs \<noteq> [] \<and> list_all cstring cs \<and> fs_lookup st1 (fs_root st1) cs \<noteq> None \<and>
      sublist ''ot'' (last cs)} = {''/motd''}"
  proof -
    have "(cs \<noteq> [] \<and> list_all cstring cs \<and> fs_lookup st1 (fs_root st1) cs \<noteq> None \<and> sublist ''ot'' (last cs)) \<longleftrightarrow>
        cs = [''motd'']" for cs
      using lk [of cs] sub by auto
    then show ?thesis by (simp add: path_of_def)
  qed
  ultimately show ?thesis using st1(1) by auto
qed

text \<open>
  A chain of directories made with \<open>mkdir\<close> and \<open>cd\<close>: every step adds 32 characters to the
  path of the working directory.
\<close>

fun deep :: "nat \<Rightarrow> string \<Rightarrow> 'a fs_st_scheme \<Rightarrow> 'a fs_st_scheme option" where
  "deep 0 nm st = Some st"
| "deep (Suc k) nm st =
     do { (_, st) \<leftarrow> fs_mkdir (Some nm) st; (_, st) \<leftarrow> fs_chdir (Some nm) st; deep k nm st }"

lemma deep_step:
  assumes inv: "fs_ok K st" and v: "valid_name nm" and rm: "room st 56"
    and e: "fs_find_in_dir st (fs_cwd st) nm = Some NULL"
    and l: "list_all cstring cs" "fs_lookup st (fs_root st) cs = Some (fs_cwd st)"
  obtains K' st' where "\<And>k. deep (Suc k) nm st = deep k nm st'" "fs_ok K' st'"
    "unat (heap_offset st') = unat (heap_offset st) + 56" "fs_find_in_dir st' (fs_cwd st') nm = Some NULL"
    "fs_lookup st' (fs_root st') (cs @ [nm]) = Some (fs_cwd st')"
proof -
  have nm: "cstring nm" "nm \<noteq> []" "hd nm \<noteq> slash" "length nm < MAX_PATH_LEN"
    using v by (cases nm; auto simp: valid_name_def MAX_NAME_LEN_def MAX_PATH_LEN_def)+
  obtain d where d: "fs_nodes st (fs_cwd st) = Some d" "n_is_dir d" using cwd_node [OF inv] by blast
  have t: "create_target st nm = Some (fs_cwd st, nm)"
    using d e nm components_one [OF v] by (simp add: create_target_def path_base_def)
  from inv nm(1) show thesis
  proof (cases rule: fs_mkdir_cases)
    case (fail st')
    then show thesis using t rm nm by simp
  next
    case (ok d' c n st1)
    have same: "d' = fs_cwd st" "c = nm" using ok(2) t by simp_all
    note cr = ok(3) [unfolded same]
    note C = createdD [OF cr]
    have f: "fs_find_in_dir st1 (fs_cwd st1) nm = Some n"
      using created_find [OF cr d(1) nm(1)] C(12) by simp
    have lk: "fs_lookup st1 (path_base st1 nm) (components nm) = Some n"
      using f C(1) nm components_one [OF v] by (simp add: path_base_def)
    have dn: "dir_at (fs_nodes st1) n" using C(19) by (simp add: dir_at_def)
    from C(9) nm(1,2) show thesis
    proof (cases rule: fs_chdir_cases)
      case fail
      then show thesis using lk dn by blast
    next
      case ch: (ok q)
      have q: "q = n" using ch(3) lk by simp
      have run: "deep (Suc k) nm st = deep k nm (st1\<lparr>fs_cwd := n\<rparr>)" for k
        using ok(1) ch(1) q by simp
      obtain r where "fs_nodes st (fs_root st) = Some r" using root_node [OF inv] by blast
      then have rt: "fs_nodes st (fs_root st) \<noteq> None" "fs_nodes st1 (fs_root st) \<noteq> None"
        using root_node [OF C(9)] C(11) by auto
      have lc: "list_all cstring (cs @ [nm])" using l(1) nm(1) by simp
      have "fs_lookup (st1\<lparr>fs_cwd := n\<rparr>) (fs_root st) (cs @ [nm]) = fs_lookup st1 (fs_root st) (cs @ [nm])"
        by (rule fs_lookup_shape [OF fs_okD(4) [OF C(9)] _ rt(2) lc]) simp
      also have "\<dots> = Some n" using created_lookup [OF cr rt(1) lc] l(2) by simp
      finally have "fs_lookup (st1\<lparr>fs_cwd := n\<rparr>) (fs_root st) (cs @ [nm]) = Some n" .
      moreover have "fs_find_in_dir (st1\<lparr>fs_cwd := n\<rparr>) n nm = fs_find_in_dir st1 n nm"
        using fs_find_shape [OF fs_okD(4) [OF C(9)] _ C(19) nm(1), of "st1\<lparr>fs_cwd := n\<rparr>"] by simp
      ultimately show thesis
        using that [OF run ch(2) [unfolded q]] C(10,11) created_find_new [OF cr nm(1)] by simp
    qed
  qed
qed

lemma deep_run:
  assumes v: "valid_name nm"
  shows "fs_ok K st \<Longrightarrow> unat (heap_offset st) + 56 * k < 0x100000 \<Longrightarrow>
    fs_find_in_dir st (fs_cwd st) nm = Some NULL \<Longrightarrow> list_all cstring cs \<Longrightarrow>
    fs_lookup st (fs_root st) cs = Some (fs_cwd st) \<Longrightarrow>
    \<exists>st'. deep k nm st = Some st' \<and> fs_inv st' \<and>
      fs_lookup st' (fs_root st') (cs @ replicate k nm) = Some (fs_cwd st')"
proof (induction k arbitrary: K st cs)
  case 0
  then show ?case by (auto simp: fs_inv_def)
next
  case (Suc k)
  have "room st 56" using Suc.prems(2) by (simp add: room_def)
  from Suc.prems(1) v this Suc.prems(3-5) obtain K' st' where st':
    "\<And>k. deep (Suc k) nm st = deep k nm st'" "fs_ok K' st'"
    "unat (heap_offset st') = unat (heap_offset st) + 56" "fs_find_in_dir st' (fs_cwd st') nm = Some NULL"
    "fs_lookup st' (fs_root st') (cs @ [nm]) = Some (fs_cwd st')" by (rule deep_step) blast
  have "list_all cstring (cs @ [nm])" using Suc.prems(4) v by (simp add: valid_name_def)
  from Suc.IH [OF st'(2) _ st'(4) this st'(5)] st'(1,3) Suc.prems(2) show ?case by simp
qed

text \<open>
  \<open>fs_find\<close> writes past its 128-byte path buffer as soon as the tree has a path of 128
  characters or more, whatever it is asked to find. Such trees exist: \<open>fs_mkdir\<close> limits the
  path it is given, not the depth reached through the working directory.
\<close>

theorem fs_find_overflows:
  assumes "fs_inv st" "needle \<noteq> []"
    and "list_all cstring cs" "fs_lookup st (fs_root st) cs \<noteq> None" "128 \<le> length (path_of cs)"
  shows "fs_find (Some needle) st = None"
proof -
  from assms(1) obtain K where inv: "fs_ok K st" by (auto simp: fs_inv_def)
  have "cs \<noteq> []" using assms(5) by (auto simp: path_of_def)
  then have "cs \<in> {cs. cs \<noteq> [] \<and> list_all cstring cs \<and> fs_lookup st (fs_root st) cs \<noteq> None}"
    using assms(3,4) by simp
  with fs_find_walked [OF inv assms(2)] assms(5) show ?thesis by fastforce
qed

theorem fs_find_overflows_witness:
  "\<exists>st. deep 4 (replicate 31 CHR ''x'') fs_st1 = Some st \<and> fs_inv st \<and> fs_find (Some ''motd'') st = None"
proof -
  let ?x = "replicate 31 CHR ''x''"
  have v: "valid_name ?x" by (simp add: valid_name_def cstring_def MAX_NAME_LEN_def)
  have f: "fs_find_in_dir fs_st1 (fs_cwd fs_st1) ?x = Some NULL"
    by (simp only: fs_st1_ok(2) fs_st1_find)
  have l: "fs_lookup fs_st1 (fs_root fs_st1) [] = Some (fs_cwd fs_st1)" by (simp add: fs_st1_ok(2))
  obtain st where st: "deep 4 ?x fs_st1 = Some st" "fs_inv st"
    "fs_lookup st (fs_root st) (replicate 4 ?x) = Some (fs_cwd st)"
    using deep_run [OF v fs_st1_ok(1) _ f _ l, of 4] fs_st1_ok(5) by (auto simp del: deep.simps)
  have c: "list_all cstring (replicate 4 ?x)" by (simp add: list_all_iff cstring_def)
  have len: "128 \<le> length (path_of (replicate 4 ?x))"
    by (simp add: path_of_def length_concat sum_list_replicate)
  have "fs_find (Some ''motd'') st = None"
    by (rule fs_find_overflows [OF st(2) _ c _ len]) (use st(3) in simp_all)
  then show ?thesis using st by blast
qed

end
