(* ===== verification/Editor.thy ===== *)
theory Editor
  imports Blockdev Fs_Find
begin

text \<open>
  The text editor, \<open>kernel/shell/editor.c\<close>: a buffer of at most 4095 characters that grows and
  shrinks at its end, the name of the file, and the mode. The state holds the characters in
  front of \<open>editor_len\<close>, so the length of the list is the variable of the code. The console
  calls are recorded in the trace of theory \<open>Output\<close>.
\<close>

definition EDITOR_BUF_SIZE :: nat where "EDITOR_BUF_SIZE = 4096"
definition EDITOR_NAME_MAX :: nat where "EDITOR_NAME_MAX = 32"

record 'd ed_st = "'d dev_st" +
  editor_buf :: string
  editor_name :: string
  editor_active :: bool

subsection \<open>Status lines\<close>

text \<open>The colour calls, and the loops that both status bars are built with.\<close>

definition theme_default :: "tu \<Rightarrow> 'a out_st_scheme \<Rightarrow> 'a out_st_scheme" where
  "theme_default f = con_call f (Con_set_color 7 0)"

definition theme_banner :: "tu \<Rightarrow> 'a out_st_scheme \<Rightarrow> 'a out_st_scheme" where
  "theme_banner f = con_call f (Con_set_color 11 0)"

fun add_text :: "string \<Rightarrow> string \<Rightarrow> string" where
  "add_text buf [] = buf"
| "add_text buf (c # p) = (if length buf < 79 then add_text (buf @ [c]) p else buf)"

function pad_line :: "string \<Rightarrow> string" where
  "pad_line buf = (if length buf < 79 then pad_line (buf @ '' '') else buf)"
  by pat_completeness auto
termination
  by (relation "measure (\<lambda>buf. 79 - length buf)") auto

declare pad_line.simps [simp del]

text \<open>The loop that draws a line, given where it stops.\<close>

definition put_line :: "tu \<Rightarrow> string \<Rightarrow> nat \<Rightarrow> 'a out_st_scheme \<Rightarrow> 'a out_st_scheme" where
  "put_line f line row st = fold (\<lambda>x. con_call f (Con_put_at (line ! x) x row)) [0..<79] st"

definition editor_status_line :: "string \<Rightarrow> string" where
  "editor_status_line name =
     pad_line (add_text (add_text [] ''[ESC] save & exit | editing: '') name)"

definition editor_draw_status :: "('d, 'a) ed_st_scheme \<Rightarrow> ('d, 'a) ed_st_scheme" where
  "editor_draw_status st =
     (let st = con_call Editor_c Con_get_cursor st;
          row = 25 - 1;
          st = con_call Editor_c (Con_set_color 0 7) st;
          st = put_line Editor_c (editor_status_line (editor_name st)) row st;
          st = theme_default Editor_c st
      in con_call Editor_c Con_restore_cursor st)"

subsection \<open>Operations\<close>

definition editor_save_file :: "('d, 'a) ed_st_scheme \<Rightarrow> ('d, 'a) ed_st_scheme option" where
  "editor_save_file st =
     (if editor_buf st = [] then do {
        (r, st) \<leftarrow> fs_touch (Some (editor_name st)) st;
        Some (if r = 0
              then console_write Editor_c ([newline] @ ''[editor] Saved (empty file).'' @ [newline]) st
              else console_write Editor_c ([newline] @ ''[editor] Error saving empty file.'' @ [newline]) st)
      } else do {
        (r, st) \<leftarrow> fs_write_cwd (Some (editor_name st)) (Some (editor_buf st)) st;
        Some (if r = 0
              then console_write Editor_c ([newline] @ ''[editor] Saved.'' @ [newline]) st
              else console_write Editor_c ([newline] @ ''[editor] Error saving file.'' @ [newline]) st)
      })"

fun copy_upto :: "nat \<Rightarrow> string \<Rightarrow> string" where
  "copy_upto (Suc n) (c # s) = c # copy_upto n s"
| "copy_upto _ _ = []"

lemma copy_upto_eq: "copy_upto n s = take n s"
  by (induction n s rule: copy_upto.induct) auto

definition editor_start :: "string option \<Rightarrow> ('d, 'a) ed_st_scheme \<Rightarrow> ('d, 'a) ed_st_scheme" where
  "editor_start filename st =
     (case filename of None \<Rightarrow> st
      | Some f \<Rightarrow>
          if f = [] then st
          else let st = st\<lparr>editor_name := copy_upto (EDITOR_NAME_MAX - 1) f\<rparr>;
                   st = st\<lparr>editor_buf := [], editor_active := True\<rparr>;
                   st = con_call Editor_c Con_clear st;
                   st = theme_banner Editor_c st;
                   st = console_write Editor_c ''Hypnos editor - editing: '' st;
                   st = console_write Editor_c (editor_name st) st;
                   st = console_write Editor_c [newline, newline] st;
                   st = theme_default Editor_c st
               in editor_draw_status st)"

abbreviation escape :: char where "escape \<equiv> CHR 0x1B"

definition editor_handle_key :: "char \<Rightarrow> ('d, 'a) ed_st_scheme \<Rightarrow> ('d, 'a) ed_st_scheme option" where
  "editor_handle_key c st =
     (if \<not> editor_active st then Some st
      else if c = escape then do {
        st \<leftarrow> editor_save_file st;
        Some (st\<lparr>editor_active := False\<rparr>)
      }
      else if c = CHR 0x08 then
        if length (editor_buf st) > 0
        then Some (console_write Editor_c [CHR 0x08] (st\<lparr>editor_buf := butlast (editor_buf st)\<rparr>))
        else Some st
      else if c = newline then
        if length (editor_buf st) < EDITOR_BUF_SIZE - 1
        then Some (console_write Editor_c [newline] (st\<lparr>editor_buf := editor_buf st @ [newline]\<rparr>))
        else Some st
      else if ord c \<ge> 32 \<and> ord c \<le> 126 then
        if length (editor_buf st) < EDITOR_BUF_SIZE - 1
        then Some (console_write Editor_c [c] (st\<lparr>editor_buf := editor_buf st @ [c]\<rparr>))
        else Some st
      else Some st)"

definition editor_is_active :: "('d, 'a) ed_st_scheme \<Rightarrow> bool" where
  "editor_is_active st = editor_active st"

end
