(* ===== verification/Shell.thy ===== *)
theory Shell
  imports Editor
begin

text \<open>
  The command shell, \<open>kernel/shell/shell.c\<close>: the input line, the commands and the status bar.
  The state holds the characters of \<open>input_buffer\<close> in front of \<open>input_len\<close>. A command ends in an
  \<open>outcome\<close>; \<open>None\<close> is undefined behaviour, as everywhere.
\<close>

definition SHELL_INPUT_MAX :: nat where "SHELL_INPUT_MAX = 128"

record 'd shell_st = "'d ed_st" +
  input_line :: string
  tree_count :: int
  tick_counter :: int

abbreviation sh_write :: "string \<Rightarrow> 'a out_st_scheme \<Rightarrow> 'a out_st_scheme" where
  "sh_write \<equiv> console_write Shell_c"

text \<open>A line of output is one string that ends in the newline.\<close>

abbreviation sh_line :: "string \<Rightarrow> 'a out_st_scheme \<Rightarrow> 'a out_st_scheme" where
  "sh_line s \<equiv> console_write Shell_c (s @ [newline])"

fun skip_spaces :: "string \<Rightarrow> string" where
  "skip_spaces [] = []"
| "skip_spaces (c # s) = (if c = CHR '' '' then skip_spaces s else c # s)"

text \<open>A word goes into an array of \<open>Suc n\<close> characters; the rest of the string is left.\<close>

fun take_word :: "nat \<Rightarrow> string \<Rightarrow> string \<times> string" where
  "take_word n [] = ([], [])"
| "take_word n (c # s) =
     (if c \<noteq> CHR '' '' \<and> n > 0
      then (let (w, r) = take_word (n - 1) s in (c # w, r))
      else ([], c # s))"

subsection \<open>The status bar and the prompt\<close>

definition status_line :: "string \<Rightarrow> u32 \<Rightarrow> string \<Rightarrow> string" where
  "status_line user sec cwd =
     (let buf = add_text [] '' user: '';
          buf = add_text buf user;
          buf = add_text buf '' | uptime: '';
          buf = add_text buf (ui_itoa sec);
          buf = add_text buf ''s'';
          buf = add_text buf '' | fs: RAM-FS'';
          buf = add_text buf '' | cwd: '';
          buf = add_text buf cwd
      in pad_line buf)"

definition shell_draw_status_bar :: "('d, 'a) shell_st_scheme \<Rightarrow> ('d, 'a) shell_st_scheme option" where
  "shell_draw_status_bar st =
     do {
       let sec = timer_get_seconds st;
       let user = sec_get_current_username st;
       cwd \<leftarrow> fs_getcwd st;
       let buf = status_line user sec cwd;
       let st = con_call Shell_c Con_get_cursor st;
       let bar_row = 25 - 1;
       let st = con_call Shell_c (Con_set_color 0 7) st;
       let st = put_line Shell_c buf bar_row st;
       let st = theme_default Shell_c st;
       Some (con_call Shell_c Con_restore_cursor st)
     }"

definition shell_print_prompt :: "('d, 'a) shell_st_scheme \<Rightarrow> ('d, 'a) shell_st_scheme option" where
  "shell_print_prompt st =
     do {
       st \<leftarrow> shell_draw_status_bar st;
       cwd \<leftarrow> fs_getcwd st;
       let st = con_call Shell_c (Con_set_color 10 0) st;
       let st = sh_write (sec_get_current_username st) st;
       let st = sh_write ''@hypnos'' st;
       let st = con_call Shell_c (Con_set_color 5 0) st;
       let st = sh_write cwd st;
       let st = con_call Shell_c (Con_set_color 10 0) st;
       let st = sh_write ''>'' st;
       Some (theme_default Shell_c st)
     }"

subsection \<open>Commands on the disk\<close>

definition cmd_diskread :: "string \<Rightarrow> ('d, 'a) shell_st_scheme \<Rightarrow> ('d, 'a) shell_st_scheme option" where
  "cmd_diskread arg st =
     (let (lba, arg) = parse_u32 0 (skip_spaces arg)
      in case blockdev_get_root st of
        None \<Rightarrow> Some (sh_line ''diskread: no root block device'' st)
      | Some dev \<Rightarrow> do {
          (r, buf, d) \<leftarrow> bd_read dev (ucast lba) 1 (replicate 512 0) (disk st);
          let st = st\<lparr>disk := d\<rparr>;
          if r \<noteq> 0 then Some (sh_line ''diskread: read error'' st)
          else let st = sh_write ''Sector '' st;
                   st = fold (\<lambda>i. con_call Shell_c (Con_putc
                          (let b = unat (buf ! i)
                           in if b < 32 \<or> b > 126 then CHR ''.'' else char_of b))) [0..<64] st
               in Some (sh_line [] st)
        })"

definition cmd_diskwrite :: "string \<Rightarrow> ('d, 'a) shell_st_scheme \<Rightarrow> ('d, 'a) shell_st_scheme option" where
  "cmd_diskwrite arg st =
     (let (lba, arg) = parse_u32 0 (skip_spaces arg);
          arg = skip_spaces arg
      in case blockdev_get_root st of
        None \<Rightarrow> Some (sh_line ''diskwrite: no root block device'' st)
      | Some dev \<Rightarrow> do {
          let text = copy_upto 511 arg;
          let buf = map of_char text @ replicate (512 - length text) 0;
          (r, d) \<leftarrow> bd_write dev (ucast lba) 1 buf (disk st);
          let st = st\<lparr>disk := d\<rparr>;
          if r \<noteq> 0 then Some (sh_line ''diskwrite: write error'' st)
          else Some (sh_line ''diskwrite: wrote sector'' st)
        })"

subsection \<open>Callbacks\<close>

definition ls_printer :: "string \<Rightarrow> bool \<Rightarrow> ('d, 'a) shell_st_scheme \<Rightarrow> ('d, 'a) shell_st_scheme" where
  "ls_printer name is_dir st =
     (let st = sh_write ''  '' st;
          st = sh_write name st;
          st = (if is_dir then sh_write ''/'' st else st)
      in sh_line [] st)"

definition snap_list_printer :: "string \<Rightarrow> ('d, 'a) shell_st_scheme \<Rightarrow> ('d, 'a) shell_st_scheme" where
  "snap_list_printer name st = sh_line [] (sh_write name (sh_write ''  '' st))"

definition tree_printer :: "string \<Rightarrow> bool \<Rightarrow> int \<Rightarrow> ('d, 'a) shell_st_scheme \<Rightarrow> ('d, 'a) shell_st_scheme" where
  "tree_printer name is_dir depth st =
     (let st = st\<lparr>tree_count := tree_count st + 1\<rparr>;
          st = fold (\<lambda>i. sh_write ''|   '') [0..<nat depth] st;
          st = sh_write ''|-- '' st;
          st = sh_write name st;
          st = (if is_dir then sh_write ''/'' st else st)
      in sh_line [] st)"

subsection \<open>Commands about users and the log\<close>

definition cmd_whoami :: "('d, 'a) shell_st_scheme \<Rightarrow> ('d, 'a) shell_st_scheme" where
  "cmd_whoami st =
     sh_line [] (sh_write (sec_get_current_username st) (sh_write ''Current user: '' st))"

fun users_loop :: "nat \<Rightarrow> user list \<Rightarrow> ('d, 'a) shell_st_scheme \<Rightarrow> ('d, 'a) shell_st_scheme option" where
  "users_loop i [] st = Some st"
| "users_loop i (u # us) st =
     do {
       let st = sh_write ''  '' st;
       let st = sh_write (usr_name u) st;
       cur \<leftarrow> sec_get_current_user st;
       let st = (if int i = usr_id cur then sh_write '' (current)'' st else st);
       users_loop (Suc i) us (sh_line [] st)
     }"

definition cmd_users :: "('d, 'a) shell_st_scheme \<Rightarrow> ('d, 'a) shell_st_scheme option" where
  "cmd_users st =
     (let (n, list) = sec_list_users 8 st
      in users_loop 0 (take (nat n) list) (sh_line ''Users:'' st))"

definition cmd_login :: "string option \<Rightarrow> ('d, 'a) shell_st_scheme \<Rightarrow> ('d, 'a) shell_st_scheme" where
  "cmd_login name st =
     (if name = None \<or> name = Some [] then sh_line ''Usage: login <username>'' st
      else snd (sec_login name st))"

definition cmd_log_show :: "('d, 'a) shell_st_scheme \<Rightarrow> ('d, 'a) shell_st_scheme" where
  "cmd_log_show st = log_dump st"

subsection \<open>Commands on files\<close>

text \<open>The string that a pointer returned by \<open>fs_read\<close> points to.\<close>

definition buf_string :: "ptr \<Rightarrow> 'a fs_st_scheme \<Rightarrow> string option" where
  "buf_string p st =
     (case fs_bufs st p of None \<Rightarrow> None
      | Some bs \<Rightarrow> if 0 \<in> set bs then Some (cstr (map (\<lambda>b. char_of (unat b)) bs)) else None)"

definition cmd_snap_list :: "('d, 'a) shell_st_scheme \<Rightarrow> ('d, 'a) shell_st_scheme option" where
  "cmd_snap_list st = fs_snap_list snap_list_printer (sh_line ''Snapshots:'' st)"

definition cmd_ls :: "('d, 'a) shell_st_scheme \<Rightarrow> ('d, 'a) shell_st_scheme option" where
  "cmd_ls st =
     do {
       let st = sh_write ''Listing '' st;
       cwd \<leftarrow> fs_getcwd st;
       fs_list ls_printer (sh_line '':'' (sh_write cwd st))
     }"

definition cmd_pwd :: "('d, 'a) shell_st_scheme \<Rightarrow> ('d, 'a) shell_st_scheme option" where
  "cmd_pwd st = do { cwd \<leftarrow> fs_getcwd st; Some (sh_line [] (sh_write cwd st)) }"

text \<open>The two loops of \<open>cd ..\<close> that shorten the path.\<close>

function strip_segment :: "string \<Rightarrow> string" where
  "strip_segment buf = (if buf \<noteq> [] \<and> last buf \<noteq> slash then strip_segment (butlast buf) else buf)"
  by pat_completeness auto
termination
  by (relation "measure length") auto

declare strip_segment.simps [simp del]

definition parent_path :: "string \<Rightarrow> string" where
  "parent_path cwd =
     (let buf = copy_upto 127 cwd
      in if buf = [slash] then buf
         else let buf = (if length buf > 1 \<and> last buf = slash then butlast buf else buf);
                  buf = strip_segment buf
              in if buf = [] then [slash] else buf)"

definition cmd_cd :: "string option \<Rightarrow> ('d, 'a) shell_st_scheme \<Rightarrow> ('d, 'a) shell_st_scheme option" where
  "cmd_cd path st =
     (case path of None \<Rightarrow> Some (sh_line ''Usage: cd <path>'' st)
      | Some p \<Rightarrow>
          if p = [] then Some (sh_line ''Usage: cd <path>'' st)
          else if kstrcmp p ''..'' = 0 then do {
            cwd \<leftarrow> fs_getcwd st;
            (r, st) \<leftarrow> fs_chdir (Some (parent_path cwd)) st;
            if r = 0 then cmd_pwd st else Some (sh_line ''cd: error.'' st)
          }
          else do {
            (r, st) \<leftarrow> fs_chdir path st;
            if r = 0 then cmd_pwd st else Some (sh_line ''cd: no such directory.'' st)
          })"

definition cmd_touch :: "string option \<Rightarrow> ('d, 'a) shell_st_scheme \<Rightarrow> ('d, 'a) shell_st_scheme option" where
  "cmd_touch arg st =
     (if arg = None \<or> arg = Some [] then Some (sh_line ''Usage: touch <name>'' st)
      else do {
        (r, st) \<leftarrow> fs_touch arg st;
        Some (if r = 0 then sh_line ''Created/updated file.'' st else sh_line ''touch: error.'' st)
      })"

definition cmd_clear :: "('d, 'a) shell_st_scheme \<Rightarrow> ('d, 'a) shell_st_scheme" where
  "cmd_clear st = con_call Shell_c Con_clear st"

definition cmd_tree :: "('d, 'a) shell_st_scheme \<Rightarrow> ('d, 'a) shell_st_scheme option" where
  "cmd_tree st =
     do {
       let st = sh_line ''.'' st;
       let st = st\<lparr>tree_count := 0\<rparr>;
       st \<leftarrow> fs_tree_cwd (Some tree_printer) st;
       Some (if tree_count st = 0 then sh_line ''  <empty>'' st else st)
     }"

definition cmd_uptime :: "('d, 'a) shell_st_scheme \<Rightarrow> ('d, 'a) shell_st_scheme" where
  "cmd_uptime st =
     (let ticks = timer_get_ticks st;
          tmp = (if ticks = 0 then ''0'' else uptime_loop ticks []);
          buf = map (\<lambda>i. tmp ! (length tmp - 1 - i)) [0..<length tmp];
          st = sh_write ''Uptime ticks: '' st;
          st = sh_write buf st
      in sh_line [] st)"

definition cmd_echo :: "string \<Rightarrow> ('d, 'a) shell_st_scheme \<Rightarrow> ('d, 'a) shell_st_scheme" where
  "cmd_echo msg st = sh_line [] (sh_write msg st)"

definition cmd_panic :: "('d, 'a) shell_st_scheme \<Rightarrow> outcome \<times> ('d, 'a) shell_st_scheme" where
  "cmd_panic st = (Faulted, sh_line ''Triggering division by zero...'' st)"

definition cmd_exit :: "('d, 'a) shell_st_scheme \<Rightarrow> outcome \<times> ('d, 'a) shell_st_scheme" where
  "cmd_exit st = (Halted, sh_line ''Shutting down Hypnos...'' st)"

subsection \<open>The commands that check permissions\<close>

text \<open>
  Each definition is a branch of \<open>shell_execute\<close>, given the string behind the command word.
  \<open>report\<close> is the end that most of them share: a message and a line in the log for success and
  failure.
\<close>

definition report ::
  "int \<Rightarrow> string \<Rightarrow> string \<Rightarrow> string \<Rightarrow> string \<Rightarrow> ('d, 'a) shell_st_scheme \<Rightarrow> ('d, 'a) shell_st_scheme" where
  "report r good_msg good_log bad_msg bad_log st =
     (if r = 0 then log_event (Some good_log) (sh_line good_msg st)
      else log_event (Some bad_log) (sh_line bad_msg st))"

definition sh_help_lines :: "string list" where
  "sh_help_lines =
     [''Available commands:'',
      ''  help          - show this message'',
      ''  clear         - clear the screen'',
      ''  uptime        - show ticks since boot'',
      ''  echo X        - print X'',
      ''  panic         - cause an exception'',
      ''  ls            - list directory'',
      ''  pwd           - print working directory'',
      ''  cd <path>     - change directory'',
      ''  mkdir <name>  - make directory'',
      ''  touch <name>  - create/update file'',
      ''  write f txt   - write text to file'',
      ''  cat <name>    - show file contents'',
      ''  rm <file>     - remove a file'',
      ''  rmdir <dir>   - remove an empty directory'',
      ''  mv <old> <new>- move/rename file or directory'',
      ''  cp <src> <dst>- copy a file'',
      ''  find <name>   - search files by name (partial match)'',
      ''  edit <file>   - simple text editor'',
      ''  snap-*        - snapshot commands'',
      ''  whoami/users  - security info'',
      ''  login <user>  - switch user'',
      ''  log           - show audit log'',
      ''  sysinfo       - show information about the system'',
      ''  exit          - shutdown the system'']"

definition sh_help :: "('d, 'a) shell_st_scheme \<Rightarrow> ('d, 'a) shell_st_scheme" where
  "sh_help st = fold sh_line sh_help_lines st"

definition sh_sysinfo :: "('d, 'a) shell_st_scheme \<Rightarrow> ('d, 'a) shell_st_scheme" where
  "sh_sysinfo st =
     fold sh_line [''Hypnos system info:'', ''  Logical RAM:  2 GB'', ''  Logical disk: 16 GB'',
       ''  Actual ramdisk size: 16 MB''] st"

definition sh_edit :: "string \<Rightarrow> ('d, 'a) shell_st_scheme \<Rightarrow> ('d, 'a) shell_st_scheme" where
  "sh_edit arg st =
     (let name = skip_spaces arg
      in if name = [] then sh_line ''Usage: edit <filename>'' st else editor_start (Some name) st)"

definition sh_mkdir :: "string \<Rightarrow> ('d, 'a) shell_st_scheme \<Rightarrow> ('d, 'a) shell_st_scheme option" where
  "sh_mkdir arg st =
     (let name = skip_spaces arg;
          (v, st) = sec_require_perm PERM_WRITE (Some ''create directory'') st
      in if v \<noteq> 0 then Some st
         else do { (r, st) \<leftarrow> fs_mkdir (Some name) st;
                   Some (report r ''Directory created.'' ''fs: mkdir'' ''mkdir: error.'' ''fs: mkdir error'' st) })"

definition sh_cat :: "string \<Rightarrow> ('d, 'a) shell_st_scheme \<Rightarrow> ('d, 'a) shell_st_scheme option" where
  "sh_cat arg st =
     (let name = skip_spaces arg;
          (v, st) = sec_require_perm PERM_READ (Some ''read file'') st
      in if v \<noteq> 0 then Some st
         else do { (p, st) \<leftarrow> fs_read (Some name) st;
                   if p = NULL
                   then Some (log_event (Some ''fs: read fail'')
                          (sh_line ''cat: no such file or empty.'' st))
                   else do { text \<leftarrow> buf_string p st;
                             Some (log_event (Some ''fs: read'') (sh_line [] (sh_write text st))) } })"

definition sh_snap_create :: "string \<Rightarrow> ('d, 'a) shell_st_scheme \<Rightarrow> ('d, 'a) shell_st_scheme option" where
  "sh_snap_create arg st =
     (let name = skip_spaces arg;
          (v, st) = sec_require_perm PERM_SNAP (Some ''snapshot create'') st
      in if v \<noteq> 0 then Some st
         else do { (r, st) \<leftarrow> fs_snap_create (Some name) st;
                   Some (report r ''Snapshot created.'' ''fs: snapshot create''
                           ''snap-create: error.'' ''fs: snapshot create error'' st) })"

definition sh_snap_restore :: "string \<Rightarrow> ('d, 'a) shell_st_scheme \<Rightarrow> ('d, 'a) shell_st_scheme option" where
  "sh_snap_restore arg st =
     (let name = skip_spaces arg;
          (v, st) = sec_require_perm PERM_SNAP (Some ''snapshot restore'') st
      in if v \<noteq> 0 then Some st
         else do { (r, st) \<leftarrow> fs_snap_restore (Some name) st;
                   Some (report r ''Snapshot restored.'' ''fs: snapshot restore''
                           ''snap-restore: error.'' ''fs: snapshot restore error'' st) })"

definition sh_login :: "string \<Rightarrow> ('d, 'a) shell_st_scheme \<Rightarrow> ('d, 'a) shell_st_scheme" where
  "sh_login arg st =
     (let name = skip_spaces arg
      in log_event (Some ''security: login'') (cmd_login (Some name) st))"

definition sh_write_file :: "string \<Rightarrow> ('d, 'a) shell_st_scheme \<Rightarrow> ('d, 'a) shell_st_scheme option" where
  "sh_write_file arg st =
     (let (name, p) = take_word 31 (skip_spaces arg);
          p = skip_spaces p
      in if name = [] \<or> p = [] then Some (sh_line ''Usage: write <name> <text>'' st)
         else let (v, st) = sec_require_perm PERM_WRITE (Some ''write file'') st
              in if v \<noteq> 0 then Some st
                 else do { (r, st) \<leftarrow> fs_write (Some name) (Some p) st;
                           Some (report r ''File written.'' ''fs: write'' ''write: error.'' ''fs: write error'' st) })"

definition sh_rm :: "string \<Rightarrow> ('d, 'a) shell_st_scheme \<Rightarrow> ('d, 'a) shell_st_scheme option" where
  "sh_rm arg st =
     (let p = skip_spaces arg
      in if p = [] then Some (sh_line ''Usage: rm <file>'' st)
         else let (v, st) = sec_require_perm PERM_WRITE (Some ''remove file'') st
              in if v \<noteq> 0 then Some st
                 else do { (r, st) \<leftarrow> fs_unlink (Some p) st;
                           Some (report r ''Removed file.'' ''fs: unlink'' ''rm: error.'' ''fs: unlink error'' st) })"

definition sh_rmdir :: "string \<Rightarrow> ('d, 'a) shell_st_scheme \<Rightarrow> ('d, 'a) shell_st_scheme option" where
  "sh_rmdir arg st =
     (let p = skip_spaces arg
      in if p = [] then Some (sh_line ''Usage: rmdir <dir>'' st)
         else let (v, st) = sec_require_perm PERM_WRITE (Some ''remove directory'') st
              in if v \<noteq> 0 then Some st
                 else do { (r, st) \<leftarrow> fs_rmdir (Some p) st;
                           Some (report r ''Directory removed.'' ''fs: rmdir''
                                   ''rmdir: error (non-empty or not found).'' ''fs: rmdir error'' st) })"

definition sh_mv :: "string \<Rightarrow> ('d, 'a) shell_st_scheme \<Rightarrow> ('d, 'a) shell_st_scheme option" where
  "sh_mv arg st =
     (let (a, p) = take_word 63 (skip_spaces arg);
          (b, p) = take_word 63 (skip_spaces p)
      in if a = [] \<or> b = [] then Some (sh_line ''Usage: mv <old> <new>'' st)
         else let (v, st) = sec_require_perm PERM_WRITE (Some ''rename/move'') st
              in if v \<noteq> 0 then Some st
                 else do { (r, st) \<leftarrow> fs_rename (Some a) (Some b) st;
                           Some (report r ''Renamed/moved.'' ''fs: rename'' ''mv: error.'' ''fs: rename error'' st) })"

definition sh_cp :: "string \<Rightarrow> ('d, 'a) shell_st_scheme \<Rightarrow> ('d, 'a) shell_st_scheme option" where
  "sh_cp arg st =
     (let (a, p) = take_word 63 (skip_spaces arg);
          (b, p) = take_word 63 (skip_spaces p)
      in if a = [] \<or> b = [] then Some (sh_line ''Usage: cp <src> <dest>'' st)
         else let (v, st) = sec_require_perm PERM_READ (Some ''copy file'') st
              in if v \<noteq> 0 then Some st
                 else do { (r, st) \<leftarrow> fs_copy (Some a) (Some b) st;
                           Some (report r ''Copied.'' ''fs: copy'' ''cp: error.'' ''fs: copy error'' st) })"

definition sh_find :: "string \<Rightarrow> ('d, 'a) shell_st_scheme \<Rightarrow> ('d, 'a) shell_st_scheme option" where
  "sh_find arg st =
     (let p = skip_spaces arg
      in if p = [] then Some (sh_line ''Usage: find <name>'' st)
         else do { (r, st) \<leftarrow> fs_find (Some p) st;
                   Some (if r \<noteq> 0 then sh_line ''find: error.'' st else st) })"

subsection \<open>The interpreter\<close>

abbreviation returns :: "'s option \<Rightarrow> (outcome \<times> 's) option" where
  "returns m \<equiv> map_option (\<lambda>st. (Returned, st)) m"

definition shell_execute ::
  "string \<Rightarrow> ('d, 'a) shell_st_scheme \<Rightarrow> (outcome \<times> ('d, 'a) shell_st_scheme) option" where
  "shell_execute cmd st =
     (if cmd = [] then Some (Returned, st)
      else
        let st = log_event (Some ''[SHELL] command'') st;
            st = log_event (Some cmd) st
        in if kstrcmp cmd ''help'' = 0 then Some (Returned, sh_help st)
           else if kstrcmp cmd ''clear'' = 0 then Some (Returned, cmd_clear st)
           else if kstrcmp cmd ''sysinfo'' = 0 then Some (Returned, sh_sysinfo st)
           else if kstrcmp cmd ''uptime'' = 0 then Some (Returned, cmd_uptime st)
           else if kstrncmp cmd ''echo '' 5 = 0 then Some (Returned, cmd_echo (drop 5 cmd) st)
           else if kstrncmp cmd ''diskread '' 9 = 0 then returns (cmd_diskread (drop 9 cmd) st)
           else if kstrncmp cmd ''diskwrite '' 10 = 0 then returns (cmd_diskwrite (drop 10 cmd) st)
           else if kstrcmp cmd ''panic'' = 0 then Some (cmd_panic st)
           else if kstrcmp cmd ''exit'' = 0 then Some (cmd_exit st)
           else if kstrcmp cmd ''ls'' = 0 then returns (cmd_ls st)
           else if kstrcmp cmd ''pwd'' = 0 then returns (cmd_pwd st)
           else if kstrcmp cmd ''cd..'' = 0 then returns (cmd_cd (Some ''..'') st)
           else if kstrncmp cmd ''cd '' 3 = 0 then returns (cmd_cd (Some (drop 3 cmd)) st)
           else if kstrcmp cmd ''tree'' = 0 then returns (cmd_tree st)
           else if kstrncmp cmd ''edit '' 5 = 0 then Some (Returned, sh_edit (drop 5 cmd) st)
           else if kstrncmp cmd ''mkdir '' 6 = 0 then returns (sh_mkdir (drop 6 cmd) st)
           else if kstrncmp cmd ''touch '' 6 = 0 then returns (cmd_touch (Some (drop 6 cmd)) st)
           else if kstrcmp cmd ''runuser'' = 0
             then Some (User_mode, log_event (Some ''[SHELL] runuser invoked.'')
                    (sh_line ''Launching first user program in Ring 3...'' st))
           else if kstrncmp cmd ''cat '' 4 = 0 then returns (sh_cat (drop 4 cmd) st)
           else if kstrcmp cmd ''snap-list'' = 0 then returns (cmd_snap_list st)
           else if kstrncmp cmd ''snap-create '' 12 = 0 then returns (sh_snap_create (drop 12 cmd) st)
           else if kstrncmp cmd ''snap-restore '' 13 = 0 then returns (sh_snap_restore (drop 13 cmd) st)
           else if kstrcmp cmd ''whoami'' = 0 then Some (Returned, cmd_whoami st)
           else if kstrcmp cmd ''users'' = 0 then returns (cmd_users st)
           else if kstrncmp cmd ''login '' 6 = 0 then Some (Returned, sh_login (drop 6 cmd) st)
           else if kstrcmp cmd ''log'' = 0 then Some (Returned, cmd_log_show st)
           else if kstrncmp cmd ''write '' 6 = 0 then returns (sh_write_file (drop 6 cmd) st)
           else if kstrncmp cmd ''rm '' 3 = 0 then returns (sh_rm (drop 3 cmd) st)
           else if kstrncmp cmd ''rmdir '' 6 = 0 then returns (sh_rmdir (drop 6 cmd) st)
           else if kstrncmp cmd ''mv '' 3 = 0 then returns (sh_mv (drop 3 cmd) st)
           else if kstrncmp cmd ''cp '' 3 = 0 then returns (sh_cp (drop 3 cmd) st)
           else if kstrncmp cmd ''find '' 5 = 0 then returns (sh_find (drop 5 cmd) st)
           else Some (Returned, sh_line ''Unknown command. Type 'help'.'' st))"

definition shell_keypress ::
  "char \<Rightarrow> ('d, 'a) shell_st_scheme \<Rightarrow> (outcome \<times> ('d, 'a) shell_st_scheme) option" where
  "shell_keypress c st =
     (if editor_is_active st then do {
        let was_active = editor_is_active st;
        st \<leftarrow> editor_handle_key c st;
        if was_active \<and> \<not> editor_is_active st then returns (shell_print_prompt st)
        else Some (Returned, st)
      }
      else if c = CHR 0x08 then
        if length (input_line st) > 0
        then Some (Returned, sh_write [CHR 0x08] (st\<lparr>input_line := butlast (input_line st)\<rparr>))
        else Some (Returned, st)
      else if c = newline then do {
        let st = sh_write [newline] st;
        (res, st) \<leftarrow> shell_execute (cstr (input_line st)) st;
        if res \<noteq> Returned then Some (res, st)
        else do {
          let st = st\<lparr>input_line := []\<rparr>;
          if \<not> editor_is_active st then returns (shell_print_prompt st) else Some (Returned, st)
        }
      }
      else if length (input_line st) < SHELL_INPUT_MAX - 1
      then Some (Returned, sh_write (cstr [c]) (st\<lparr>input_line := input_line st @ [c]\<rparr>))
      else Some (Returned, st))"

definition shell_tick :: "('d, 'a) shell_st_scheme \<Rightarrow> ('d, 'a) shell_st_scheme option" where
  "shell_tick st =
     (let st = st\<lparr>tick_counter := tick_counter st + 1\<rparr>
      in if tick_counter st \<ge> 100 then shell_draw_status_bar (st\<lparr>tick_counter := 0\<rparr>)
         else Some st)"

definition shell_init :: "('d, 'a) shell_st_scheme \<Rightarrow> ('d, 'a) shell_st_scheme" where
  "shell_init st = log_event (Some ''[SHELL] shell_init'') (st\<lparr>input_line := []\<rparr>)"

text \<open>\<open>shell_run\<close> up to its endless loop of \<open>hlt\<close> and \<open>task_yield\<close>.\<close>

definition shell_run :: "('d, 'a) shell_st_scheme \<Rightarrow> ('d, 'a) shell_st_scheme option" where
  "shell_run st = shell_print_prompt (log_event (Some ''[SHELL] shell_run loop starting.'') st)"

text \<open>A concrete kernel: new, with an empty file system and a RAM disk of two sectors.\<close>

definition shell_st_of :: "'d block_device option \<Rightarrow> 'd \<Rightarrow> 'd shell_st" where
  "shell_st_of dev d = ed_st.extend (dev_st.extend (tick_st.extend (cpu_st.extend cpu_st0 \<lparr>timer_ticks = 0\<rparr>)
       \<lparr>g_root_dev = dev, disk = d\<rparr>)
     \<lparr>editor_buf = [], editor_name = [], editor_active = False\<rparr>)
     \<lparr>input_line = [], tree_count = 0, tick_counter = 0\<rparr>"

abbreviation shell_st0 :: "ramdisk shell_st" where
  "shell_st0 \<equiv> shell_st_of None \<lparr>rd_data = replicate 1024 0, rd_size_bytes = 1024\<rparr>"

lemma shell_st0_view: "fs_view shell_st0 = fs_view fs_st1"
proof -
  have "fs_view shell_st0 = fs_view (sec_init sec_st0)"
    by (simp add: fs_view_def shell_st_of_def cpu_st0_def ed_st.defs dev_st.defs tick_st.defs cpu_st.defs sec_st.defs)
  also have "\<dots> = fs_view sec_st0" by simp
  also have "\<dots> = fs_view fs_st1" by (simp add: fs_view_def sec_st0_def fs_st.defs)
  finally show ?thesis .
qed

end
