(* ===== verification/Interrupts.thy ===== *)
theory Interrupts
  imports Shell
begin

text \<open>
  The drivers behind the interrupts: \<open>kernel/arch/i386/drivers/keyboard.c\<close> and the callback of
  \<open>timer.c\<close>, and what the table of handlers calls. The scancode that port \<open>0x60\<close> returns is an
  argument.
\<close>

record 'd kbd_st = "'d shell_st" +
  shift_pressed :: bool
  ctrl_pressed :: bool
  alt_pressed :: bool
  caps_lock :: bool

definition keymap :: "char list" where
  "keymap = [NUL, CHR 0x1B] @ ''1234567890-='' @ [CHR 0x08, CHR 0x09] @ ''qwertyuiop[]'' @ [newline] @
     [NUL] @ ''asdfghjkl;'' @ [CHR 0x27, CHR 0x60] @ [NUL, CHR 0x5C] @ ''zxcvbnm,./'' @ [NUL] @ ''*'' @
     [NUL] @ '' '' @ replicate 70 NUL"

definition keymap_shift :: "char list" where
  "keymap_shift = [NUL, CHR 0x1B] @ ''!@#$%^&*()_+'' @ [CHR 0x08, CHR 0x09] @ ''QWERTYUIOP{}'' @ [newline] @
     [NUL] @ ''ASDFGHJKL:'' @ [CHR 0x22, CHR 0x7E] @ [NUL, CHR 0x7C] @ ''ZXCVBNM<>?'' @ [NUL] @ ''*'' @
     [NUL] @ '' '' @ replicate 70 NUL"

definition SC_LSHIFT :: u8 where "SC_LSHIFT = 0x2A"
definition SC_RSHIFT :: u8 where "SC_RSHIFT = 0x36"
definition SC_CTRL :: u8 where "SC_CTRL = 0x1D"
definition SC_ALT :: u8 where "SC_ALT = 0x38"
definition SC_CAPS :: u8 where "SC_CAPS = 0x3A"

lemmas sc_defs = SC_LSHIFT_def SC_RSHIFT_def SC_CTRL_def SC_ALT_def SC_CAPS_def

definition is_lower :: "char \<Rightarrow> bool" where "is_lower c \<longleftrightarrow> 97 \<le> ord c \<and> ord c \<le> 122"
definition is_upper :: "char \<Rightarrow> bool" where "is_upper c \<longleftrightarrow> 65 \<le> ord c \<and> ord c \<le> 90"

definition is_letter :: "char \<Rightarrow> bool" where
  "is_letter c \<longleftrightarrow> is_lower c \<or> is_upper c"

text \<open>The character of a key that is neither a modifier nor a release.\<close>

definition translate_key :: "u8 \<Rightarrow> bool \<Rightarrow> bool \<Rightarrow> char" where
  "translate_key scancode shift caps =
     (let base = keymap ! unat scancode
      in if base = NUL then NUL
         else let use_shift = shift
              in if is_letter base then
                   let use_shift = (if caps then \<not> use_shift else use_shift)
                   in if use_shift
                      then if is_lower base then char_of (nat (ord base - 97 + 65)) else base
                      else if is_upper base then char_of (nat (ord base - 65 + 97)) else base
                 else if use_shift
                      then if keymap_shift ! unat scancode \<noteq> NUL then keymap_shift ! unat scancode else base
                      else base)"

definition keyboard_callback ::
  "u8 \<Rightarrow> ('d, 'a) kbd_st_scheme \<Rightarrow> (outcome \<times> ('d, 'a) kbd_st_scheme) option" where
  "keyboard_callback scancode st =
     (if scancode AND 0x80 \<noteq> 0 then
        let code = scancode AND 0x7F
        in if code = SC_LSHIFT \<or> code = SC_RSHIFT then Some (Returned, st\<lparr>shift_pressed := False\<rparr>)
           else if code = SC_CTRL then Some (Returned, st\<lparr>ctrl_pressed := False\<rparr>)
           else if code = SC_ALT then Some (Returned, st\<lparr>alt_pressed := False\<rparr>)
           else Some (Returned, st)
      else if scancode = SC_LSHIFT \<or> scancode = SC_RSHIFT then Some (Returned, st\<lparr>shift_pressed := True\<rparr>)
      else if scancode = SC_CTRL then Some (Returned, st\<lparr>ctrl_pressed := True\<rparr>)
      else if scancode = SC_ALT then Some (Returned, st\<lparr>alt_pressed := True\<rparr>)
      else if scancode = SC_CAPS then Some (Returned, st\<lparr>caps_lock := \<not> caps_lock st\<rparr>)
      else let c = (if unat scancode < 128 then translate_key scancode (shift_pressed st) (caps_lock st)
                    else NUL)
           in if c \<noteq> NUL then shell_keypress c st else Some (Returned, st))"

definition keyboard_install :: "('d, 'a) kbd_st_scheme \<Rightarrow> ('d, 'a) kbd_st_scheme" where
  "keyboard_install st =
     console_write Keyboard_c (''Keyboard driver installed.'' @ [newline])
       (irq_register_handler 1 Keyboard_callback st)"

definition timer_callback ::
  "('d, 'a) kbd_st_scheme \<Rightarrow> (outcome \<times> ('d, 'a) kbd_st_scheme) option" where
  "timer_callback st = returns (shell_tick (st\<lparr>timer_ticks := timer_ticks st + 1\<rparr>))"

text \<open>The functions that the handler table points to, and one hardware interrupt.\<close>

definition run_handler ::
  "u8 \<Rightarrow> irq_handler \<Rightarrow> ('d, 'a) kbd_st_scheme \<Rightarrow> (outcome \<times> ('d, 'a) kbd_st_scheme) option" where
  "run_handler scancode h st =
     (case h of Timer_callback \<Rightarrow> timer_callback st | Keyboard_callback \<Rightarrow> keyboard_callback scancode st)"

definition interrupt ::
  "u8 \<Rightarrow> int \<Rightarrow> ('d, 'a) kbd_st_scheme \<Rightarrow> (outcome \<times> ('d, 'a) kbd_st_scheme) option" where
  "interrupt scancode n st = irq_handler_c (run_handler scancode) n st"

lemma keymap_lengths: "length keymap = 128" "length keymap_shift = 128"
  by (simp_all add: keymap_def keymap_shift_def)

end
