(* ===== verification/Sched.thy ===== *)
theory Sched
  imports Interrupts
begin

text \<open>
  The scheduler, \<open>kernel/sched/task.c\<close>: tasks in a store from addresses, linked in a ring. The
  switch itself is assembly (\<open>context_switch.S\<close>), so a switch from one task to another and the
  start of the first one are recorded. The abstract ring is the list of the tasks in order,
  and \<open>task_yield\<close> is one step around it.
\<close>

record cpu_state =
  r_eax :: u32  r_ebx :: u32  r_ecx :: u32  r_edx :: u32  r_esi :: u32  r_edi :: u32
  r_ebp :: u32  r_esp :: u32  r_eip :: u32  r_eflags :: u32
  r_cs :: u32  r_ds :: u32  r_es :: u32  r_fs :: u32  r_gs :: u32  r_ss :: u32

record task =
  t_regs :: cpu_state
  t_stack_base :: ptr
  t_stack_size :: u32
  t_next :: ptr
  t_name :: string
  t_id :: int

definition sizeof_task :: u32 where "sizeof_task = 84"
definition STACK_SIZE :: u32 where "STACK_SIZE = 4096"

record 'd task_st = "'d kbd_st" +
  tasks :: "ptr \<Rightarrow> task option"
  current_task :: ptr
  task_head :: ptr
  next_id :: int
  switches :: "(ptr \<times> ptr) list"
  started :: "(u32 \<times> u32) list"

definition task_init :: "('d, 'a) task_st_scheme \<Rightarrow> ('d, 'a) task_st_scheme" where
  "task_init st =
     log_event (Some ''[SCHED] task subsystem initialized.'')
       (st\<lparr>current_task := NULL, task_head := NULL, next_id := 1\<rparr>)"

definition set_next :: "ptr \<Rightarrow> ptr \<Rightarrow> ('d, 'a) task_st_scheme \<Rightarrow> ('d, 'a) task_st_scheme option" where
  "set_next p q st =
     (case tasks st p of None \<Rightarrow> None
      | Some t \<Rightarrow> Some (st\<lparr>tasks := (tasks st)(p \<mapsto> t\<lparr>t_next := q\<rparr>)\<rparr>))"

text \<open>The search for the last task of the ring.\<close>

partial_function (option) last_task :: "(ptr \<Rightarrow> task option) \<Rightarrow> ptr \<Rightarrow> ptr \<Rightarrow> ptr option" where
  "last_task ts hp p =
     (case ts p of None \<Rightarrow> None
      | Some t \<Rightarrow> if t_next t \<noteq> hp then last_task ts hp (t_next t) else Some p)"

definition task_append :: "ptr \<Rightarrow> ('d, 'a) task_st_scheme \<Rightarrow> ('d, 'a) task_st_scheme option" where
  "task_append t st =
     (if task_head st = NULL then set_next t t (st\<lparr>task_head := t\<rparr>)
      else do {
        p \<leftarrow> last_task (tasks st) (task_head st) (task_head st);
        st \<leftarrow> set_next p t st;
        set_next t (task_head st) st
      })"

definition zero_regs :: cpu_state where
  "zero_regs = \<lparr>r_eax = 0, r_ebx = 0, r_ecx = 0, r_edx = 0, r_esi = 0, r_edi = 0, r_ebp = 0, r_esp = 0,
     r_eip = 0, r_eflags = 0, r_cs = 0, r_ds = 0, r_es = 0, r_fs = 0, r_gs = 0, r_ss = 0\<rparr>"

definition task_create ::
  "u32 \<Rightarrow> string \<Rightarrow> ('d, 'a) task_st_scheme \<Rightarrow> (ptr \<times> ('d, 'a) task_st_scheme) option" where
  "task_create entry name st =
     (let (t, st) = kmalloc sizeof_task st
      in if t = NULL
         then Some (NULL, log_event (Some ''[SCHED] task_create: kmalloc task FAILED.'')
                (console_write Task_c (''task_create: kmalloc task failed'' @ [newline]) st))
         else let (stack, st) = kmalloc STACK_SIZE st
              in if stack = NULL
                 then Some (NULL, log_event (Some ''[SCHED] task_create: kmalloc stack FAILED.'')
                        (console_write Task_c (''task_create: kmalloc stack failed'' @ [newline]) st))
                 else do {
                   let top = stack + STACK_SIZE;
                   let regs = zero_regs\<lparr>r_eip := entry, r_esp := top, r_ebp := top, r_eflags := 0x202,
                         r_cs := 0x08, r_ds := 0x10, r_es := 0x10, r_fs := 0x10, r_gs := 0x10, r_ss := 0x10\<rparr>;
                   let st = st\<lparr>tasks := (tasks st)(t \<mapsto>
                         \<lparr>t_regs = regs, t_stack_base = stack, t_stack_size = STACK_SIZE, t_next = NULL,
                          t_name = name, t_id = next_id st\<rparr>), next_id := next_id st + 1\<rparr>;
                   st \<leftarrow> task_append t st;
                   let st = log_event (Some ''[SCHED] task created.'') st;
                   Some (t, log_event (Some name) st)
                 })"

definition task_yield :: "('d, 'a) task_st_scheme \<Rightarrow> ('d, 'a) task_st_scheme option" where
  "task_yield st =
     (if current_task st = NULL then Some st
      else case tasks st (current_task st) of None \<Rightarrow> None
      | Some t \<Rightarrow>
          if t_next t = current_task st then Some st
          else let old = current_task st;
                   new = t_next t;
                   st = st\<lparr>current_task := new\<rparr>;
                   st = log_event (Some ''[SCHED] task_yield() - switching task.'') st
               in Some (st\<lparr>switches := switches st @ [(old, new)]\<rparr>))"

text \<open>
  The scheduler does not return: without a task it halts, otherwise the assembly routine
  \<open>start_task\<close> jumps to the first one. The result is that task, or \<open>NULL\<close>.
\<close>

definition scheduler_start :: "('d, 'a) task_st_scheme \<Rightarrow> (ptr \<times> ('d, 'a) task_st_scheme) option" where
  "scheduler_start st =
     (if task_head st = NULL
      then Some (NULL, log_event (Some ''[SCHED] scheduler_start: no tasks (HALT).'')
             (console_write Task_c (''scheduler_start: no tasks!'' @ [newline]) st))
      else do {
        let st = st\<lparr>current_task := task_head st\<rparr>;
        t \<leftarrow> tasks st (current_task st);
        let st = log_event (Some ''[SCHED] scheduler_start: starting with first task.'') st;
        let st = log_event (Some (t_name t)) st;
        Some (current_task st, st\<lparr>started := started st @ [(r_esp (t_regs t), r_eip (t_regs t))]\<rparr>)
      })"

subsection \<open>The ring\<close>

text \<open>\<open>xs\<close> lists the tasks from the head on; each links to the next, the last to the head.\<close>

definition ring :: "ptr list \<Rightarrow> ('d, 'a) task_st_scheme \<Rightarrow> bool" where
  "ring xs st \<longleftrightarrow> distinct xs \<and> NULL \<notin> set xs \<and>
     (if xs = [] then task_head st = NULL else task_head st = hd xs) \<and>
     (\<forall>i < length xs. \<exists>t. tasks st (xs ! i) = Some t \<and> t_next t = xs ! (Suc i mod length xs))"

lemma last_task_ring:
  assumes "distinct xs" "\<forall>i < length xs. \<exists>t. ts (xs ! i) = Some t \<and> t_next t = xs ! (Suc i mod length xs)"
  shows "i < length xs \<Longrightarrow> last_task ts (xs ! 0) (xs ! i) = Some (last xs)"
proof (induction "length xs - i" arbitrary: i)
  case 0
  then show ?case by simp
next
  case (Suc n)
  obtain t where t: "ts (xs ! i) = Some t" "t_next t = xs ! (Suc i mod length xs)"
    using assms(2) Suc.prems by blast
  show ?case
  proof (cases "Suc i = length xs")
    case True
    then have "last xs = xs ! i" by (metis diff_Suc_1 last_conv_nth list.size(3) nat.distinct(1))
    then show ?thesis using t True by (subst last_task.simps) simp
  next
    case False
    then have i: "Suc i < length xs" using Suc.prems by simp
    then have "xs ! Suc i \<noteq> xs ! 0" using assms(1) Suc.prems by (subst nth_eq_iff_index_eq) auto
    moreover have "last_task ts (xs ! 0) (xs ! Suc i) = Some (last xs)"
      using Suc.hyps i by (intro Suc.hyps(1)) auto
    ultimately show ?thesis using t i by (subst last_task.simps) simp
  qed
qed

lemma ring_calls [simp, frame_simps]:
  "ring xs (log_event m st) = ring xs st" "ring xs (con_call f c st) = ring xs st"
  by (cases m; simp add: ring_def log_event_Some con_call_def)+

definition sched_ok :: "ptr list \<Rightarrow> ('d, 'a) task_st_scheme \<Rightarrow> bool" where
  "sched_ok xs st \<longleftrightarrow> ring xs st \<and> kmem_wf st \<and> (\<forall>p \<in> set xs. unat p < heap_top st)"

lemma ring_nth:
  assumes "ring xs st" "i < length xs"
  obtains t where "tasks st (xs ! i) = Some t" "t_next t = xs ! (Suc i mod length xs)" "xs ! i \<noteq> NULL"
  using assms unfolding ring_def by (metis nth_mem)

text \<open>Appending links the old last task to the new one, and that one to the head.\<close>

lemma task_append_ring:
  assumes "ring xs st" "t \<notin> set xs" "t \<noteq> NULL" "tasks st t = Some tk"
  obtains st' where "task_append t st = Some st'" "ring (xs @ [t]) st'"
    "\<exists>nx. tasks st' t = Some (tk\<lparr>t_next := nx\<rparr>)"
    "\<And>p. p \<notin> set (xs @ [t]) \<Longrightarrow> tasks st' p = tasks st p"
    "\<And>p y. p \<in> set xs \<Longrightarrow> tasks st p = Some y \<Longrightarrow> \<exists>nx. tasks st' p = Some (y\<lparr>t_next := nx\<rparr>)"
    "st' = st\<lparr>tasks := tasks st', task_head := task_head st'\<rparr>"
proof (cases "xs = []")
  case True
  let ?st = "st\<lparr>task_head := t, tasks := (tasks st)(t \<mapsto> tk\<lparr>t_next := t\<rparr>)\<rparr>"
  have e: "task_append t st = Some ?st"
    using assms True by (simp add: task_append_def set_next_def ring_def)
  show thesis by (rule that [OF e]) (use assms True in \<open>auto simp: ring_def\<close>)
next
  case False
  define l where "l = length xs - 1"
  have l: "l < length xs" "last xs = xs ! l" "Suc l = length xs"
    using False by (simp_all add: l_def last_conv_nth)
  have "xs ! 0 \<in> set xs" using False by simp
  then have ne: "xs ! 0 \<noteq> NULL" using assms(1) unfolding ring_def by metis
  then have hd: "task_head st = xs ! 0" "task_head st \<noteq> NULL"
    using assms(1) False by (auto simp: ring_def hd_conv_nth)
  have "last_task (tasks st) (xs ! 0) (xs ! 0) = Some (last xs)"
    using last_task_ring [of xs "tasks st" 0] assms(1) False by (auto simp: ring_def)
  moreover obtain y where y: "tasks st (last xs) = Some y"
    using assms(1) l(1) l(2) by (metis ring_nth)
  moreover have lt: "last xs \<noteq> t" using assms(2) False by auto
  ultimately have e: "task_append t st = Some (st\<lparr>tasks := (tasks st)(last xs \<mapsto> y\<lparr>t_next := t\<rparr>,
      t \<mapsto> tk\<lparr>t_next := xs ! 0\<rparr>)\<rparr>)" (is "_ = Some ?st")
    using assms(4) hd by (simp add: task_append_def set_next_def)
  have "ring (xs @ [t]) ?st"
    unfolding ring_def
  proof (intro conjI allI impI)
    show "distinct (xs @ [t])" "NULL \<notin> set (xs @ [t])" using assms by (auto simp: ring_def)
    show "if xs @ [t] = [] then task_head ?st = NULL else task_head ?st = hd (xs @ [t])"
      using assms(1) False by (simp add: ring_def)
    fix i assume i: "i < length (xs @ [t])"
    consider "i = length xs" | "i = l" | "Suc i < length xs" using i l by fastforce
    then show "\<exists>u. tasks ?st ((xs @ [t]) ! i) = Some u \<and> t_next u = (xs @ [t]) ! (Suc i mod length (xs @ [t]))"
    proof cases
      case 1
      then show ?thesis using False by (simp add: nth_append)
    next
      case 2
      then show ?thesis using l lt by (simp add: nth_append)
    next
      case 3
      then have "xs ! i \<noteq> last xs" "xs ! i \<noteq> t"
        using assms(1,2) l by (auto simp: ring_def nth_eq_iff_index_eq)
      moreover obtain u where "tasks st (xs ! i) = Some u" "t_next u = xs ! (Suc i mod length xs)"
        using ring_nth [OF assms(1), of i] 3 by auto
      ultimately show ?thesis using 3 by (simp add: nth_append)
    qed
  qed
  moreover have "\<exists>nx. u = u\<lparr>t_next := nx\<rparr>" for u :: task
    by (rule exI [where x = "t_next u"]) simp
  ultimately show thesis by (intro that [OF e]) (use assms y lt False in auto)
qed

lemma kmalloc_task_fields:
  assumes "kmalloc n st = (p, st')"
  shows "tasks st' = tasks st" "task_head st' = task_head st" "next_id st' = next_id st"
    "current_task st' = current_task st"
  using assms by (auto simp: kmalloc_def Let_def con_call_def split: if_splits)

lemma ring_frame:
  "tasks st' = tasks st \<Longrightarrow> task_head st' = task_head st \<Longrightarrow> ring xs st' = ring xs st"
  by (simp add: ring_def)

lemma task_log [simp, frame_simps]:
  "tasks (log_event m st) = tasks st" "next_id (log_event m st) = next_id st"
  by (cases m; simp add: log_event_Some)+

lemma heap_log [simp, frame_simps]: "heap_offset (log_event m st) = heap_offset st"
  by (cases m) (simp_all add: log_event_Some)

lemma sched_ok_calls [intro]:
  "sched_ok xs st \<Longrightarrow> sched_ok xs (log_event m st)" "sched_ok xs st \<Longrightarrow> sched_ok xs (con_call f c st)"
  by (simp_all add: sched_ok_def heap_top_def kmem_wf_def)

lemma kmalloc_room:
  assumes "kmem_wf st" "small_size sz"
  obtains (oom) "\<not> unat (heap_offset st) + unat sz < 0x100000"
      "kmalloc sz st = (NULL, console_write Kmalloc_c (''kmalloc: OUT OF MEMORY!'' @ [newline]) st)"
    | (ok) p st' where "unat (heap_offset st) + unat sz < 0x100000" "kmalloc sz st = (p, st')"
      "p \<noteq> NULL" "unat p = heap_top st" "st' = st\<lparr>heap_offset := heap_offset st + sz\<rparr>"
      "heap_top st' = heap_top st + unat sz" "unat (heap_offset st') = unat (heap_offset st) + unat sz"
      "kmem_wf st'"
proof (cases "unat (heap_offset st) + unat sz < 0x100000")
  case False
  then show thesis using kmalloc_oom [OF assms] by (intro oom) (simp_all add: KHEAP_SIZE_def)
next
  case True
  let ?p = "KHEAP_START + heap_offset st" and ?st = "st\<lparr>heap_offset := heap_offset st + sz\<rparr>"
  have u: "unat ?p = heap_top st" by (rule unat_heap_ptr [OF assms(1)])
  then have "?p \<noteq> NULL" by (auto simp: heap_top_def KHEAP_START_def dest!: arg_cong [where f = unat])
  moreover have "kmalloc sz st = (?p, ?st)" using True by (intro kmalloc_ok [OF assms]) (simp add: KHEAP_SIZE_def)
  ultimately show thesis using True u kmalloc_sum [OF assms]
    by (intro ok [of ?p ?st]) (simp_all add: heap_top_def kmem_wf_def KHEAP_SIZE_def)
qed

text \<open>
  C34: \<open>task_create\<close> always returns and keeps the ring. With room for the 84 bytes of the task
  and its stack of 4096, it returns a new task, which is last in the ring, has the given entry
  point and name, the next number, and a stack pointer at the top of its own stack; the other
  tasks change in their link only. Without the room it returns \<open>NULL\<close> and the ring is as
  before.
\<close>

theorem task_create_spec:
  assumes "sched_ok xs st"
  shows "\<exists>p st'. task_create entry name st = Some (p, st') \<and>
    (if unat (heap_offset st) + 4180 < 0x100000
     then sched_ok (xs @ [p]) st' \<and> p \<notin> set xs \<and> next_id st' = next_id st + 1 \<and>
       (\<exists>t. tasks st' p = Some t \<and> r_eip (t_regs t) = entry \<and> t_name t = name \<and> t_id t = next_id st \<and>
         unat (r_esp (t_regs t)) = unat (t_stack_base t) + 4096 \<and>
         unat (t_stack_base t) = unat p + 84 \<and> unat p = heap_top st) \<and>
       (\<forall>q \<in> set xs. \<forall>y. tasks st q = Some y \<longrightarrow> (\<exists>nx. tasks st' q = Some (y\<lparr>t_next := nx\<rparr>)))
     else p = NULL \<and> sched_ok xs st')"
proof -
  have inv: "ring xs st" "kmem_wf st" "\<forall>p \<in> set xs. unat p < heap_top st"
    using assms by (auto simp: sched_ok_def)
  have sm: "small_size sizeof_task" "small_size STACK_SIZE" "unat sizeof_task = 84" "unat STACK_SIZE = 4096"
    by (simp_all add: small_size_def sizeof_task_def STACK_SIZE_def)
  show ?thesis using inv(2) sm(1)
  proof (cases rule: kmalloc_room)
    case oom
    then show ?thesis using assms sm(3) by (auto simp: task_create_def Let_def)
  next
    case t: (ok t s1)
    have r1: "ring xs s1" "sched_ok xs s1" using t inv by (auto simp: sched_ok_def ring_def)
    show ?thesis using t(8) sm(2)
    proof (cases rule: kmalloc_room)
      case oom
      then show ?thesis using r1 t sm(3,4) by (auto simp: task_create_def Let_def)
    next
      case k: (ok k s2)
      define regs where "regs = zero_regs\<lparr>r_eip := entry, r_esp := k + STACK_SIZE, r_ebp := k + STACK_SIZE,
        r_eflags := 0x202, r_cs := 0x08, r_ds := 0x10, r_es := 0x10, r_fs := 0x10, r_gs := 0x10, r_ss := 0x10\<rparr>"
      define tk where "tk = \<lparr>t_regs = regs, t_stack_base = k, t_stack_size = STACK_SIZE, t_next = NULL,
        t_name = name, t_id = next_id s2\<rparr>"
      define s3 where "s3 = s2\<lparr>tasks := (tasks s2)(t \<mapsto> tk), next_id := next_id s2 + 1\<rparr>"
      have new: "t \<notin> set xs" using inv(3) t(4) by fastforce
      then have ring3: "ring xs s3" using r1(1) k(5) by (auto simp: ring_def s3_def)
      obtain s4 where s4: "task_append t s3 = Some s4" "ring (xs @ [t]) s4"
        "\<exists>nx. tasks s4 t = Some (tk\<lparr>t_next := nx\<rparr>)"
        "\<And>p y. p \<in> set xs \<Longrightarrow> tasks s3 p = Some y \<Longrightarrow> \<exists>nx. tasks s4 p = Some (y\<lparr>t_next := nx\<rparr>)"
        "s4 = s3\<lparr>tasks := tasks s4, task_head := task_head s4\<rparr>"
      proof (rule task_append_ring [OF ring3 new t(3)])
        show "tasks s3 t = Some tk" by (simp add: s3_def)
      qed blast
      have "task_create entry name st =
          Some (t, log_event (Some name) (log_event (Some ''[SCHED] task created.'') s4))"
        using t(2,3) k(2,3) s4(1) by (simp add: task_create_def Let_def s3_def tk_def regs_def)
      moreover have "heap_top s4 = heap_top st + 4180" "heap_offset s4 = heap_offset s2" "next_id s4 = next_id st + 1"
        using t(5,6) k(5,6) sm by (subst s4(5); simp add: s3_def heap_top_def)+
      moreover from this have "sched_ok (xs @ [t]) s4"
        using s4(2) k(8) t(4) inv(3) by (auto simp: sched_ok_def kmem_wf_def)
      moreover have "unat (k + STACK_SIZE) = unat k + 4096"
        using k(4,7,8) sm(4) t(4,6) by (subst unat_add_no_wrap)
          (auto simp: heap_top_def kmem_wf_def KHEAP_START_def KHEAP_SIZE_def)
      moreover have "\<exists>nx. tasks s4 q = Some (y\<lparr>t_next := nx\<rparr>)" if "q \<in> set xs" "tasks st q = Some y" for q y
      proof (rule s4(4) [OF that(1)])
        show "tasks s3 q = Some y" using that new t(5) k(5) by (auto simp: s3_def)
      qed
      moreover have "unat (heap_offset st) + 4180 < 0x100000" using k(1) t(7) sm by simp
      ultimately show ?thesis
        using s4(3) new t(4,5,6) k(4,5) sm(3)
        by (auto simp: tk_def regs_def)
    qed
  qed
qed

subsection \<open>Round robin\<close>

fun yields :: "nat \<Rightarrow> ('d, 'a) task_st_scheme \<Rightarrow> ('d, 'a) task_st_scheme option" where
  "yields 0 st = Some st"
| "yields (Suc k) st = do { st \<leftarrow> task_yield st; yields k st }"

lemma task_yield_ring:
  assumes "ring xs st" "i < length xs" "current_task st = xs ! i"
  obtains st' where "task_yield st = Some st'" "ring xs st'" "current_task st' = xs ! (Suc i mod length xs)"
    "tasks st' = tasks st"
    "switches st' = switches st @ (if length xs = 1 then [] else [(xs ! i, xs ! (Suc i mod length xs))])"
proof -
  obtain t where t: "tasks st (xs ! i) = Some t" "t_next t = xs ! (Suc i mod length xs)" "xs ! i \<noteq> NULL"
    using ring_nth [OF assms(1,2)] .
  have m: "Suc i mod length xs < length xs" using assms(2) by (intro mod_less_divisor) auto
  have eq: "t_next t = xs ! i \<longleftrightarrow> length xs = 1"
    using assms(1,2) t(2) m
    by (auto simp: ring_def nth_eq_iff_index_eq mod_Suc split: if_splits)
  show thesis
  proof (cases "length xs = 1")
    case True
    then have "i = 0" using assms(2) by simp
    then show thesis using True assms t eq by (intro that [of st]) (auto simp: task_yield_def)
  next
    case False
    let ?st = "(log_event (Some ''[SCHED] task_yield() - switching task.'')
      (st\<lparr>current_task := t_next t\<rparr>))\<lparr>switches := switches st @ [(xs ! i, t_next t)]\<rparr>"
    have "task_yield st = Some ?st"
      using False assms(3) t eq by (simp add: task_yield_def Let_def log_event_Some)
    then show thesis using False assms(1) t(2)
      by (intro that [of ?st]) (auto simp: ring_def log_event_Some)
  qed
qed

lemma yields_ring:
  "ring xs st \<Longrightarrow> i < length xs \<Longrightarrow> current_task st = xs ! i \<Longrightarrow>
   \<exists>st'. yields k st = Some st' \<and> ring xs st' \<and> tasks st' = tasks st \<and>
     current_task st' = xs ! ((i + k) mod length xs)"
proof (induction k arbitrary: st i)
  case (Suc k)
  obtain s where s: "task_yield st = Some s" "ring xs s" "current_task s = xs ! (Suc i mod length xs)" "tasks s = tasks st"
    using task_yield_ring [OF Suc.prems] by metis
  have "Suc i mod length xs < length xs" using Suc.prems(2) by (intro mod_less_divisor) auto
  from Suc.IH [OF s(2) this s(3)] show ?case
    using s by (auto simp: mod_simps)
qed auto

text \<open>
  C9: The scheduler is fair: from any task of the ring every yield succeeds, the \<open>k\<close>-th one
  arrives at the task \<open>k\<close> places further round, and so every task of the ring runs again
  after fewer yields than there are tasks, and the first runs again after exactly that many.
\<close>

theorem yield_round_robin:
  assumes "ring xs st" "i < length xs" "current_task st = xs ! i"
  shows "(\<forall>k. \<exists>st'. yields k st = Some st' \<and> ring xs st' \<and> current_task st' = xs ! ((i + k) mod length xs)) \<and>
    (\<forall>p \<in> set xs. \<exists>k < length xs. \<exists>st'. yields k st = Some st' \<and> current_task st' = p) \<and>
    (\<exists>st'. yields (length xs) st = Some st' \<and> current_task st' = xs ! i)"
proof (intro conjI allI ballI)
  show "\<exists>st'. yields k st = Some st' \<and> ring xs st' \<and> current_task st' = xs ! ((i + k) mod length xs)" for k
    using yields_ring [OF assms] by blast
  show "\<exists>st'. yields (length xs) st = Some st' \<and> current_task st' = xs ! i"
    using yields_ring [OF assms, of "length xs"] assms(2) by auto
  fix p assume "p \<in> set xs"
  then obtain j where j: "j < length xs" "xs ! j = p" by (auto simp: in_set_conv_nth)
  define k where "k = (if i \<le> j then j - i else length xs + j - i)"
  have k: "k < length xs" "(i + k) mod length xs = j" using assms(2) j(1) by (auto simp: k_def)
  then show "\<exists>k < length xs. \<exists>st'. yields k st = Some st' \<and> current_task st' = p"
    using yields_ring [OF assms, of k] j(2) by auto
qed

subsection \<open>A concrete scheduler\<close>

definition task_st0 :: "ramdisk task_st" where
  "task_st0 = kbd_st.extend (shell_st.extend shell_st0
       \<lparr>shift_pressed = False, ctrl_pressed = False, alt_pressed = False, caps_lock = False\<rparr>)
     \<lparr>tasks = Map.empty, current_task = NULL, task_head = NULL, next_id = 1, switches = [], started = []\<rparr>"

lemma task_st0_ok: "sched_ok [] task_st0" "unat (heap_offset task_st0) = 56"
proof -
  have "heap_offset task_st0 = heap_offset shell_st0"
    by (simp add: task_st0_def kbd_st.defs shell_st.defs)
  also have "\<dots> = heap_offset fs_st1" using fs_viewD(1) [OF shell_st0_view] .
  finally show h: "unat (heap_offset task_st0) = 56" using fs_st1_ok by simp
  then show "sched_ok [] task_st0"
    by (simp add: sched_ok_def ring_def kmem_wf_def KHEAP_SIZE_def task_st0_def kbd_st.defs)
qed

theorem task_create_spec_witness:
  "\<exists>p st'. task_create 0x100400 ''shell'' task_st0 = Some (p, st') \<and> sched_ok [p] st'"
  using task_create_spec [OF task_st0_ok(1), of "0x100400" "''shell''"] task_st0_ok(2) by auto

definition ring_st2 :: "ramdisk task_st" where
  "ring_st2 = task_st0\<lparr>tasks := [4 \<mapsto> \<lparr>t_regs = zero_regs, t_stack_base = 0, t_stack_size = 0, t_next = 8,
        t_name = ''shell'', t_id = 1\<rparr>,
      8 \<mapsto> \<lparr>t_regs = zero_regs, t_stack_base = 0, t_stack_size = 0, t_next = 4, t_name = ''demo'', t_id = 2\<rparr>],
     task_head := 4, current_task := 4\<rparr>"

theorem yield_round_robin_witness:
  "\<exists>st'. yields 2 ring_st2 = Some st' \<and> current_task st' = 4"
proof -
  have "ring [4, 8] ring_st2" by (auto simp: ring_def ring_st2_def less_Suc_eq)
  then show ?thesis using yield_round_robin [of "[4, 8]" ring_st2 0]
    by (simp add: ring_st2_def numeral_2_eq_2)
qed

end
