(* ===== verification/Ata.thy ===== *)
theory Ata
  imports Blockdev
begin

text \<open>
  The disk driver: \<open>kernel/arch/i386/drivers/ata_pio.c\<close>. The port instructions of the machine
  are a parameter, a record \<open>ports\<close> of four functions over the state \<open>'io\<close> of what is behind
  the ports; every function of the driver takes it. What the driver relies on is the locale
  \<open>ata_disk\<close>: the registers, the status byte and the data transfer of a drive in LBA28 mode.
  In every such drive the driver meets the contract of a block device for transfers of at most
  255 sectors. The last section gives a drive that has these laws.
\<close>

record 'io ports =
  p_inb :: "u16 \<Rightarrow> 'io \<Rightarrow> u8 \<times> 'io"
  p_outb :: "u16 \<Rightarrow> u8 \<Rightarrow> 'io \<Rightarrow> 'io"
  p_inw :: "u16 \<Rightarrow> 'io \<Rightarrow> u16 \<times> 'io"
  p_outw :: "u16 \<Rightarrow> u16 \<Rightarrow> 'io \<Rightarrow> 'io"

subsection \<open>The driver\<close>

definition ATA_PRIMARY_IO :: u16 where "ATA_PRIMARY_IO = 0x1F0"
definition ATA_PRIMARY_CTRL :: u16 where "ATA_PRIMARY_CTRL = 0x3F6"
definition ATA_REG_DATA :: u16 where "ATA_REG_DATA = 0x00"
definition ATA_REG_SECCOUNT0 :: u16 where "ATA_REG_SECCOUNT0 = 0x02"
definition ATA_REG_LBA0 :: u16 where "ATA_REG_LBA0 = 0x03"
definition ATA_REG_LBA1 :: u16 where "ATA_REG_LBA1 = 0x04"
definition ATA_REG_LBA2 :: u16 where "ATA_REG_LBA2 = 0x05"
definition ATA_REG_HDDEVSEL :: u16 where "ATA_REG_HDDEVSEL = 0x06"
definition ATA_REG_COMMAND :: u16 where "ATA_REG_COMMAND = 0x07"
definition ATA_REG_STATUS :: u16 where "ATA_REG_STATUS = 0x07"
definition ATA_CMD_READ_PIO :: u8 where "ATA_CMD_READ_PIO = 0x20"
definition ATA_CMD_WRITE_PIO :: u8 where "ATA_CMD_WRITE_PIO = 0x30"
definition ATA_SR_BSY :: u8 where "ATA_SR_BSY = 0x80"
definition ATA_SR_DRQ :: u8 where "ATA_SR_DRQ = 0x08"
definition ATA_SR_ERR :: u8 where "ATA_SR_ERR = 0x01"

lemmas ata_ports = ATA_PRIMARY_IO_def ATA_PRIMARY_CTRL_def ATA_REG_DATA_def ATA_REG_SECCOUNT0_def
  ATA_REG_LBA0_def ATA_REG_LBA1_def ATA_REG_LBA2_def ATA_REG_HDDEVSEL_def ATA_REG_COMMAND_def
  ATA_REG_STATUS_def ATA_CMD_READ_PIO_def ATA_CMD_WRITE_PIO_def

lemmas ata_status = ATA_SR_BSY_def ATA_SR_DRQ_def ATA_SR_ERR_def

text \<open>The two polling loops of \<open>ata_wait\<close>, neither of which has a limit.\<close>

partial_function (option) wait_not_busy :: "'io ports \<Rightarrow> 'io \<Rightarrow> (u8 \<times> 'io) option" where
  "wait_not_busy prt io =
     (let (status, io) = p_inb prt (ATA_PRIMARY_IO + ATA_REG_STATUS) io
      in if status AND ATA_SR_BSY \<noteq> 0 then wait_not_busy prt io else Some (status, io))"

partial_function (option) wait_drq :: "'io ports \<Rightarrow> u8 \<Rightarrow> 'io \<Rightarrow> (u8 \<times> 'io) option" where
  "wait_drq P status io =
     (if status AND (ATA_SR_DRQ OR ATA_SR_ERR) = 0
      then let (status, io) = p_inb P (ATA_PRIMARY_IO + ATA_REG_STATUS) io in wait_drq P status io
      else Some (status, io))"

definition ata_wait :: "'io ports \<Rightarrow> 'io \<Rightarrow> (int \<times> 'io) option" where
  "ata_wait P io = do {
     (status, io) \<leftarrow> wait_not_busy P io;
     (status, io) \<leftarrow> wait_drq P status io;
     if status AND ATA_SR_ERR \<noteq> 0 then Some (-1, io) else Some (0, io)
   }"

text \<open>The registers of a command, as both transfers write them.\<close>

definition ata_command :: "'io ports \<Rightarrow> u8 \<Rightarrow> u32 \<Rightarrow> u8 \<Rightarrow> 'io \<Rightarrow> 'io" where
  "ata_command P cmd lba count io =
     (let io = p_outb P ATA_PRIMARY_CTRL 0x00 io;
          io = p_outb P (ATA_PRIMARY_IO + ATA_REG_HDDEVSEL) (ucast (0xE0 OR (drop_bit 24 lba AND 0x0F))) io;
          io = p_outb P (ATA_PRIMARY_IO + ATA_REG_SECCOUNT0) count io;
          io = p_outb P (ATA_PRIMARY_IO + ATA_REG_LBA0) (ucast (lba AND 0xFF)) io;
          io = p_outb P (ATA_PRIMARY_IO + ATA_REG_LBA1) (ucast (drop_bit 8 lba AND 0xFF)) io;
          io = p_outb P (ATA_PRIMARY_IO + ATA_REG_LBA2) (ucast (drop_bit 16 lba AND 0xFF)) io
      in p_outb P (ATA_PRIMARY_IO + ATA_REG_COMMAND) cmd io)"

text \<open>
  The buffer of the caller read as an array of 16-bit words, low byte first; an access beyond
  it is undefined.
\<close>

definition bytes_of :: "u16 \<Rightarrow> u8 list" where
  "bytes_of w = [ucast w, ucast (drop_bit 8 w)]"

definition word_at :: "u8 list \<Rightarrow> nat \<Rightarrow> u16" where
  "word_at bs k = ucast (bs ! (2 * k)) OR push_bit 8 (ucast (bs ! (2 * k + 1)))"

definition store_word :: "u8 list \<Rightarrow> nat \<Rightarrow> u16 \<Rightarrow> u8 list option" where
  "store_word bs k w =
     (if 2 * k + 1 < length bs
      then Some (bs[2 * k := ucast w, 2 * k + 1 := ucast (drop_bit 8 w)]) else None)"

definition load_word :: "u8 list \<Rightarrow> nat \<Rightarrow> u16 option" where
  "load_word bs k = (if 2 * k + 1 < length bs then Some (word_at bs k) else None)"

text \<open>The loop over the words of a sector, from word \<open>k\<close> of the buffer.\<close>

fun read_words :: "'io ports \<Rightarrow> nat \<Rightarrow> nat \<Rightarrow> u8 list \<Rightarrow> 'io \<Rightarrow> (u8 list \<times> 'io) option" where
  "read_words P 0 k buf io = Some (buf, io)"
| "read_words P (Suc n) k buf io = do {
     let (w, io) = p_inw P (ATA_PRIMARY_IO + ATA_REG_DATA) io;
     buf \<leftarrow> store_word buf k w;
     read_words P n (Suc k) buf io
   }"

fun write_words :: "'io ports \<Rightarrow> nat \<Rightarrow> nat \<Rightarrow> u8 list \<Rightarrow> 'io \<Rightarrow> 'io option" where
  "write_words P 0 k buf io = Some io"
| "write_words P (Suc n) k buf io = do {
     w \<leftarrow> load_word buf k;
     write_words P n (Suc k) buf (p_outw P (ATA_PRIMARY_IO + ATA_REG_DATA) w io)
   }"

text \<open>
  The loop over the sectors: \<open>m\<close> are left and \<open>s\<close> is the index of the next one, at most 255,
  which the \<open>uint8_t\<close> of the code holds.
\<close>

fun read_sectors_loop :: "'io ports \<Rightarrow> nat \<Rightarrow> nat \<Rightarrow> u8 list \<Rightarrow> 'io \<Rightarrow> (int \<times> u8 list \<times> 'io) option" where
  "read_sectors_loop P 0 s buf io = Some (0, buf, io)"
| "read_sectors_loop P (Suc m) s buf io = do {
     (r, io) \<leftarrow> ata_wait P io;
     if r \<noteq> 0 then Some (-1, buf, io)
     else do { (buf, io) \<leftarrow> read_words P 256 (s * 256) buf io;
               read_sectors_loop P m (Suc s) buf io }
   }"

fun write_sectors_loop :: "'io ports \<Rightarrow> nat \<Rightarrow> nat \<Rightarrow> u8 list \<Rightarrow> 'io \<Rightarrow> (int \<times> 'io) option" where
  "write_sectors_loop P 0 s buf io = Some (0, io)"
| "write_sectors_loop P (Suc m) s buf io = do {
     (r, io) \<leftarrow> ata_wait P io;
     if r \<noteq> 0 then Some (-1, io)
     else do { io \<leftarrow> write_words P 256 (s * 256) buf io;
               write_sectors_loop P m (Suc s) buf io }
   }"

definition ata_read_sectors :: "'io ports \<Rightarrow> u32 \<Rightarrow> u8 \<Rightarrow> u8 list \<Rightarrow> 'io \<Rightarrow> (int \<times> u8 list \<times> 'io) option" where
  "ata_read_sectors P lba count buf io =
     (if count = 0 then Some (0, buf, io)
      else read_sectors_loop P (unat count) 0 buf (ata_command P ATA_CMD_READ_PIO lba count io))"

definition ata_write_sectors :: "'io ports \<Rightarrow> u32 \<Rightarrow> u8 \<Rightarrow> u8 list \<Rightarrow> 'io \<Rightarrow> (int \<times> 'io) option" where
  "ata_write_sectors P lba count buf io =
     (if count = 0 then Some (0, io)
      else write_sectors_loop P (unat count) 0 buf (ata_command P ATA_CMD_WRITE_PIO lba count io))"

definition ata_block_read :: "'io ports \<Rightarrow> 'io dev_read" where
  "ata_block_read P lba count buf io =
     (if count = 0 then Some (0, buf, io)
      else if lba > 0x0FFFFFFF then Some (-1, buf, io)
      else let count = (if count > 255 then 255 else count)
           in ata_read_sectors P (ucast lba) (ucast count) buf io)"

definition ata_block_write :: "'io ports \<Rightarrow> 'io dev_write" where
  "ata_block_write P lba count buf io =
     (if count = 0 then Some (0, io)
      else if lba > 0x0FFFFFFF then Some (-1, io)
      else let count = (if count > 255 then 255 else count)
           in ata_write_sectors P (ucast lba) (ucast count) buf io)"

definition ata_pio_init :: "'io ports \<Rightarrow> 'a out_st_scheme \<Rightarrow> 'io block_device \<times> 'a out_st_scheme" where
  "ata_pio_init P st =
     (\<lparr>bd_name = ''ata0'', bd_num_sectors = (8192 * 1024 * 1024) div SECTOR_SIZE,
       bd_read = ata_block_read P, bd_write = ata_block_write P\<rparr>,
      console_write Ata_pio_c (''ata_pio: primary disk attached as /dev/ata0'' @ [newline]) st)"

subsection \<open>Words and bytes\<close>

lemma bytes_word_at: "bytes_of (word_at bs k) = [bs ! (2 * k), bs ! (2 * k + 1)]"
proof -
  have "\<not> bit (b :: u8) (8 + n)" for b n
    using bit_imp_le_length [of b "8 + n"] by auto
  then show ?thesis
    by (auto simp: bytes_of_def word_at_def bit_simps intro!: bit_eqI)
qed

lemma length_bytes_of [simp]: "length (bytes_of w) = 2"
  by (simp add: bytes_of_def)

lemma length_concat_bytes [simp]: "length (concat (map bytes_of ws)) = 2 * length ws"
  by (induction ws) auto

lemma store_word_eq:
  assumes "2 * k + 1 < length bs"
  shows "store_word bs k w = Some (take (2 * k) bs @ bytes_of w @ drop (2 * k + 2) bs)"
proof -
  have e: "Suc (Suc (i - 2)) = i" if "\<not> i \<le> Suc (2 * k)" for i
    using that by linarith
  have "bs[2 * k := a, Suc (2 * k) := b] = take (2 * k) bs @ [a, b] @ drop (2 * k + 2) bs" for a b
    using assms
    by (intro nth_equalityI) (auto simp: nth_append nth_list_update nth_Cons' not_less less_Suc_eq e)
  then show ?thesis using assms by (simp add: store_word_def bytes_of_def)
qed

subsection \<open>What the driver relies on\<close>

text \<open>
  The task file: the registers that select the drive and the sectors. \<open>lba28\<close> is the sector
  number they hold.
\<close>

record ata_regs =
  r_sel :: u8
  r_count :: u8
  r_lba0 :: u8
  r_lba1 :: u8
  r_lba2 :: u8

definition lba28 :: "ata_regs \<Rightarrow> nat" where
  "lba28 r = unat (r_lba0 r) + 2 ^ 8 * unat (r_lba1 r) + 2 ^ 16 * unat (r_lba2 r) +
     2 ^ 24 * unat (r_sel r AND 0x0F)"

text \<open>
  What a write to a port does to the registers; the device control register \<open>0x3F6\<close> leaves
  them alone.
\<close>

definition set_reg :: "u16 \<Rightarrow> u8 \<Rightarrow> ata_regs \<Rightarrow> ata_regs" where
  "set_reg p v r =
     (if p = 0x1F2 then r\<lparr>r_count := v\<rparr> else if p = 0x1F3 then r\<lparr>r_lba0 := v\<rparr>
      else if p = 0x1F4 then r\<lparr>r_lba1 := v\<rparr> else if p = 0x1F5 then r\<lparr>r_lba2 := v\<rparr>
      else if p = 0x1F6 then r\<lparr>r_sel := v\<rparr> else r)"

text \<open>
  The state of a transfer: no command (\<open>Idle\<close>), a sector that the drive prepares, and a sector
  whose words are being moved, with the number of the sector, how many sectors are left with
  it, and the words moved so far. After the last word of a write the drive is \<open>Busy\<close> with the
  sector it was given.
\<close>

datatype ata_phase = Idle | Busy
  | Wait_in nat nat | Data_in nat nat nat
  | Wait_out nat nat | Data_out nat nat "u16 list"

fun waiting :: "ata_phase \<Rightarrow> bool" where
  "waiting (Wait_in l n) = True"
| "waiting (Wait_out l n) = True"
| "waiting _ = False"

fun ready :: "ata_phase \<Rightarrow> ata_phase" where
  "ready (Wait_in l n) = Data_in l n 0"
| "ready (Wait_out l n) = Data_out l n []"
| "ready ph = ph"

definition after_in :: "nat \<Rightarrow> nat \<Rightarrow> nat \<Rightarrow> ata_phase" where
  "after_in l n i = (if Suc i < 256 then Data_in l n (Suc i)
     else if n > 1 then Wait_in (Suc l) (n - 1) else Idle)"

definition after_out :: "nat \<Rightarrow> nat \<Rightarrow> u16 list \<Rightarrow> ata_phase" where
  "after_out l n ws = (if length ws < 256 then Data_out l n ws
     else if n > 1 then Wait_out (Suc l) (n - 1) else Busy)"

text \<open>
  The laws of a drive. An idle drive takes the registers and a command whose sectors it has;
  while it prepares a sector, the status shows neither a request for data nor an error, and
  after finitely many reads (\<open>lag\<close>) it is not busy, requests data and shows no error; then
  the data register gives or takes the words of the sector. After the last word of a read the
  drive is idle; after the last word of a write it is busy, and no law says what it does with a
  command meanwhile. Left alone for long enough (\<open>settle\<close>) it is idle, with the sectors as
  written.
\<close>

locale ata_disk =
  fixes P :: "'io ports"
    and regs :: "'io \<Rightarrow> ata_regs" and phase :: "'io \<Rightarrow> ata_phase"
    and store :: "'io \<Rightarrow> nat \<Rightarrow> u8 list" and nsec :: nat and lag :: "'io \<Rightarrow> nat"
    and settle :: "'io \<Rightarrow> 'io"
  assumes nsec_le: "nsec \<le> 2 ^ 28"
    and store_length: "length (store io i) = 512"
    and reg_write: "phase io = Idle \<Longrightarrow> p \<in> {0x3F6, 0x1F2, 0x1F3, 0x1F4, 0x1F5, 0x1F6} \<Longrightarrow>
      phase (p_outb P p v io) = Idle \<and> store (p_outb P p v io) = store io \<and>
      regs (p_outb P p v io) = set_reg p v (regs io)"
    and command: "phase io = Idle \<Longrightarrow> cmd = 0x20 \<or> cmd = 0x30 \<Longrightarrow> r_sel (regs io) AND 0xF0 = 0xE0 \<Longrightarrow>
      r_count (regs io) \<noteq> 0 \<Longrightarrow> lba28 (regs io) + unat (r_count (regs io)) \<le> nsec \<Longrightarrow>
      store (p_outb P 0x1F7 cmd io) = store io \<and>
      phase (p_outb P 0x1F7 cmd io) =
        (if cmd = 0x20 then Wait_in else Wait_out) (lba28 (regs io)) (unat (r_count (regs io)))"
    and status_wait: "waiting (phase io) \<Longrightarrow> 0 < lag io \<Longrightarrow> p_inb P 0x1F7 io = (s, io') \<Longrightarrow>
      s AND 0x09 = 0 \<and> phase io' = phase io \<and> store io' = store io \<and> lag io' < lag io"
    and status_ready: "waiting (phase io) \<Longrightarrow> lag io = 0 \<Longrightarrow> p_inb P 0x1F7 io = (s, io') \<Longrightarrow>
      s AND 0x89 = 0x08 \<and> phase io' = ready (phase io) \<and> store io' = store io"
    and data_in: "phase io = Data_in l n i \<Longrightarrow> i < 256 \<Longrightarrow> p_inw P 0x1F0 io = (w, io') \<Longrightarrow>
      w = word_at (store io l) i \<and> phase io' = after_in l n i \<and> store io' = store io"
    and data_out: "phase io = Data_out l n ws \<Longrightarrow> length ws < 256 \<Longrightarrow>
      phase (p_outw P 0x1F0 w io) = after_out l n (ws @ [w]) \<and>
      store (p_outw P 0x1F0 w io) = (if length ws < 255 then store io
        else (store io)(l := concat (map bytes_of (ws @ [w]))))"
    and settled: "phase io = Idle \<or> phase io = Busy \<Longrightarrow> phase (settle io) = Idle \<and> store (settle io) = store io"
begin

text \<open>Polling ends and finds the drive ready.\<close>

lemma status_bits:
  fixes s :: u8
  shows "s AND 0x89 = 0x08 \<Longrightarrow> s AND ATA_SR_BSY = 0 \<and> s AND (ATA_SR_DRQ OR ATA_SR_ERR) \<noteq> 0 \<and> s AND ATA_SR_ERR = 0"
    "s AND 0x09 = 0 \<Longrightarrow> s AND (ATA_SR_DRQ OR ATA_SR_ERR) = 0"
proof -
  have a: "s AND 0x80 = (s AND 0x89) AND 0x80" "s AND 0x09 = (s AND 0x89) AND 0x09"
    "s AND 0x01 = (s AND 0x89) AND 0x01"
    by (simp_all add: and.assoc)
  show "s AND ATA_SR_BSY = 0 \<and> s AND (ATA_SR_DRQ OR ATA_SR_ERR) \<noteq> 0 \<and> s AND ATA_SR_ERR = 0"
    if "s AND 0x89 = 0x08"
    using a unfolding that by (simp add: ata_status)
  show "s AND (ATA_SR_DRQ OR ATA_SR_ERR) = 0" if "s AND 0x09 = 0"
    using that by (simp add: ata_status)
qed

lemma wait_drq_waiting:
  assumes "waiting (phase io)" "s AND (ATA_SR_DRQ OR ATA_SR_ERR) = 0"
  shows "\<exists>s' io'. wait_drq P s io = Some (s', io') \<and> s' AND ATA_SR_ERR = 0 \<and>
    phase io' = ready (phase io) \<and> store io' = store io"
  using assms
proof (induction "lag io" arbitrary: io s rule: less_induct)
  case less
  obtain s1 io1 where st: "p_inb P 0x1F7 io = (s1, io1)" by (rule prod.exhaust)
  have step: "wait_drq P s io = wait_drq P s1 io1"
    using less.prems(2) by (subst wait_drq.simps) (simp add: st ata_ports)
  show ?case
  proof (cases "lag io = 0")
    case True
    note r = status_ready [OF less.prems(1) True st]
    note b = status_bits(1) [OF conjunct1 [OF r]]
    have "wait_drq P s1 io1 = Some (s1, io1)" using b by (subst wait_drq.simps) simp
    then show ?thesis using step b r by simp
  next
    case False
    note r = status_wait [OF less.prems(1) _ st]
    then show ?thesis
      using less.hyps [of io1 s1] less.prems(1) False step status_bits(2) [of s1] by simp
  qed
qed

lemma ata_wait_ready:
  assumes "waiting (phase io)"
  obtains io' where "ata_wait P io = Some (0, io')" "phase io' = ready (phase io)" "store io' = store io"
proof -
  have "\<exists>s io1. wait_not_busy P io = Some (s, io1) \<and> store io1 = store io \<and>
      (s AND (ATA_SR_DRQ OR ATA_SR_ERR) = 0 \<and> phase io1 = phase io \<or>
       s AND (ATA_SR_DRQ OR ATA_SR_ERR) \<noteq> 0 \<and> s AND ATA_SR_ERR = 0 \<and> phase io1 = ready (phase io))"
    using assms
  proof (induction "lag io" arbitrary: io rule: less_induct)
    case less
    obtain s1 io1 where st: "p_inb P 0x1F7 io = (s1, io1)" by (rule prod.exhaust)
    have step: "wait_not_busy P io = (if s1 AND ATA_SR_BSY \<noteq> 0 then wait_not_busy P io1 else Some (s1, io1))"
      by (subst wait_not_busy.simps) (simp add: st ata_ports)
    show ?case
    proof (cases "lag io = 0")
      case True
      show ?thesis
        using status_ready [OF less.prems True st] status_bits(1) [of s1] step by auto
    next
      case False
      show ?thesis
        using status_wait [OF less.prems _ st] False status_bits(2) [of s1] step less.hyps [of io1] less.prems
        by (cases "s1 AND ATA_SR_BSY = 0") auto
    qed
  qed
  then obtain s io1 where w: "wait_not_busy P io = Some (s, io1)" "store io1 = store io"
    "s AND (ATA_SR_DRQ OR ATA_SR_ERR) = 0 \<and> phase io1 = phase io \<or>
     s AND (ATA_SR_DRQ OR ATA_SR_ERR) \<noteq> 0 \<and> s AND ATA_SR_ERR = 0 \<and> phase io1 = ready (phase io)" by blast
  from w(3) show thesis
  proof (elim disjE conjE)
    assume z: "s AND (ATA_SR_DRQ OR ATA_SR_ERR) = 0" "phase io1 = phase io"
    then obtain s' io' where "wait_drq P s io1 = Some (s', io')" "s' AND ATA_SR_ERR = 0"
      "phase io' = ready (phase io)" "store io' = store io"
      using wait_drq_waiting [of io1 s] assms w(2) by auto
    then show thesis using that [of io'] w(1) by (simp add: ata_wait_def)
  next
    assume z: "s AND (ATA_SR_DRQ OR ATA_SR_ERR) \<noteq> 0" "s AND ATA_SR_ERR = 0" "phase io1 = ready (phase io)"
    have "wait_drq P s io1 = Some (s, io1)" using z(1) by (subst wait_drq.simps) simp
    then show thesis using that [of io1] w(1,2) z(2,3) by (simp add: ata_wait_def)
  qed
qed

text \<open>The words of one sector.\<close>

lemma read_words_sector:
  assumes "phase io = Data_in l m i" "i + n = 256" "2 * (k + n) \<le> length buf"
  shows "\<exists>io'. read_words P n k buf io =
      Some (take (2 * k) buf @ drop (2 * i) (store io l) @ drop (2 * (k + n)) buf, io') \<and>
    (0 < n \<longrightarrow> phase io' = (if m > 1 then Wait_in (Suc l) (m - 1) else Idle)) \<and> store io' = store io"
  using assms
proof (induction n arbitrary: i k buf io)
  case 0
  then show ?case using store_length [of io l] by simp
next
  case (Suc n)
  obtain w io1 where w: "p_inw P 0x1F0 io = (w, io1)" by (rule prod.exhaust)
  note d = data_in [OF Suc.prems(1) _ w]
  have i: "i < 256" using Suc.prems(2) by simp
  let ?buf = "take (2 * k) buf @ bytes_of w @ drop (2 * k + 2) buf"
  have step: "read_words P (Suc n) k buf io = read_words P n (Suc k) ?buf io1"
    using Suc.prems(3) by (simp add: ata_ports w store_word_eq)
  have b: "bytes_of w @ drop (2 * Suc i) (store io l) = drop (2 * i) (store io l)"
    using d [OF i] i store_length [of io l] by (simp add: bytes_word_at Cons_nth_drop_Suc)
  have t: "take (2 * Suc k) ?buf = take (2 * k) buf @ bytes_of w"
    "drop (2 * (Suc k + n)) ?buf = drop (2 * (k + Suc n)) buf"
    using Suc.prems(3) by (auto simp: add.commute)
  show ?case
  proof (cases n)
    case 0
    then have "drop (2 * Suc i) (store io l) = []" using Suc.prems(2) store_length [of io l] by simp
    then show ?thesis using 0 d [OF i] step b t Suc.prems(2) by (auto simp: after_in_def)
  next
    case (Suc n')
    then have "phase io1 = Data_in l m (Suc i)" "Suc i + n = 256" "2 * (Suc k + n) \<le> length ?buf"
      using d [OF i] Suc.prems(2,3) by (auto simp: after_in_def)
    from Suc.IH [OF this] show ?thesis
      using step t b d [OF i] Suc by auto
  qed
qed

lemma write_words_sector:
  assumes "phase io = Data_out l m ws" "length ws + n = 256" "2 * (k + n) \<le> length buf"
  shows "\<exists>io'. write_words P n k buf io = Some io' \<and>
    (0 < n \<longrightarrow> phase io' = (if m > 1 then Wait_out (Suc l) (m - 1) else Busy) \<and>
       store io' = (store io)(l := concat (map bytes_of ws) @ take (2 * n) (drop (2 * k) buf))) \<and>
    (n = 0 \<longrightarrow> store io' = store io)"
  using assms
proof (induction n arbitrary: k ws io)
  case (Suc n)
  let ?w = "word_at buf k" and ?io = "p_outw P 0x1F0 (word_at buf k) io"
  have l: "length ws < 256" using Suc.prems(2) by simp
  note d = data_out [OF Suc.prems(1) l, of ?w]
  have step: "write_words P (Suc n) k buf io = write_words P n (Suc k) buf ?io"
    using Suc.prems(3) by (simp add: ata_ports load_word_def)
  have b: "bytes_of ?w @ take (2 * n) (drop (2 * Suc k) buf) = take (2 * Suc n) (drop (2 * k) buf)"
    using Suc.prems(3) by (simp add: bytes_word_at Cons_nth_drop_Suc take_Suc_Cons flip: Cons_nth_drop_Suc)
  show ?case
  proof (cases n)
    case 0
    then show ?thesis using d step b Suc.prems(2) by (auto simp: after_out_def fun_eq_iff)
  next
    case (Suc n')
    then have "phase ?io = Data_out l m (ws @ [?w])" "length (ws @ [?w]) + n = 256"
      "2 * (Suc k + n) \<le> length buf" "store ?io = store io"
      using d Suc.prems(2,3) by (auto simp: after_out_def)
    from Suc.IH [OF this(1-3)] obtain io' where io': "write_words P n (Suc k) buf ?io = Some io'"
      "phase io' = (if m > 1 then Wait_out (Suc l) (m - 1) else Busy)"
      "store io' = (store io)(l := concat (map bytes_of ws) @ bytes_of ?w @ take (2 * n) (drop (2 * Suc k) buf))"
      using Suc \<open>store ?io = store io\<close> by (auto simp: fun_upd_def)
    show ?thesis unfolding step using io'(1,2) io'(3) [unfolded b] by (simp add: fun_upd_def)
  qed
qed simp

text \<open>The sectors of a transfer.\<close>

lemma read_sectors_loop_ok:
  assumes "phase io = (if m > 0 then Wait_in l m else Idle)" "512 * (s + m) \<le> length buf"
  shows "\<exists>io'. read_sectors_loop P m s buf io =
      Some (0, take (512 * s) buf @ sectors_of (store io) l m @ drop (512 * (s + m)) buf, io') \<and>
    phase io' = Idle \<and> store io' = store io"
  using assms
proof (induction m arbitrary: l s buf io)
  case 0
  then show ?case by (simp add: sectors_of_def)
next
  case (Suc m)
  obtain io1 where w: "ata_wait P io = Some (0, io1)" "phase io1 = Data_in l (Suc m) 0" "store io1 = store io"
    using ata_wait_ready [of io] Suc.prems(1) by auto
  let ?buf = "take (512 * s) buf @ store io l @ drop (512 * Suc s) buf"
  obtain io2 where r: "read_words P 256 (s * 256) buf io1 = Some (?buf, io2)" "store io2 = store io"
    "phase io2 = (if m > 0 then Wait_in (Suc l) m else Idle)"
    using read_words_sector [OF w(2), of 256 "s * 256" buf] Suc.prems(2) w(3) by (auto simp: algebra_simps)
  have b: "512 * (Suc s + m) \<le> length ?buf" "take (512 * Suc s) ?buf = take (512 * s) buf @ store io l"
    "drop (512 * (Suc s + m)) ?buf = drop (512 * (s + Suc m)) buf"
    using Suc.prems(2) store_length [of io l] by (auto simp: algebra_simps)
  have "sectors_of (store io) l (Suc m) = store io l @ sectors_of (store io) (Suc l) m"
    by (simp add: sectors_of_def upt_conv_Cons del: upt_Suc)
  then show ?case
    using Suc.IH [OF r(3) b(1)] w r b by auto
qed

lemma write_sectors_loop_ok:
  assumes "phase io = (if m > 0 then Wait_out l m else Busy)" "512 * (s + m) \<le> length buf"
  shows "\<exists>io'. write_sectors_loop P m s buf io = Some (0, io') \<and> phase io' = Busy \<and>
    (\<forall>i. store io' i = (if l \<le> i \<and> i < l + m then chunk buf (s + (i - l)) else store io i))"
  using assms
proof (induction m arbitrary: l s io)
  case (Suc m)
  obtain io1 where w: "ata_wait P io = Some (0, io1)" "phase io1 = Data_out l (Suc m) []" "store io1 = store io"
    using ata_wait_ready [of io] Suc.prems(1) by auto
  obtain io2 where r: "write_words P 256 (s * 256) buf io1 = Some io2"
    "store io2 = (store io)(l := chunk buf s)"
    "phase io2 = (if m > 0 then Wait_out (Suc l) m else Busy)"
    using write_words_sector [OF w(2), of 256 "s * 256" buf] Suc.prems(2) w(3)
    by (auto simp: chunk_def algebra_simps)
  have "512 * (Suc s + m) \<le> length buf" using Suc.prems(2) by simp
  from Suc.IH [OF r(3) this] obtain io' where io': "write_sectors_loop P m (Suc s) buf io2 = Some (0, io')"
    "phase io' = Busy" "\<forall>i. store io' i = (if Suc l \<le> i \<and> i < Suc l + m
      then chunk buf (Suc s + (i - Suc l)) else store io2 i)" by blast
  have "store io' i = (if l \<le> i \<and> i < l + Suc m then chunk buf (s + (i - l)) else store io i)" for i
    using io'(3) r(2) by (cases "i = l") (auto simp: Suc_diff_Suc)
  then show ?case using io'(1,2) w(1) r(1) by auto
qed auto

text \<open>The registers hold the number of the sector, bit for bit.\<close>

lemma lba_bytes:
  fixes lba :: u32
  assumes "unat lba < 2 ^ 28"
  shows "unat (ucast (lba AND 0xFF) :: u8) + 2 ^ 8 * unat (ucast (drop_bit 8 lba AND 0xFF) :: u8) +
      2 ^ 16 * unat (ucast (drop_bit 16 lba AND 0xFF) :: u8) +
      2 ^ 24 * unat ((ucast (0xE0 OR (drop_bit 24 lba AND 0x0F)) :: u8) AND 0x0F) = unat lba"
    "(ucast (0xE0 OR (drop_bit 24 lba AND 0x0F)) :: u8) AND 0xF0 = 0xE0"
proof -
  have m: "(0xFF :: u32) = mask 8" "(0x0F :: u32) = mask 4" "(0x0F :: u8) = mask 4"
    by (simp_all add: mask_eq_exp_minus_1)
  have b: "unat (ucast (x AND 0xFF) :: u8) = unat x mod 2 ^ 8" for x :: u32
    unfolding m by (simp add: unsigned_ucast_eq unsigned_take_bit_eq take_bit_eq_mod unat_mod flip: take_bit_eq_mask)
  have z: "(0xE0 :: u32) AND 0x0F = 0" by simp
  have n: "unat ((ucast (0xE0 OR (x AND 0x0F)) :: u8) AND 0x0F) = unat x mod 2 ^ 4" for x :: u32
  proof -
    have "(ucast (0xE0 OR (x AND 0x0F)) :: u8) AND 0x0F = ucast ((0xE0 OR (x AND 0x0F)) AND 0x0F)"
      by (auto simp: bit_simps intro!: bit_eqI)
    also have "(0xE0 OR (x AND 0x0F)) AND 0x0F = x AND 0x0F"
      unfolding bit.conj_disj_distrib2 using z by (simp add: and.assoc)
    finally show ?thesis unfolding m
      by (simp add: unsigned_ucast_eq take_bit_eq_mod unat_mod flip: take_bit_eq_mask)
  qed
  have d: "unat (drop_bit k lba) = unat lba div 2 ^ k" for k
    unfolding unat_drop_bit_eq by (simp add: drop_bit_eq_div)
  define a where "a = unat lba div 2 ^ 8"
  define c where "c = a div 2 ^ 8"
  define e where "e = c div 2 ^ 8"
  have q: "unat lba div 2 ^ 16 = c" "unat lba div 2 ^ 24 = e"
    by (simp_all add: a_def c_def e_def flip: div_mult2_eq)
  have "e < 2 ^ 4" using assms by (simp add: a_def c_def e_def div_mult2_eq [symmetric] less_mult_imp_div_less)
  then show "unat (ucast (lba AND 0xFF) :: u8) + 2 ^ 8 * unat (ucast (drop_bit 8 lba AND 0xFF) :: u8) +
      2 ^ 16 * unat (ucast (drop_bit 16 lba AND 0xFF) :: u8) +
      2 ^ 24 * unat ((ucast (0xE0 OR (drop_bit 24 lba AND 0x0F)) :: u8) AND 0x0F) = unat lba"
    using mod_mult_div_eq [of "unat lba" "2 ^ 8"] mod_mult_div_eq [of a "2 ^ 8"] mod_mult_div_eq [of c "2 ^ 8"]
    unfolding b n d q a_def [symmetric] c_def [symmetric] e_def [symmetric] by simp
  have "(ucast (0xE0 OR (x AND 0x0F)) :: u8) AND 0xF0 = ucast ((0xE0 OR (x AND 0x0F)) AND 0xF0)" for x :: u32
    by (auto simp: bit_simps intro!: bit_eqI)
  moreover have "(0xE0 OR (x AND 0x0F)) AND 0xF0 = (0xE0 :: u32)" for x :: u32
  proof -
    have "0xF0 AND (x AND 0x0F) = (0 :: u32)"
      using and.assoc [of "0xF0" "0x0F" x] by (simp add: and.commute [of x])
    then show ?thesis unfolding and.commute [of _ "0xF0"] bit.conj_disj_distrib by simp
  qed
  ultimately show "(ucast (0xE0 OR (drop_bit 24 lba AND 0x0F)) :: u8) AND 0xF0 = 0xE0"
    by simp
qed

lemma command_ok:
  assumes "phase io = Idle" "cmd = 0x20 \<or> cmd = 0x30" "count \<noteq> 0" "unat lba + unat count \<le> nsec"
  shows "phase (ata_command P cmd lba count io) =
      (if cmd = 0x20 then Wait_in else Wait_out) (unat lba) (unat count)"
    "store (ata_command P cmd lba count io) = store io"
proof -
  note rw = reg_write [THEN conjunct1] reg_write [THEN conjunct2, THEN conjunct1]
    reg_write [THEN conjunct2, THEN conjunct2]
  obtain io1 where io1: "ata_command P cmd lba count io = p_outb P 0x1F7 cmd io1" "phase io1 = Idle"
    "store io1 = store io"
    "regs io1 = \<lparr>r_sel = ucast (0xE0 OR (drop_bit 24 lba AND 0x0F)), r_count = count,
       r_lba0 = ucast (lba AND 0xFF), r_lba1 = ucast (drop_bit 8 lba AND 0xFF),
       r_lba2 = ucast (drop_bit 16 lba AND 0xFF)\<rparr>"
    by (simp add: ata_command_def ata_ports rw assms(1) set_reg_def)
  have "0 < unat count" using assms(3) by (simp add: unat_gt_0)
  then have "unat lba < nsec" using assms(4) by linarith
  then have "unat lba < 2 ^ 28" using nsec_le by simp
  note b = lba_bytes [OF this]
  have l: "lba28 (regs io1) = unat lba" using b(1) by (simp add: lba28_def io1(4))
  have "store (p_outb P 0x1F7 cmd io1) = store io1 \<and> phase (p_outb P 0x1F7 cmd io1) =
      (if cmd = 0x20 then Wait_in else Wait_out) (lba28 (regs io1)) (unat (r_count (regs io1)))"
    by (rule command) (use b(2) l io1(2,4) assms(2-4) in auto)
  then show "phase (ata_command P cmd lba count io) =
      (if cmd = 0x20 then Wait_in else Wait_out) (unat lba) (unat count)"
    "store (ata_command P cmd lba count io) = store io"
    using io1 l by simp_all
qed

lemma transfer_args:
  fixes lba :: u64 and count :: u32
  assumes "count \<noteq> 0" "unat lba + unat count \<le> nsec" "unat count \<le> 255"
  shows "\<not> lba > 0x0FFFFFFF" "\<not> count > 255" "unat (ucast lba :: u32) = unat lba"
    "unat (ucast count :: u8) = unat count" "(ucast count :: u8) \<noteq> 0"
proof -
  have c: "0 < unat count" using assms(1) by (simp add: unat_gt_0)
  then have l: "unat lba < 2 ^ 28" using assms(2) nsec_le by linarith
  then show "\<not> lba > 0x0FFFFFFF" by (simp add: word_less_nat_alt)
  show "\<not> count > 255" using assms(3) by (simp add: word_less_nat_alt)
  show "unat (ucast lba :: u32) = unat lba"
    using l by (simp add: unsigned_ucast_eq take_bit_nat_eq_self)
  show "unat (ucast count :: u8) = unat count"
    using assms(3) by (simp add: unsigned_ucast_eq take_bit_nat_eq_self)
  then show "(ucast count :: u8) \<noteq> 0" using c by auto
qed

lemma ata_read_ok:
  assumes "phase io = Idle" "unat lba + unat count \<le> nsec" "unat count \<le> 255" "512 * unat count \<le> length buf"
  shows "\<exists>io'. ata_block_read P lba count buf io =
      Some (0, sectors_of (store io) (unat lba) (unat count) @ drop (512 * unat count) buf, io') \<and>
    phase io' = Idle \<and> store io' = store io"
proof (cases "count = 0")
  case True
  then show ?thesis using assms(1) by (simp add: ata_block_read_def sectors_of_def)
next
  case False
  note a = transfer_args [OF False assms(2,3)]
  let ?io = "ata_command P 0x20 (ucast lba) (ucast count) io"
  have "phase ?io = Wait_in (unat lba) (unat count)" "store ?io = store io"
    using command_ok [OF assms(1) _ a(5), of "0x20" "ucast lba"] assms(2) a by simp_all
  then show ?thesis
    using read_sectors_loop_ok [of ?io "unat count" "unat lba" 0 buf] assms(4) False a
    by (simp add: ata_block_read_def ata_read_sectors_def ata_ports unat_gt_0)
qed

lemma ata_write_ok:
  assumes "phase io = Idle" "unat lba + unat count \<le> nsec" "unat count \<le> 255" "512 * unat count \<le> length buf"
  shows "\<exists>io'. ata_block_write P lba count buf io = Some (0, io') \<and>
    phase (settle io') = Idle \<and> (\<forall>i. store (settle io') i = (if unat lba \<le> i \<and> i < unat lba + unat count
       then chunk buf (i - unat lba) else store io i))"
proof (cases "count = 0")
  case True
  then show ?thesis using assms(1) settled [of io] by (auto simp: ata_block_write_def)
next
  case False
  note a = transfer_args [OF False assms(2,3)]
  let ?io = "ata_command P 0x30 (ucast lba) (ucast count) io"
  have "phase ?io = Wait_out (unat lba) (unat count)" "store ?io = store io"
    using command_ok [OF assms(1) _ a(5), of "0x30" "ucast lba"] assms(2) a by simp_all
  then obtain io' where "write_sectors_loop P (unat count) 0 buf ?io = Some (0, io')" "phase io' = Busy"
    "\<forall>i. store io' i = (if unat lba \<le> i \<and> i < unat lba + unat count then chunk buf (i - unat lba) else store io i)"
    using write_sectors_loop_ok [of ?io "unat count" "unat lba" 0 buf] assms(4) False
    by (auto simp: unat_gt_0)
  then show ?thesis using False a settled [of io']
    by (simp add: ata_block_write_def ata_write_sectors_def ata_ports)
qed

end

sublocale ata_disk \<subseteq> blk: block_dev "ata_block_read P" "ata_block_write P"
  "\<lambda>io. phase io = Idle" "\<lambda>io. nsec" store 255 settle
  by unfold_locales (auto simp: store_length settled dest: ata_read_ok ata_write_ok)

context ata_disk
begin

lemma contract: "block_dev (ata_block_read P) (ata_block_write P) (\<lambda>io. phase io = Idle) (\<lambda>io. nsec) store 255 settle"
  by (rule blk.block_dev_axioms)

text \<open>A round trip through the driver, in terms of the sectors of the drive.\<close>

lemma round_trip:
  assumes "phase io = Idle" "unat lba + unat count \<le> nsec" "unat count \<le> 255"
    and "512 * unat count = length buf" "length out = length buf"
  shows "\<exists>io1 io2. ata_block_write P lba count buf io = Some (0, io1) \<and> phase (settle io1) = Idle \<and>
    ata_block_read P lba count out (settle io1) = Some (0, buf, io2) \<and> phase io2 = Idle \<and>
    (\<forall>i < nsec. i < unat lba \<or> unat lba + unat count \<le> i \<longrightarrow> store io2 i = store io i)"
proof -
  obtain io1 io2 where "ata_block_write P lba count buf io = Some (0, io1)" "phase (settle io1) = Idle"
    "ata_block_read P lba count out (settle io1) = Some (0, buf, io2)" "phase io2 = Idle"
    "\<And>i. i < nsec \<Longrightarrow> i < unat lba \<or> unat lba + unat count \<le> i \<Longrightarrow> store (settle io1) i = store io i"
    "\<And>i. i < nsec \<Longrightarrow> store io2 i = store (settle io1) i"
    using blk.write_then_read [OF assms] by metis
  then show ?thesis by auto
qed

end

subsection \<open>A drive with these laws\<close>

text \<open>
  A drive of 8 GB: it is busy for three reads of the status before each sector and after the
  last sector of a write, and it ignores what is written to its registers unless it is idle. It
  shows that the laws can hold, and the examples run on it.
\<close>

record drive =
  d_regs :: ata_regs
  d_phase :: ata_phase
  d_data :: "nat \<Rightarrow> u8 list"
  d_lag :: nat

definition drive_sector :: "drive \<Rightarrow> nat \<Rightarrow> u8 list" where
  "drive_sector d i = take 512 (d_data d i @ replicate 512 0)"

definition drive_inb :: "u16 \<Rightarrow> drive \<Rightarrow> u8 \<times> drive" where
  "drive_inb p d =
     (if p = 0x1F7 \<and> waiting (d_phase d)
      then if d_lag d > 0 then (0x80, d\<lparr>d_lag := d_lag d - 1\<rparr>)
           else (0x58, d\<lparr>d_phase := ready (d_phase d), d_lag := 3\<rparr>)
      else if p = 0x1F7 \<and> d_phase d = Busy
      then if d_lag d > 0 then (0x80, d\<lparr>d_lag := d_lag d - 1\<rparr>)
           else (0x50, d\<lparr>d_phase := Idle, d_lag := 3\<rparr>)
      else (0x50, d))"

definition drive_outb :: "u16 \<Rightarrow> u8 \<Rightarrow> drive \<Rightarrow> drive" where
  "drive_outb p v d =
     (if d_phase d \<noteq> Idle then d
      else if p = 0x1F7
      then d\<lparr>d_phase := (if v = 0x20 then Wait_in else Wait_out) (lba28 (d_regs d)) (unat (r_count (d_regs d)))\<rparr>
      else d\<lparr>d_regs := set_reg p v (d_regs d)\<rparr>)"

definition drive_inw :: "u16 \<Rightarrow> drive \<Rightarrow> u16 \<times> drive" where
  "drive_inw p d = (case d_phase d of
       Data_in l n i \<Rightarrow> (word_at (drive_sector d l) i, d\<lparr>d_phase := after_in l n i\<rparr>)
     | _ \<Rightarrow> (0, d))"

definition drive_outw :: "u16 \<Rightarrow> u16 \<Rightarrow> drive \<Rightarrow> drive" where
  "drive_outw p w d = (case d_phase d of
       Data_out l n ws \<Rightarrow>
         d\<lparr>d_phase := after_out l n (ws @ [w]),
           d_data := (if length ws < 255 then d_data d
             else (d_data d)(l := concat (map bytes_of (ws @ [w]))))\<rparr>
     | _ \<Rightarrow> d)"

definition drive_ports :: "drive ports" where
  "drive_ports = \<lparr>p_inb = drive_inb, p_outb = drive_outb, p_inw = drive_inw, p_outw = drive_outw\<rparr>"

definition drive_settle :: "drive \<Rightarrow> drive" where
  "drive_settle d = (if d_phase d = Busy then d\<lparr>d_phase := Idle, d_lag := 3\<rparr> else d)"

interpretation drive: ata_disk drive_ports d_regs d_phase drive_sector "2 ^ 24" d_lag drive_settle
proof (unfold_locales, goal_cases)
  case (8 io l n ws w)
  have "length ws = 255 \<Longrightarrow> length (concat (map bytes_of (ws @ [w]))) = 512" by simp
  then show ?case using 8
    by (auto simp: drive_ports_def drive_outw_def drive_sector_def fun_eq_iff simp del: map_append concat_append)
qed (auto simp: drive_ports_def drive_inb_def drive_outb_def drive_inw_def drive_sector_def set_reg_def
      drive_settle_def split: if_splits)

definition drive0 :: drive where
  "drive0 = \<lparr>d_regs = \<lparr>r_sel = 0, r_count = 0, r_lba0 = 0, r_lba1 = 0, r_lba2 = 0\<rparr>,
     d_phase = Idle, d_data = (\<lambda>i. []), d_lag = 3\<rparr>"

lemma drive_laws: "ata_disk drive_ports d_regs d_phase drive_sector (2 ^ 24) d_lag drive_settle"
  by unfold_locales

text \<open>
  C10: The disk driver keeps the sectors of a drive. On every drive that meets the laws of
  LBA28 programmed input and output (\<open>ata_disk\<close>), with a range of at most 255 sectors inside
  the drive and a buffer of its length: \<open>ata_block_write\<close> to an idle drive returns 0. The drive
  may then still be busy with the last sector. Once it has settled, \<open>ata_block_read\<close> of the same
  range returns 0 and the bytes that were written, and the sectors outside the range are what
  they were. The driver itself does not wait for the drive to settle; \<open>ata_busy_hangs\<close> shows a
  drive on which a command that comes before is lost.
\<close>

theorem ata_write_read:
  assumes "ata_disk P regs phase store nsec lag settle"
    and "phase io = Idle" "unat lba + unat count \<le> nsec" "unat count \<le> 255"
    and "512 * unat count = length buf" "length out = length buf"
  shows "\<exists>io1 io2. ata_block_write P lba count buf io = Some (0, io1) \<and> phase (settle io1) = Idle \<and>
    ata_block_read P lba count out (settle io1) = Some (0, buf, io2) \<and> phase io2 = Idle \<and>
    (\<forall>i < nsec. i < unat lba \<or> unat lba + unat count \<le> i \<longrightarrow> store io2 i = store io i)"
  by (rule ata_disk.round_trip [OF assms])

theorem ata_write_read_witness:
  "\<exists>io1 io2. ata_block_write drive_ports 5 2 (replicate 1024 9) drive0 = Some (0, io1) \<and>
    ata_block_read drive_ports 5 2 (replicate 1024 0) (drive_settle io1) = Some (0, replicate 1024 9, io2)"
  using ata_write_read [OF drive_laws, of drive0 5 2 "replicate 1024 9" "replicate 1024 0"]
  by (auto simp: drive0_def)

subsection \<open>What the driver does not check\<close>

lemma wait_not_busy_returns:
  "wait_not_busy P io = Some r \<Longrightarrow> \<exists>io. fst (p_inb P 0x1F7 io) AND 0x80 = 0"
proof (induction rule: wait_not_busy.raw_induct [rotated, consumes 1])
  case (1 wait P io r)
  obtain st io' where s: "p_inb P 0x1F7 io = (st, io')" by (rule prod.exhaust)
  show ?case
  proof (cases "st AND 0x80 = 0")
    case True
    then show ?thesis using s by (intro exI [of _ io]) simp
  next
    case False
    then have "wait P io' = Some r" using 1(2) s by (simp add: ata_ports ata_status)
    then show ?thesis by (rule 1(1))
  qed
qed

lemma ata_wait_floating:
  assumes "\<And>io. fst (p_inb P 0x1F7 io) AND 0x80 \<noteq> 0"
  shows "ata_wait P io = None"
proof -
  have "wait_not_busy P io = None"
    using wait_not_busy_returns [of P io] assms by (metis not_Some_eq)
  then show ?thesis by (simp add: ata_wait_def)
qed

lemma transfer_hangs:
  fixes count :: u32
  assumes w: "\<And>cmd l n. ata_wait P (ata_command P cmd l n io) = None" and "count \<noteq> 0" "lba \<le> 0x0FFFFFFF"
  shows "ata_block_read P lba count buf io = None \<and> ata_block_write P lba count buf io = None"
proof -
  define n where "n = (if count > 255 then 255 else count)"
  have "0 < unat n" "unat n \<le> 255" using assms(2)
    by (auto simp: n_def unat_gt_0 word_less_nat_alt not_less word_le_nat_alt)
  then have "unat (ucast n :: u8) = unat n" by (simp add: unsigned_ucast_eq take_bit_nat_eq_self)
  then have n: "(ucast n :: u8) \<noteq> 0" "\<exists>m. unat (ucast n :: u8) = Suc m"
    using \<open>0 < unat n\<close> by (auto simp: gr0_conv_Suc)
  then show ?thesis
    using assms
    by (auto simp: ata_block_read_def ata_block_write_def ata_read_sectors_def ata_write_sectors_def
        n_def [symmetric] not_less)
qed

text \<open>
  C36: Without a drive the driver never returns. Where nothing answers, the status port reads
  as 255, with the busy bit set; polling has no limit, so every read or write of at least one
  sector with a number that passes the range check runs forever. (\<open>ata_pio_init\<close> does not
  probe for a drive.)
\<close>

theorem ata_hangs_without_drive:
  assumes "\<And>io. fst (p_inb P 0x1F7 io) = 0xFF" and "count \<noteq> 0" "lba \<le> 0x0FFFFFFF"
  shows "ata_block_read P lba count buf io = None \<and> ata_block_write P lba count buf io = None"
  by (rule transfer_hangs [OF ata_wait_floating assms(2,3)]) (simp add: assms(1))

definition no_drive :: "unit ports" where
  "no_drive = \<lparr>p_inb = (\<lambda>p io. (0xFF, io)), p_outb = (\<lambda>p v io. io), p_inw = (\<lambda>p io. (0xFFFF, io)),
     p_outw = (\<lambda>p w io. io)\<rparr>"

theorem ata_hangs_without_drive_witness:
  "ata_block_read no_drive 0 1 (replicate 512 0) () = None"
  using ata_hangs_without_drive [of no_drive 1 0] by (simp add: no_drive_def)

text \<open>
  A drive that is busy with the last sector of a write drops the registers and the command of the
  next transfer (\<open>drive_ports\<close> does), and \<open>ata_wait\<close> then polls an idle drive for a request that
  never comes: a transfer that directly follows a write never returns.
\<close>

lemma drive_idle_status: "d_phase d = Idle \<Longrightarrow> p_inb drive_ports 0x1F7 d = (0x50, d)"
  by (simp add: drive_ports_def drive_inb_def)

lemma wait_drq_idle:
  assumes "wait_drq drive_ports s d = Some r" "s AND (ATA_SR_DRQ OR ATA_SR_ERR) = 0" "d_phase d = Idle"
  shows False
proof -
  let ?Q = "\<lambda>prt s d. prt = drive_ports \<and> s AND (ATA_SR_DRQ OR ATA_SR_ERR) = 0 \<and> d_phase d = Idle"
  let ?N = "\<lambda>((prt, s), d) r. \<not> ?Q prt s d"
  have "?N ((drive_ports, s), d) r"
  proof (rule wait_drq.raw_induct [where Pa = ?N, OF _ assms(1)], goal_cases)
    case (1 wait prt s d r)
    have False if q: "?Q prt s d"
    proof -
      have "p_inb prt (ATA_PRIMARY_IO + ATA_REG_STATUS) d = (0x50, d)"
        using drive_idle_status [of d] q by (simp add: ata_ports)
      then have "wait prt 0x50 d = Some r" using 1(2) q by simp
      from 1(1) [OF this] q show False by (simp add: ata_status)
    qed
    then show ?case by auto
  qed
  then show False using assms(2,3) by simp
qed

lemma wait_busy_drive:
  assumes "d_phase d = Busy"
  shows "\<exists>d'. wait_not_busy drive_ports d = Some (0x50, d') \<and> d_phase d' = Idle"
  using assms
proof (induction "d_lag d" arbitrary: d)
  case 0
  then show ?case by (subst wait_not_busy.simps) (simp add: ata_ports ata_status drive_ports_def drive_inb_def)
next
  case (Suc n)
  then show ?case
    by (subst wait_not_busy.simps) (simp add: ata_ports ata_status drive_ports_def drive_inb_def)
qed

lemma ata_wait_busy:
  assumes "d_phase d = Busy"
  shows "ata_wait drive_ports d = None"
proof -
  obtain d' where d': "wait_not_busy drive_ports d = Some (0x50, d')" "d_phase d' = Idle"
    using wait_busy_drive [OF assms] by blast
  have "wait_drq drive_ports 0x50 d' = None"
    using wait_drq_idle [of "0x50" d'] d'(2) by (cases "wait_drq drive_ports 0x50 d'") (auto simp: ata_status)
  then show ?thesis using d'(1) by (simp add: ata_wait_def)
qed

theorem ata_busy_hangs:
  assumes "d_phase d = Busy" "count \<noteq> 0" "lba \<le> 0x0FFFFFFF"
  shows "ata_block_read drive_ports lba count buf d = None \<and> ata_block_write drive_ports lba count buf d = None"
proof (rule transfer_hangs [OF ata_wait_busy assms(2,3)])
  show "d_phase (ata_command drive_ports cmd l n d) = Busy" for cmd l n
    using assms(1) by (simp add: ata_command_def drive_ports_def drive_outb_def)
qed

text \<open>
  A transfer of more than 255 sectors is cut to 255 and reported as complete.
\<close>

lemma ata_cuts_transfer:
  assumes "count > 255"
  shows "ata_block_read P lba count buf io = ata_block_read P lba 255 buf io"
    "ata_block_write P lba count buf io = ata_block_write P lba 255 buf io"
  using assms by (auto simp: ata_block_read_def ata_block_write_def)

end
