(* ===== verification/Boot.thy ===== *)
theory Boot
  imports Fs_Abs Sched Ata
begin

text \<open>
  The files of a fresh system: \<open>kernel/fs_bootstrap.c\<close>, its texts, and the layout that it
  leaves, by way of the abstract file system of theory \<open>Fs_Abs\<close>.
\<close>

subsection \<open>The initial files\<close>

definition motd_text :: string where
  "motd_text =
     ''Welcome to Hypnos OS!'' @ [newline] @
     ''This is a demo filesystem stored on an 8GB virtual disk.'' @ [newline] @
     ''Commands: ls, cd, pwd, mkdir, touch, write, cat, edit, snap-*, log, whoami, users ...'' @ [newline]"

definition root_readme :: string where
  "root_readme =
     ''Hypnos root README'' @ [newline] @
     ''-------------------'' @ [newline] @
     ''This directory is meant for the 'root' user.'' @ [newline] @
     ''Try creating files here, editing them, and rebooting to'' @ [newline] @
     ''confirm that the filesystem is persistent on disk.'' @ [newline]"

definition student_readme :: string where
  "student_readme =
     ''Hypnos student README'' @ [newline] @
     ''----------------------'' @ [newline] @
     ''Welcome! You can practice shell commands here.'' @ [newline] @
     ''Try: 'ls', 'pwd', 'mkdir demo', 'cd demo', 'edit notes.txt'.'' @ [newline]"

definition fs_bootstrap :: "'a fs_st_scheme \<Rightarrow> 'a fs_st_scheme option" where
  "fs_bootstrap st = do {
     old_cwd \<leftarrow> fs_getcwd st;
     let saved_cwd = copy_upto 127 old_cwd;
     (_, st) \<leftarrow> fs_chdir (Some ''/'') st;
     (sentinel, st) \<leftarrow> fs_read (Some ''.hypnos_root_initialized'') st;
     if sentinel \<noteq> NULL
     then do {
       let st = console_write Fs_bootstrap_c (''fs_bootstrap: filesystem already initialized.'' @ [newline]) st;
       (_, st) \<leftarrow> fs_chdir (Some saved_cwd) st;
       Some st
     }
     else do {
       let st = console_write Fs_bootstrap_c (''fs_bootstrap: creating initial filesystem layout...'' @ [newline]) st;
       (_, st) \<leftarrow> fs_mkdir (Some ''bin'') st;
       (_, st) \<leftarrow> fs_mkdir (Some ''home'') st;
       (_, st) \<leftarrow> fs_mkdir (Some ''etc'') st;
       (_, st) \<leftarrow> fs_mkdir (Some ''var'') st;
       (_, st) \<leftarrow> fs_chdir (Some ''/var'') st;
       (_, st) \<leftarrow> fs_mkdir (Some ''log'') st;
       (_, st) \<leftarrow> fs_chdir (Some ''/'') st;
       (_, st) \<leftarrow> fs_chdir (Some ''/home'') st;
       (_, st) \<leftarrow> fs_mkdir (Some ''root'') st;
       (_, st) \<leftarrow> fs_mkdir (Some ''student'') st;
       (_, st) \<leftarrow> fs_chdir (Some ''/'') st;
       (_, st) \<leftarrow> fs_chdir (Some ''/etc'') st;
       (_, st) \<leftarrow> fs_write (Some ''motd'') (Some motd_text) st;
       (_, st) \<leftarrow> fs_chdir (Some ''/'') st;
       (_, st) \<leftarrow> fs_chdir (Some ''/home/root'') st;
       (_, st) \<leftarrow> fs_write (Some ''readme.txt'') (Some root_readme) st;
       (_, st) \<leftarrow> fs_chdir (Some ''/'') st;
       (_, st) \<leftarrow> fs_chdir (Some ''/home/student'') st;
       (_, st) \<leftarrow> fs_write (Some ''readme.txt'') (Some student_readme) st;
       (_, st) \<leftarrow> fs_chdir (Some ''/'') st;
       (_, st) \<leftarrow> fs_chdir (Some ''/'') st;
       (_, st) \<leftarrow> fs_write (Some ''.hypnos_root_initialized'') (Some ''1'') st;
       let st = console_write Fs_bootstrap_c (''fs_bootstrap: initial filesystem created.'' @ [newline]) st;
       (_, st) \<leftarrow> fs_chdir (Some saved_cwd) st;
       Some st
     }
   }"

text \<open>The calls of its second branch, and the files it is meant to leave.\<close>

definition boot_calls :: "fs_call list" where
  "boot_calls = [Mkdir ''bin'', Mkdir ''home'', Mkdir ''etc'', Mkdir ''var'',
     Chdir ''/var'', Mkdir ''log'', Chdir ''/'',
     Chdir ''/home'', Mkdir ''root'', Mkdir ''student'', Chdir ''/'',
     Chdir ''/etc'', Write ''motd'' motd_text, Chdir ''/'',
     Chdir ''/home/root'', Write ''readme.txt'' root_readme, Chdir ''/'',
     Chdir ''/home/student'', Write ''readme.txt'' student_readme, Chdir ''/'', Chdir ''/'',
     Write ''.hypnos_root_initialized'' ''1'']"

definition boot_files :: files where
  "boot_files = [
     [] \<mapsto> Dir, [''bin''] \<mapsto> Dir, [''home''] \<mapsto> Dir, [''etc''] \<mapsto> Dir, [''var''] \<mapsto> Dir,
     [''var'', ''log''] \<mapsto> Dir, [''home'', ''root''] \<mapsto> Dir, [''home'', ''student''] \<mapsto> Dir,
     [''etc'', ''motd''] \<mapsto> File (map of_char motd_text),
     [''home'', ''root'', ''readme.txt''] \<mapsto> File (map of_char root_readme),
     [''home'', ''student'', ''readme.txt''] \<mapsto> File (map of_char student_readme),
     [''.hypnos_root_initialized''] \<mapsto> File (map of_char ''1'')]"

lemma boot_paths:
  "components ''bin'' = [''bin'']" "components ''home'' = [''home'']" "components ''etc'' = [''etc'']"
  "components ''var'' = [''var'']" "components ''/var'' = [''var'']" "components ''log'' = [''log'']"
  "components ''/'' = []" "components ''/home'' = [''home'']" "components ''root'' = [''root'']"
  "components ''student'' = [''student'']" "components ''/etc'' = [''etc'']" "components ''motd'' = [''motd'']"
  "components ''/home/root'' = [''home'', ''root'']" "components ''readme.txt'' = [''readme.txt'']"
  "components ''/home/student'' = [''home'', ''student'']"
  "components ''.hypnos_root_initialized'' = [''.hypnos_root_initialized'']"
  by code_simp+

lemma boot_calls_result: "a_calls boot_calls ([[] \<mapsto> Dir], []) = (replicate 22 0, boot_files, [])"
  by (simp add: boot_calls_def boot_files_def a_create_def a_chdir_def abs_path_def boot_paths
      numeral_eq_Suc del: components_slash)

text \<open>A sequence of calls whose results are dropped, with what follows it.\<close>

lemma calls_then:
  "fs_calls cs st = Some (rs, st') \<Longrightarrow> foldr (\<lambda>c k st. fs_do c st \<bind> (\<lambda>x. k (snd x))) cs k st = k st'"
proof (induction cs arbitrary: st rs)
  case (Cons c cs)
  then obtain r s rs' where "fs_do c st = Some (r, s)" "fs_calls cs s = Some (rs', st')"
    by (auto elim!: bind_SomeE)
  then show ?case using Cons.IH by simp
qed simp

lemma bootstrap_rep:
  assumes rep: "fs_rep st ([[] \<mapsto> Dir], [])" and rm: "room st (calls_cost boot_calls + k)"
  shows "\<exists>st'. fs_bootstrap st = Some st' \<and> fs_rep st' (boot_files, []) \<and> room st' k \<and>
    fs_st.more st' = fs_st.more st"
proof -
  let ?A = "([[] \<mapsto> Dir], []) :: files \<times> string list"
  have root: "\<exists>s'. fs_chdir (Some ''/'') s = Some (0, s') \<and> fs_rep s' (F, []) \<and> (\<forall>k. room s k \<longrightarrow> room s' k) \<and>
      fs_st.more s' = fs_st.more s"
    if "fs_rep s (F, [])" "F [] = Some Dir" for s :: "'a fs_st_scheme" and F
    using chdir_simulates [of s "(F, [])" "''/''"] that
    by (auto simp: simulates_def a_chdir_def abs_path_def boot_paths room_def local_changeD(6) simp del: components_slash)
  have con_more: "fs_st.more (con_call f c s) = fs_st.more s" for f c and s :: "'a fs_st_scheme"
    by (simp add: con_call_def)
  have cwd: "fs_getcwd st = Some ''/''"
    using rep by (simp add: fs_rep_def cwd_at_def fs_getcwd_def)
  obtain s1 where s1: "fs_chdir (Some ''/'') st = Some (0, s1)" "fs_rep s1 ?A" "room s1 (calls_cost boot_calls + k)"
    "fs_st.more s1 = fs_st.more st"
    using root [OF rep] rm by auto
  have sent: "fs_read (Some ''.hypnos_root_initialized'') s1 = Some (NULL, s1)"
    using s1(2) by (rule fs_rep_read_missing) (simp_all add: abs_path_def boot_paths)
  let ?s2 = "console_write Fs_bootstrap_c (''fs_bootstrap: creating initial filesystem layout...'' @ [newline]) s1"
  have ok: "list_all call_ok boot_calls"
    by (simp add: boot_calls_def data_fits_def motd_text_def root_readme_def student_readme_def)
  obtain s3 where s3: "fs_calls boot_calls ?s2 = Some (replicate 22 0, s3)" "fs_rep s3 (boot_files, [])" "room s3 k"
    "fs_st.more s3 = fs_st.more s1"
    using calls_simulate [of ?s2 ?A boot_calls k] fs_rep_con_call [OF s1(2)] ok s1(3)
    by (auto simp: boot_calls_result room_def con_more dest: local_changeD(6))
  let ?s4 = "console_write Fs_bootstrap_c (''fs_bootstrap: initial filesystem created.'' @ [newline]) s3"
  have b: "boot_files [] = Some Dir" by (simp add: boot_files_def)
  have "room ?s4 k" using s3(3) by (simp add: room_def)
  then obtain s5 where s5: "fs_chdir (Some ''/'') ?s4 = Some (0, s5)" "fs_rep s5 (boot_files, [])" "room s5 k"
    "fs_st.more s5 = fs_st.more ?s4"
    using root [OF fs_rep_con_call [OF s3(2)] b] by blast
  have "copy_upto 127 ''/'' = ''/''" by (simp add: numeral_eq_Suc)
  then have "fs_bootstrap st = Some s5"
    using cwd s1(1) sent s5(1) calls_then [OF s3(1), unfolded boot_calls_def, where k =
        "\<lambda>s. fs_chdir (Some ''/'') (console_write Fs_bootstrap_c
           (''fs_bootstrap: initial filesystem created.'' @ [newline]) s) \<bind> (\<lambda>x. Some (snd x))"]
    by (simp add: fs_bootstrap_def split_def)
  then show ?thesis using s5 s3(4) s1(4) by (auto simp: con_more)
qed

text \<open>
  \<open>fs_bootstrap\<close> makes the file system of a fresh kernel: from an empty root, with
  1130 bytes of room on the heap, it returns, keeps the invariant and leaves exactly the
  directories \<open>/bin\<close>, \<open>/home\<close>, \<open>/etc\<close>, \<open>/var\<close>, \<open>/var/log\<close>, \<open>/home/root\<close> and \<open>/home/student\<close>
  and four files with their texts, with the root as the working directory.
\<close>

theorem fs_bootstrap_layout:
  assumes "fs_inv st" "fs_abs st = [[] \<mapsto> Dir]" "fs_cwd st = fs_root st" "room st (calls_cost boot_calls)"
  shows "\<exists>st'. fs_bootstrap st = Some st' \<and> fs_inv st' \<and> fs_abs st' = boot_files \<and> fs_cwd st' = fs_root st'"
proof -
  have "fs_rep st ([[] \<mapsto> Dir], [])" using assms(1-3) by (simp add: fs_rep_def cwd_at_def)
  then show ?thesis using bootstrap_rep [of st 0] assms(4) by (auto simp: fs_rep_def cwd_at_def)
qed

lemma boot_cost: "calls_cost boot_calls = 1130"
  by (simp add: boot_calls_def calls_cost_def motd_text_def root_readme_def student_readme_def)

theorem fs_bootstrap_layout_witness:
  "\<exists>st'. fs_bootstrap fs_st1 = Some st' \<and>
     fs_abs st' [''home'', ''root'', ''readme.txt''] = Some (File (map of_char root_readme))"
proof -
  have "room fs_st1 (calls_cost boot_calls)" by (simp add: boot_cost room_def fs_st1_ok(5))
  then obtain st' where "fs_bootstrap fs_st1 = Some st'" "fs_abs st' = boot_files"
    using fs_bootstrap_layout [OF fs_st1_rep(1,3) fs_st1_ok(2)] by blast
  then show ?thesis by (auto simp: boot_files_def)
qed

end
