(* ===== verification/Kernel_Main.thy ===== *)
theory Kernel_Main
  imports Boot
begin

text \<open>
  \<open>kernel/kernel_main.c\<close>: the order in which the parts are initialised, from the entry of the
  kernel to the start of the scheduler. What the linker and the assembly provide (the
  addresses of tables and stubs, the masks that the interrupt controllers return) and the
  ports of the disk are the record \<open>boot_env\<close>.
\<close>

record 'io boot_env =
  be_gdt :: u32
  be_tss :: u32
  be_kernel_tss_stack :: u32
  be_idt :: u32
  be_isr :: "nat \<Rightarrow> u32"
  be_page_tables :: u32
  be_page_directory :: u32
  be_kernel_end :: u32
  be_ports :: "'io ports"
  be_mask1 :: u8
  be_mask2 :: u8
  be_irq :: "nat \<Rightarrow> u32"
  be_isr80_syscall :: u32
  be_shell_thread :: u32

definition sleep_timer :: u32 where "sleep_timer = 1000"

text \<open>
  Before the timer runs the delay is a counting loop. Once it runs, \<open>hlt\<close> waits for the next
  interrupt; interrupts are off wherever the boot sleeps, so that branch never returns.
\<close>

definition sleep_ticks :: "u32 \<Rightarrow> 'a tick_st_scheme \<Rightarrow> 'a tick_st_scheme option" where
  "sleep_ticks ticks st =
     (if ticks = 0 then Some st
      else let start = timer_get_ticks st
           in if start = 0 then Some st else None)"

definition print_ascii_banner :: "'a out_st_scheme \<Rightarrow> 'a out_st_scheme" where
  "print_ascii_banner st =
     (let st = theme_banner Kernel_main_c st;
          st = console_write Kernel_main_c ('' _   _                          '' @ [newline]) st;
          st = console_write Kernel_main_c (''| | | | _   _ _ __   ___  ___   '' @ [newline]) st;
          st = console_write Kernel_main_c (''| |_| || | | | '_ '' @ [CHR 0x5C] @ '' / __|/ _ '' @ [CHR 0x5C] @ ''  '' @ [newline]) st;
          st = console_write Kernel_main_c (''|  _  || |_| | | | |'' @ [CHR 0x5C] @ ''__ '' @ [CHR 0x5C] @ ''  __/  '' @ [newline]) st;
          st = console_write Kernel_main_c (''|_| |_| '' @ [CHR 0x5C] @ ''__,_|_| |_||___/'' @ [CHR 0x5C] @ ''___|  '' @ [newline]) st;
          st = console_write Kernel_main_c (''           H Y P N O S          '' @ [newline, newline]) st
      in theme_default Kernel_main_c st)"

definition ok_msg :: "string \<Rightarrow> 'a out_st_scheme \<Rightarrow> 'a out_st_scheme" where
  "ok_msg msg st =
     (let st = con_call Kernel_main_c (Con_set_color 10 0) st;
          st = console_write Kernel_main_c ''[OK] '' st;
          st = theme_default Kernel_main_c st;
          st = console_write Kernel_main_c msg st
      in console_write Kernel_main_c [newline] st)"

definition banner :: "string \<Rightarrow> 'a out_st_scheme \<Rightarrow> 'a out_st_scheme" where
  "banner msg st =
     (let st = theme_banner Kernel_main_c st;
          st = console_write Kernel_main_c msg st;
          st = console_write Kernel_main_c [newline] st
      in theme_default Kernel_main_c st)"

text \<open>The entry point of the first task.\<close>

definition shell_thread :: "('d, 'a) shell_st_scheme \<Rightarrow> ('d, 'a) shell_st_scheme option" where
  "shell_thread st = shell_run (shell_init st)"

text \<open>The first part: the processor, paging, frames and the heap, with its test.\<close>

definition boot_machine :: "'io boot_env \<Rightarrow> ('d, 'a) task_st_scheme \<Rightarrow> ('d, 'a) task_st_scheme option" where
  "boot_machine env st = do {
     let st = con_call Kernel_main_c Con_clear (theme_default Kernel_main_c st);
     let st = log_event (Some ''[BOOT] kernel_main entered'') (log_init st);
     let st = gdt_init (be_gdt env) (be_tss env) (be_kernel_tss_stack env) st;
     let st = log_event (Some ''[BOOT] GDT initialized.'') (ok_msg ''GDT initialized.'' st);
     st \<leftarrow> sleep_ticks sleep_timer st;
     let st = ok_msg ''IDT initialized.'' (idt_init (be_idt env) (be_isr env) st);
     st \<leftarrow> sleep_ticks sleep_timer st;
     st \<leftarrow> sleep_ticks sleep_timer (log_event (Some ''[BOOT] IDT initialized.'') st);
     st \<leftarrow> paging_init (be_page_tables env) st;
     let st = ok_msg ''Paging initialized and enabled.'' (paging_enable (be_page_directory env) st);
     st \<leftarrow> sleep_ticks sleep_timer st;
     st \<leftarrow> sleep_ticks sleep_timer (log_event (Some ''[BOOT] Paging initialized and enabled.'') st);
     st \<leftarrow> phys_init (be_kernel_end env) st;
     st \<leftarrow> sleep_ticks sleep_timer (ok_msg ''Physical memory manager initialized.'' st);
     st \<leftarrow> sleep_ticks sleep_timer (log_event (Some ''[BOOT] Physical memory manager initialized.'') st);
     st \<leftarrow> sleep_ticks sleep_timer (ok_msg ''Kernel heap initialized.'' (kmalloc_init st));
     st \<leftarrow> sleep_ticks sleep_timer (log_event (Some ''[BOOT] Kernel heap initialized.'') st);
     let (buf, st) = kmalloc 32 st;
     if buf \<noteq> NULL
     then let st = console_write Kernel_main_c ''Heap test: '' st;
              st = console_write Kernel_main_c ''OK'' st;
              st = console_write Kernel_main_c [newline] st
          in Some (log_event (Some ''[BOOT] Heap test OK.'') st)
     else Some (log_event (Some ''[BOOT] Heap test FAILED (kmalloc returned NULL).'') st)
   }"

text \<open>The second part: users, the key, the disk and the file system.\<close>

definition boot_files_system ::
  "'io boot_env \<Rightarrow> ('io, 'a) task_st_scheme \<Rightarrow> ('io, 'a) task_st_scheme option" where
  "boot_files_system env st = do {
     let st = sec_init st;
     let st = console_write Kernel_main_c ''Security subsystem initialized. Current user: '' st;
     let st = console_write Kernel_main_c (sec_get_current_username st) st;
     st \<leftarrow> sleep_ticks sleep_timer (console_write Kernel_main_c [newline] st);
     st \<leftarrow> sleep_ticks sleep_timer (log_event (Some ''[BOOT] Security subsystem initialized.'') st);
     let st = crypto_set_key ''hypnos-default-key'' st;
     st \<leftarrow> sleep_ticks sleep_timer (ok_msg ''Filesystem encryption key installed.'' st);
     st \<leftarrow> sleep_ticks sleep_timer (log_event (Some ''[BOOT] Filesystem encryption key installed.'') st);
     let (ata0, st) = ata_pio_init (be_ports env) st;
     let st = blockdev_set_root (Some ata0) st;
     st \<leftarrow> fs_init st;
     st \<leftarrow> sleep_ticks sleep_timer (ok_msg ''Filesystem initialized.'' st);
     st \<leftarrow> sleep_ticks sleep_timer (log_event (Some ''[BOOT] Filesystem initialized on /dev/ata0 (8GB).'') st);
     st \<leftarrow> fs_bootstrap st;
     sleep_ticks sleep_timer st
   }"

text \<open>The third part: the interrupts and what handles them.\<close>

definition boot_interrupts :: "'io boot_env \<Rightarrow> ('d, 'a) task_st_scheme \<Rightarrow> ('d, 'a) task_st_scheme option" where
  "boot_interrupts env st = do {
     let st = irq_install (be_mask1 env) (be_mask2 env) (be_irq env) st;
     st \<leftarrow> sleep_ticks sleep_timer (ok_msg ''PIC remapped, IRQs installed.'' st);
     st \<leftarrow> sleep_ticks sleep_timer (log_event (Some ''[BOOT] IRQs installed (PIC remapped).'') st);
     let idt_arr = idt_get_array st;
     let st = console_write Kernel_main_c ''IRQ0 flags = '' st;
     let st = kprint_u32 Kernel_main_c (ucast (ie_flags (idt_arr ! 32))) st;
     let st = console_write Kernel_main_c '' base_lo = '' st;
     let st = kprint_u32 Kernel_main_c (ucast (ie_base_lo (idt_arr ! 32))) st;
     let st = console_write Kernel_main_c '' base_hi = '' st;
     let st = kprint_u32 Kernel_main_c (ucast (ie_base_hi (idt_arr ! 32))) st;
     let st = console_write Kernel_main_c [newline] st;
     st \<leftarrow> sleep_ticks sleep_timer (ok_msg ''Timer initialized (100 Hz).'' (timer_install st));
     st \<leftarrow> sleep_ticks sleep_timer (log_event (Some ''[BOOT] PIT timer initialized (100Hz).'') st);
     st \<leftarrow> sleep_ticks sleep_timer (ok_msg ''Syscalls (INT 0x80) initialized.'' (syscall_init (be_isr80_syscall env) st));
     st \<leftarrow> sleep_ticks sleep_timer (ok_msg ''Keyboard driver installed.'' (keyboard_install st));
     st \<leftarrow> sleep_ticks sleep_timer (log_event (Some ''[BOOT] Keyboard driver installed.'') st);
     let st = console_write Kernel_main_c (''Enabling interrupts...'' @ [newline]) st;
     sleep_ticks sleep_timer (log_event (Some ''[BOOT] Enabling interrupts (sti).'') st)
   }"

text \<open>The last part, after \<open>sti\<close>: the first task and the scheduler.\<close>

definition boot_tasks :: "'io boot_env \<Rightarrow> ('d, 'a) task_st_scheme \<Rightarrow> (ptr \<times> ('d, 'a) task_st_scheme) option" where
  "boot_tasks env st = do {
     let st = log_event (Some ''[BOOT] Task subsystem initialized.'') (task_init st);
     let st = con_call Kernel_main_c Con_clear (con_call Kernel_main_c Con_clear st);
     let st = print_ascii_banner st;
     let st = banner ''Starting Hypnos...'' (banner ''=== Hypnos kernel booted ==='' st);
     let st = log_event (Some ''[BOOT] Hypnos banner displayed.'') st;
     (_, st) \<leftarrow> task_create (be_shell_thread env) ''shell'' st;
     scheduler_start (log_event (Some ''[BOOT] Initial tasks created.'') st)
   }"

definition kernel_main ::
  "'io boot_env \<Rightarrow> ('io, 'a) task_st_scheme \<Rightarrow> (ptr \<times> ('io, 'a) task_st_scheme) option" where
  "kernel_main env st = do {
     st \<leftarrow> boot_machine env st;
     st \<leftarrow> boot_files_system env st;
     st \<leftarrow> boot_interrupts env st;
     boot_tasks env st
   }"

subsection \<open>What the steps of the boot leave alone\<close>

text \<open>
  Two states that agree on the file system, the users and everything above the processor
  tables: the clock, the devices, the shell, the keyboard and the tasks.
\<close>

definition same_upper :: "'a cpu_st_scheme \<Rightarrow> 'a cpu_st_scheme \<Rightarrow> bool" where
  "same_upper s t \<longleftrightarrow> fs_view s = fs_view t \<and> users s = users t \<and> user_count s = user_count t \<and>
     current_user_idx s = current_user_idx t \<and> cpu_st.more s = cpu_st.more t"

lemma same_upper_refl [simp]: "same_upper s s"
  by (simp add: same_upper_def)

lemma same_upper_trans: "same_upper s t \<Longrightarrow> same_upper t u \<Longrightarrow> same_upper s u"
  by (simp add: same_upper_def)

lemma same_upper_eqI: "same_upper s' s \<Longrightarrow> same_upper s' t = same_upper s t"
  by (auto simp: same_upper_def)

lemma same_upper_out:
  "same_upper (st\<lparr>con_out := a\<rparr>) t = same_upper st t" "same_upper (st\<lparr>dbg_out := b\<rparr>) t = same_upper st t"
  "same_upper (st\<lparr>log_buf := c\<rparr>) t = same_upper st t" "same_upper (st\<lparr>log_head := d\<rparr>) t = same_upper st t"
  "same_upper (st\<lparr>log_count := e\<rparr>) t = same_upper st t"
  "same_upper (st\<lparr>gdt := f\<rparr>) t = same_upper st t" "same_upper (st\<lparr>gdt_tss := g\<rparr>) t = same_upper st t"
  "same_upper (st\<lparr>idt := h\<rparr>) t = same_upper st t" "same_upper (st\<lparr>irq_handlers := i\<rparr>) t = same_upper st t"
  "same_upper (st\<lparr>cpu_loads := j\<rparr>) t = same_upper st t" "same_upper (st\<lparr>port_log := k\<rparr>) t = same_upper st t"
  "same_upper (st\<lparr>cr0 := l\<rparr>) t = same_upper st t" "same_upper (st\<lparr>cr3 := m\<rparr>) t = same_upper st t"
  by (simp_all add: same_upper_def fs_view_def)

lemma same_upper_calls [simp]:
  "same_upper (con_call f c st) t = same_upper st t" "same_upper (log_event m st) t = same_upper st t"
  "same_upper (log_init st) t = same_upper st t"
  by (auto simp: con_call_def log_event_def log_init_def debugcon_write_eq Let_def same_upper_out
      split: option.split)

lemma same_upper_kprint [simp]: "same_upper (kprint_u32 f v st) t = same_upper st t"
  by (subst kprint_u32_state) (simp add: same_upper_out)

lemma same_upper_gates [simp]: "same_upper (fold (\<lambda>n. idt_set_gate (u n) (v n) sel fl) xs st) t = same_upper st t"
  by (induction xs arbitrary: st) (simp_all add: idt_set_gate_def same_upper_out)

lemma same_upper_messages [simp]:
  "same_upper (ok_msg m st) t = same_upper st t" "same_upper (banner m st) t = same_upper st t"
  "same_upper (print_ascii_banner st) t = same_upper st t" "same_upper (theme_default f st) t = same_upper st t"
  by (simp_all add: ok_msg_def banner_def print_ascii_banner_def theme_default_def theme_banner_def Let_def)

lemma same_upper_cpu [simp]:
  "same_upper (gdt_init a b c st) t = same_upper st t" "same_upper (idt_init d isr st) t = same_upper st t"
  "same_upper (irq_install e f irq st) t = same_upper st t" "same_upper (paging_enable g st) t = same_upper st t"
  "same_upper (irq_register_handler n h st) t = same_upper st t" "same_upper (outb p v st) t = same_upper st t"
  "same_upper (syscall_init i st) t = same_upper st t"
  by (simp_all add: gdt_init_def write_tss_def gdt_set_entry_def cpu_load_call_def idt_init_def isr_install_def
      irq_install_def paging_enable_def irq_register_handler_def outb_def syscall_init_def idt_set_gate_def
      same_upper_out Let_def)

lemma same_upper_drivers [simp]:
  "same_upper (timer_install st) t = same_upper st t" "same_upper (keyboard_install st') t = same_upper st' t"
  by (simp_all add: timer_install_def keyboard_install_def Let_def)

lemma set_user_loop_more: "set_user_loop a e st = Some st' \<Longrightarrow> page_st.more st' = page_st.more st"
proof (induction rule: set_user_loop.raw_induct [rotated, consumes 1])
  case (1 loop a e st st')
  show ?case
  proof (cases "a < e")
    case True
    then show ?thesis using 1 by (auto simp: invlpg_def write_pte_def split: option.splits dest!: 1(1))
  qed (use 1 in simp)
qed

lemma init_table_loop_more: "init_table_loop t i n addr st = (addr', st') \<Longrightarrow> page_st.more st' = page_st.more st"
  by (induction t i n addr st rule: init_table_loop.induct) (auto simp: write_pte_def)

lemma init_tables_loop_more: "page_st.more (init_tables_loop b t n addr st) = page_st.more st"
proof (induction b t n addr st rule: init_tables_loop.induct)
  case (2 b t n addr st)
  then show ?case
    by (cases "init_table_loop t 0 1024 addr st") (auto dest: init_table_loop_more)
qed simp

lemma paging_init_more:
  assumes "paging_init b st = Some st'"
  shows "page_st.more st' = page_st.more st"
proof -
  have c: "page_st.more (con_call f c s) = page_st.more s" for f c and s :: "'a page_st_scheme"
    by (simp add: con_call_def)
  have "paging_set_user_for_range lo hi s = Some st' \<Longrightarrow> page_st.more st' = page_st.more s"
    for lo hi and s :: "'a page_st_scheme"
    by (auto simp: paging_set_user_for_range_def Let_def dest: set_user_loop_more split: if_splits)
  from this [OF assms [unfolded paging_init_def Let_def]] show ?thesis
    by (simp add: c init_tables_loop_more)
qed

lemma more_same_upper: "page_st.more s = page_st.more t \<Longrightarrow> same_upper s t"
  by (cases s; cases t) (simp add: same_upper_def fs_view_def)

lemma phys_init_upper: "phys_init k st = Some st' \<Longrightarrow> same_upper st' t = same_upper st t"
  by (auto simp: phys_init_def Let_def con_call_def same_upper_def fs_view_def elim!: bind_SomeE)

subsection \<open>The machine and the heap\<close>

text \<open>The state of the boot so far: what the next steps rely on, over a state \<open>t\<close> it started from.\<close>

definition at_boot :: "('d, 'a) task_st_scheme \<Rightarrow> ('d, 'a) task_st_scheme \<Rightarrow> bool" where
  "at_boot t s \<longleftrightarrow> same_upper s t \<and> timer_ticks t = 0"

lemma at_boot_calls [simp]:
  "at_boot t (con_call f c s) = at_boot t s" "at_boot t (log_event m s) = at_boot t s"
  "at_boot t (log_init s) = at_boot t s" "at_boot t (ok_msg u s) = at_boot t s"
  "at_boot t (banner u s) = at_boot t s" "at_boot t (print_ascii_banner s) = at_boot t s"
  "at_boot t (theme_default f s) = at_boot t s" "at_boot t (kprint_u32 f v s) = at_boot t s"
  "at_boot t (gdt_init a b c' s) = at_boot t s" "at_boot t (idt_init d isr s) = at_boot t s"
  "at_boot t (irq_install e g irq s) = at_boot t s" "at_boot t (paging_enable h s) = at_boot t s"
  "at_boot t (syscall_init i s) = at_boot t s" "at_boot t (timer_install s) = at_boot t s"
  "at_boot t (keyboard_install s) = at_boot t s"
  by (simp_all add: at_boot_def)

lemma at_boot_self [simp]: "at_boot t t \<longleftrightarrow> timer_ticks t = 0"
  by (simp add: at_boot_def)

lemma upper_ticks:
  fixes s t :: "'a tick_st_scheme"
  shows "same_upper s t \<Longrightarrow> timer_ticks s = timer_ticks t"
  by (cases s; cases t) (simp add: same_upper_def)

lemma runs_sleep:
  "at_boot t s \<Longrightarrow> runs (sleep_ticks n s) (at_boot t)"
  using upper_ticks [of s t] by (auto simp: sleep_ticks_def timer_get_ticks_def at_boot_def)

lemma runs_paging:
  "at_boot t s \<Longrightarrow> runs (paging_init b s) (at_boot t)"
proof -
  assume a: "at_boot t s"
  obtain s' where s': "paging_init b s = Some s'" by (rule paging_init_tables)
  then have "same_upper s' s" by (intro more_same_upper paging_init_more)
  then show ?thesis using a s' same_upper_trans [of s' s t] by (auto simp: runs_def at_boot_def)
qed

lemma runs_phys:
  assumes "unat k \<le> 2 ^ 31" "at_boot t s"
  shows "runs (phys_init k s) (at_boot t)"
proof -
  obtain s' where s': "phys_init k s = Some s'" by (rule phys_init_free [OF assms(1), of s])
  then show ?thesis using assms(2) phys_init_upper [OF s', of t] by (auto simp: runs_def at_boot_def)
qed

lemma at_boot_heap:
  assumes "at_boot t s"
  shows "at_boot (t\<lparr>heap_offset := x\<rparr>) (s\<lparr>heap_offset := x\<rparr>)" "at_boot (t\<lparr>heap_offset := 0\<rparr>) (kmalloc_init s)"
proof -
  show a: "at_boot (t\<lparr>heap_offset := x\<rparr>) (s\<lparr>heap_offset := x\<rparr>)" for x
    using assms by (auto simp: at_boot_def same_upper_def fs_view_def)
  have "kmalloc_init s = con_call Kmalloc_c (Con_write (''Kernel heap initialized.'' @ [newline])) (s\<lparr>heap_offset := 0\<rparr>)"
    by (simp add: kmalloc_init_def con_call_def)
  then show "at_boot (t\<lparr>heap_offset := 0\<rparr>) (kmalloc_init s)" using a by simp
qed

lemma boot_machine_runs:
  fixes st :: "('d, 'a) task_st_scheme"
  assumes t: "timer_ticks st = 0" and k: "unat (be_kernel_end env) \<le> 2 ^ 31"
  shows "runs (boot_machine env st) (at_boot (st\<lparr>heap_offset := 32\<rparr>))"
proof -
  have heap: "runs (let (buf, s) = kmalloc 32 s in if buf \<noteq> NULL
        then let s = console_write Kernel_main_c ''Heap test: '' s;
                 s = console_write Kernel_main_c ''OK'' s;
                 s = console_write Kernel_main_c [newline] s
             in Some (log_event (Some ''[BOOT] Heap test OK.'') s)
        else Some (log_event (Some ''[BOOT] Heap test FAILED (kmalloc returned NULL).'') s))
      (at_boot (st\<lparr>heap_offset := 32\<rparr>))"
    if s: "at_boot (st\<lparr>heap_offset := 0\<rparr>) s" for s
  proof -
    have h: "heap_offset s = 0" using s by (auto simp: at_boot_def same_upper_def fs_view_def)
    have "kmalloc 32 s = (KHEAP_START + 0, s\<lparr>heap_offset := 0 + 32\<rparr>)"
      using h by (simp add: kmalloc_def KHEAP_SIZE_def KHEAP_START_def)
    then show ?thesis using at_boot_heap(1) [OF s, of 32] by (simp add: KHEAP_START_def Let_def)
  qed
  have m: "at_boot (st\<lparr>heap_offset := 0\<rparr>) (ok_msg m (kmalloc_init s))" if "at_boot st s" for s m
    using at_boot_heap(2) [OF that] by simp
  note sleep = runs_sleep [where n = sleep_timer]
  show ?thesis
    unfolding boot_machine_def Let_def [of "con_call _ _ _"] Let_def [of "log_event _ _"] Let_def [of "gdt_init _ _ _ _"]
      Let_def [of "ok_msg _ _"]
    apply (rule runs_bind, (rule sleep [of st] | rule runs_paging [of st] | rule runs_phys [OF k, of st]), (simp add: t; fail))+
    apply (rule runs_bind, rule sleep [of "st\<lparr>heap_offset := 0\<rparr>"], erule m)
    apply (rule runs_bind, rule sleep [of "st\<lparr>heap_offset := 0\<rparr>"], simp)
    by (erule heap [unfolded Let_def [of "con_call _ _ _"]])
qed

subsection \<open>The users and the file system\<close>

definition sec_booted :: "'a sec_st_scheme \<Rightarrow> bool" where
  "sec_booted s \<longleftrightarrow> sec_wf s \<and> sec_table s = boot_table \<and> sec_current s = Some (''root'', 31)"

lemma sec_booted_eq:
  "users s = users t \<Longrightarrow> user_count s = user_count t \<Longrightarrow> current_user_idx s = current_user_idx t \<Longrightarrow>
    sec_booted s = sec_booted t"
  by (simp add: sec_booted_def sec_wf_def sec_table_def sec_current_def)

lemma sec_booted_upper: "same_upper s t \<Longrightarrow> sec_booted s = sec_booted t"
  by (rule sec_booted_eq) (simp_all add: same_upper_def)

lemma sec_init_more: "sec_st.more (sec_init st) = sec_st.more st"
proof -
  have log: "sec_st.more (log_event m s) = sec_st.more s" for m and s :: "'a sec_st_scheme"
    by (simp add: log_event_def debugcon_write_eq Let_def split: option.split)
  have add: "sec_st.more (snd (sec_add_user n p s)) = sec_st.more s" for n p and s :: "'a sec_st_scheme"
    by (auto simp: sec_add_user_def Let_def log split: option.splits)
  let ?a = "st\<lparr>user_count := 0, current_user_idx := -1\<rparr>"
  let ?p = "PERM_READ OR PERM_WRITE OR PERM_EXEC OR PERM_SNAP OR PERM_ADMIN"
  obtain r b where b: "sec_add_user (Some ''root'') ?p ?a = (r, b)" by (rule prod.exhaust)
  obtain g c where c: "sec_add_user (Some ''guest'') PERM_READ b = (g, c)" by (rule prod.exhaust)
  have "sec_st.more b = sec_st.more st" "sec_st.more c = sec_st.more b"
    using add [of "Some ''root''" ?p ?a] add [of "Some ''guest''" PERM_READ b] b c by simp_all
  then show ?thesis by (simp add: sec_init_def b c log)
qed

lemma fs_init_more: "fs_init st = Some st' \<Longrightarrow> fs_st.more st' = fs_st.more st"
  by (auto simp: fs_init_def fs_new_node_def upd_node_def kmalloc_def con_call_def Let_def
      split: if_splits option.splits elim!: bind_SomeE)

lemma fs_more_eqs:
  fixes s t :: "'a cpu_st_scheme"
  assumes "fs_st.more s = fs_st.more t"
  shows "sec_booted s = sec_booted t" "cpu_st.more s = cpu_st.more t"
proof -
  have "users s = users t \<and> user_count s = user_count t \<and> current_user_idx s = current_user_idx t \<and>
      cpu_st.more s = cpu_st.more t"
    using assms by (cases s; cases t) simp
  then show "sec_booted s = sec_booted t" "cpu_st.more s = cpu_st.more t"
    using sec_booted_eq [of s t] by simp_all
qed

text \<open>What the boot has set up once the files are there.\<close>

definition booted :: "'io boot_env \<Rightarrow> ('io, 'a) task_st_scheme \<Rightarrow> ('io, 'a) task_st_scheme \<Rightarrow> bool" where
  "booted env t s \<longleftrightarrow> fs_rep s (boot_files, []) \<and> sec_booted s \<and> timer_ticks s = 0 \<and> disk s = disk t \<and>
     g_root_dev s = Some (fst (ata_pio_init (be_ports env) t))"

lemma fs_rep_view:
  fixes s t :: "'a fs_st_scheme"
  assumes "fs_view s = fs_view t"
  shows "fs_rep s A = fs_rep t A"
proof -
  have "fs_rep s A" if e: "fs_view s = fs_view t" and r: "fs_rep t A" for s t :: "'a fs_st_scheme"
  proof -
    obtain K where inv: "fs_ok K t" using r by (auto simp: fs_rep_def fs_inv_def)
    note v = fs_viewD [OF e]
    note a = same_nodes_abs [OF inv v(2,5,8,9,3)]
    show ?thesis
      using r a fs_inv_view [OF e] v(6) by (auto simp: fs_rep_def cwd_at_def)
  qed
  then show ?thesis using assms by metis
qed

lemma booted_upper:
  assumes "same_upper s u" "booted env t u"
  shows "booted env t s"
proof -
  have d: "disk s = disk u \<and> g_root_dev s = g_root_dev u"
    using assms(1) by (cases s; cases u) (simp add: same_upper_def)
  have "fs_view s = fs_view u" using assms(1) by (simp add: same_upper_def)
  then show ?thesis
    using d assms fs_rep_view [of s u] sec_booted_upper [OF assms(1)] upper_ticks [OF assms(1)]
    by (simp add: booted_def)
qed

lemma ticks_calls [simp]:
  fixes s :: "'a tick_st_scheme"
  shows "timer_ticks (con_call f c s) = timer_ticks s" "timer_ticks (log_event m s) = timer_ticks s"
    "timer_ticks (ok_msg u s) = timer_ticks s"
  by (rule upper_ticks; simp)+

lemma fs_more_calls:
  fixes s :: "'a fs_st_scheme"
  shows "fs_st.more (con_call f c s) = fs_st.more s" "fs_st.more (log_event m s) = fs_st.more s"
  by (auto simp: con_call_def log_event_def debugcon_write_eq Let_def split: option.split)

lemma sleep_returns [simp]:
  "timer_ticks s = 0 \<Longrightarrow> sleep_ticks n s = Some s"
  by (simp add: sleep_ticks_def timer_get_ticks_def)

text \<open>The state in which \<open>fs_init\<close> is called.\<close>

definition before_fs :: "('io, 'a) task_st_scheme \<Rightarrow> 'io block_device \<Rightarrow> ('io, 'a) task_st_scheme \<Rightarrow> bool" where
  "before_fs t dev s \<longleftrightarrow> sec_booted s \<and> crypto_ready s \<and> heap_offset s = 32 \<and> fs_nodes s = Map.empty \<and>
     fs_bufs s = Map.empty \<and> fs_snaps s = Map.empty \<and> snap_head s = NULL \<and> timer_ticks s = 0 \<and>
     disk s = disk t \<and> g_root_dev s = Some dev"

lemma fs_up:
  fixes t s :: "('io, 'a) task_st_scheme"
  assumes b: "before_fs t (fst (ata_pio_init (be_ports env) t)) s"
  obtains s' where "fs_init s = Some s'" "timer_ticks s' = 0"
    "\<exists>s''. fs_bootstrap (log_event m (ok_msg u s')) = Some s'' \<and> booted env t s'' \<and> room s'' 8000"
proof -
  have h: "unat (heap_offset s) = 32" using b by (simp add: before_fs_def)
  then have "kmem_wf s" "room s 56" by (simp_all add: kmem_wf_def room_def KHEAP_SIZE_def)
  then obtain r s' where s': "fs_init s = Some s'" "fs_ok (\<lambda>_. []) s'" "fs_root s' = r" "fs_cwd s' = r"
    "fs_nodes s' = [r \<mapsto> new_node [slash] True r NULL]" "unat (heap_offset s') = 88"
    using fs_init_ok [of s] b h by (auto simp: before_fs_def)
  have tk: "timer_ticks x = 0 \<and> disk x = disk t \<and> g_root_dev x = g_root_dev s \<and> sec_booted x"
    if "fs_st.more x = fs_st.more s" for x
    using fs_more_eqs [OF that] b by (cases x; cases s) (auto simp: before_fs_def)
  have "fs_abs s' = [[] \<mapsto> Dir]"
  proof -
    have "fs_find_in_dir s' r c = Some NULL" for c
      by (simp add: fs_find_in_dir_def s'(5) find_loop.simps)
    then show ?thesis
      by (auto simp: fs_abs_def fun_eq_iff entry_at_def s'(3,5) neq_Nil_conv split: option.split)
  qed
  then have "fs_rep s' ([[] \<mapsto> Dir], [])"
    using s'(2-4) by (auto simp: fs_rep_def fs_inv_def cwd_at_def)
  moreover define u1 where "u1 = log_event m (ok_msg u s')"
  have v: "fs_view u1 = fs_view s'" "fs_st.more u1 = fs_st.more s'"
    by (simp_all add: u1_def fs_more_calls ok_msg_def theme_default_def Let_def)
  have rm: "room u1 (calls_cost boot_calls + 8000)"
    using room_view [OF v(1)] s'(6) by (simp add: boot_cost room_def)
  ultimately obtain s'' where s'': "fs_bootstrap u1 = Some s''" "fs_rep s'' (boot_files, [])" "room s'' 8000"
    "fs_st.more s'' = fs_st.more u1"
    using bootstrap_rep [OF _ rm] fs_rep_view [OF v(1)] by auto
  have "fs_st.more s'' = fs_st.more s"
    using s''(4) v(2) fs_init_more [OF s'(1)] by simp
  from tk [OF this] show thesis
    using that [OF s'(1)] tk [OF fs_init_more [OF s'(1)]] s'' b
    by (auto simp: booted_def before_fs_def u1_def)
qed

lemma before_fs_set_up:
  fixes t s :: "('io, 'a) task_st_scheme"
  assumes s: "at_boot (t\<lparr>heap_offset := 32\<rparr>) s" and t: "timer_ticks t = 0"
    and c: "length (users t) = 8" "length (g_key t) = 32"
    and e: "fs_nodes t = Map.empty" "fs_bufs t = Map.empty" "fs_snaps t = Map.empty" "snap_head t = NULL"
    and u: "same_upper s1 (sec_init s)" "same_upper s2 (crypto_set_key k s1)"
  shows "timer_ticks (sec_init s) = 0" "timer_ticks (crypto_set_key k s1) = 0"
    "before_fs t dev (blockdev_set_root (Some dev) s2)"
proof -
  have f: "users s = users t" "heap_offset s = 32" "g_key s = g_key t" "fs_nodes s = Map.empty"
    "fs_bufs s = Map.empty" "fs_snaps s = Map.empty" "snap_head s = NULL" "cpu_st.more s = cpu_st.more t"
    using s e by (simp_all add: at_boot_def same_upper_def fs_view_def)
  have a: "sec_booted (sec_init s)" "fs_view (sec_init s) = fs_view s" "cpu_st.more (sec_init s) = cpu_st.more t"
    using sec_init_table [of s] c(1) f sec_init_more [of s]
    by (simp_all add: sec_booted_def) (cases s; cases "sec_init s"; simp)
  then have b: "sec_booted s1" "fs_view s1 = fs_view s" "cpu_st.more s1 = cpu_st.more t"
    using u(1) sec_booted_upper [OF u(1)] by (simp_all add: same_upper_def)
  let ?k = "crypto_set_key k s1"
  have "\<exists>x y. ?k = s1\<lparr>g_key := x, g_key_len := y\<rparr>"
    by (auto simp: crypto_set_key_def split: prod.split)
  then obtain x y where k: "?k = s1\<lparr>g_key := x, g_key_len := y\<rparr>" by blast
  have r: "crypto_ready ?k" using crypto_ready_set_key [of s1 k] fs_viewD(8) [OF b(2)] f(3) c(2) by simp
  have tt: "timer_ticks z = 0 \<and> disk z = disk t" if "cpu_st.more z = cpu_st.more t" for z
    using that t by (cases z; cases t) simp
  show "timer_ticks (sec_init s) = 0" using tt a(3) by blast
  have "cpu_st.more ?k = cpu_st.more t" using b(3) k by simp
  then show "timer_ticks ?k = 0" using tt by blast
  have g: "fs_nodes ?k = Map.empty" "fs_bufs ?k = Map.empty" "fs_snaps ?k = Map.empty" "snap_head ?k = NULL"
    "heap_offset ?k = 32"
    using k f fs_viewD [OF b(2)] by simp_all
  have sb: "sec_booted ?k" using b(1) k sec_booted_eq [of ?k s1] by simp
  note v = fs_viewD [of s2 ?k]
  have v2: "fs_view s2 = fs_view ?k" "cpu_st.more s2 = cpu_st.more t"
    using u(2) \<open>cpu_st.more ?k = cpu_st.more t\<close> by (simp_all add: same_upper_def)
  note v = fs_viewD [OF v2(1)]
  have "crypto_ready s2" using r v(8,9) by (simp add: crypto_ready_def)
  moreover have "sec_booted s2" using sec_booted_upper [OF u(2)] sb by simp
  moreover have "sec_booted (s2\<lparr>g_root_dev := Some dev\<rparr>) = sec_booted s2" by (rule sec_booted_eq) simp_all
  ultimately show "before_fs t dev (blockdev_set_root (Some dev) s2)"
    using tt [OF v2(2)] v g by (simp add: before_fs_def blockdev_set_root_def crypto_ready_def)
qed

lemma boot_files_system_runs:
  fixes t s :: "('io, 'a) task_st_scheme"
  assumes s: "at_boot (t\<lparr>heap_offset := 32\<rparr>) s" and t: "timer_ticks t = 0"
    and c: "length (users t) = 8" "length (g_key t) = 32"
    and e: "fs_nodes t = Map.empty" "fs_bufs t = Map.empty" "fs_snaps t = Map.empty" "snap_head t = NULL"
  shows "runs (boot_files_system env s) (\<lambda>s'. booted env t s' \<and> room s' 8000)"
proof -
  define a where "a = log_event (Some ''[BOOT] Security subsystem initialized.'') (console_write Kernel_main_c [newline]
    (console_write Kernel_main_c (sec_get_current_username (console_write Kernel_main_c
       ''Security subsystem initialized. Current user: '' (sec_init s)))
     (console_write Kernel_main_c ''Security subsystem initialized. Current user: '' (sec_init s))))"
  define b where "b = log_event (Some ''[BOOT] Filesystem encryption key installed.'')
    (ok_msg ''Filesystem encryption key installed.'' (crypto_set_key ''hypnos-default-key'' a))"
  let ?dev = "fst (ata_pio_init (be_ports env) t)"
  define d where "d = blockdev_set_root (Some ?dev) (snd (ata_pio_init (be_ports env) b))"
  have dev: "ata_pio_init (be_ports env) b = (?dev, snd (ata_pio_init (be_ports env) b))"
    by (simp add: ata_pio_init_def)
  have u: "same_upper a (sec_init s)" "same_upper (snd (ata_pio_init (be_ports env) b)) (crypto_set_key ''hypnos-default-key'' a)"
    by (simp_all add: a_def b_def ata_pio_init_def)
  note set_up = before_fs_set_up(1,2) [OF s t c e u] before_fs_set_up(3) [OF s t c e u, of ?dev]
  have ticks: "timer_ticks a = 0" "timer_ticks b = 0"
    using set_up(1,2) by (simp_all add: a_def b_def)
  obtain s' where s': "fs_init d = Some s'" "timer_ticks s' = 0"
    "\<exists>s''. fs_bootstrap (log_event (Some ''[BOOT] Filesystem initialized on /dev/ata0 (8GB).'')
        (ok_msg ''Filesystem initialized.'' s')) = Some s'' \<and> booted env t s'' \<and> room s'' 8000"
    using set_up(3) unfolding d_def by (rule fs_up)
  then obtain s'' where s'': "fs_bootstrap (log_event (Some ''[BOOT] Filesystem initialized on /dev/ata0 (8GB).'')
        (ok_msg ''Filesystem initialized.'' s')) = Some s''" "booted env t s''" "room s'' 8000" by blast
  then have "timer_ticks s'' = 0" by (simp add: booted_def)
  moreover have "boot_files_system env s =
      (case ata_pio_init (be_ports env) b of (ata0, st) \<Rightarrow> fs_init (blockdev_set_root (Some ata0) st) \<bind> (\<lambda>st.
        sleep_ticks sleep_timer (ok_msg ''Filesystem initialized.'' st) \<bind> (\<lambda>st.
        sleep_ticks sleep_timer (log_event (Some ''[BOOT] Filesystem initialized on /dev/ata0 (8GB).'') st) \<bind> (\<lambda>st.
        fs_bootstrap st \<bind> sleep_ticks sleep_timer))))"
    using set_up(1,2) ticks unfolding boot_files_system_def Let_def by (simp add: a_def b_def)
  ultimately have "boot_files_system env s = Some s''"
    using s' s'' by (subst (asm) dev) (simp add: d_def)
  then show ?thesis using s'' by simp
qed

lemma boot_interrupts_runs:
  fixes t s :: "('io, 'a) task_st_scheme"
  assumes b: "booted env t s" "room s 8000"
  shows "runs (boot_interrupts env s) (\<lambda>s'. booted env t s' \<and> room s' 8000 \<and> same_upper s' s)"
proof -
  note sleep = runs_sleep [where n = sleep_timer, of s]
  have tk: "timer_ticks s = 0" using b(1) by (simp add: booted_def)
  have "runs (boot_interrupts env s) (at_boot s)"
    unfolding boot_interrupts_def Let_def
    apply (rule runs_bind, rule sleep, (simp add: tk; fail))+
    by (rule sleep, simp)
  then show ?thesis
  proof (rule runs_mono)
    fix x assume x: "at_boot s x"
    then have "fs_view x = fs_view s" by (simp add: at_boot_def same_upper_def)
    then show "booted env t x \<and> room x 8000 \<and> same_upper x s"
      using x booted_upper [of x s] b room_view [of x s 8000] by (auto simp: at_boot_def)
  qed
qed

subsection \<open>The first task\<close>

lemma booted_upper_eq: "same_upper s u \<Longrightarrow> booted env t s = booted env t u"
  using booted_upper [of s u] booted_upper [of u s] by (auto simp: same_upper_def)

text \<open>What the task fields do not touch.\<close>

lemma booted_tasks [simp]:
  "booted env t (s\<lparr>current_task := p\<rparr>) = booted env t s" "booted env t (s\<lparr>task_head := p\<rparr>) = booted env t s"
  "booted env t (s\<lparr>next_id := i\<rparr>) = booted env t s" "booted env t (s\<lparr>tasks := ts\<rparr>) = booted env t s"
  "booted env t (s\<lparr>started := l\<rparr>) = booted env t s" "booted env t (con_call f c s) = booted env t s"
  "booted env t (log_event m s) = booted env t s"
proof -
  have eq: "booted env t x = booted env t s"
    if "fs_view x = fs_view s" "users x = users s" "user_count x = user_count s"
      "current_user_idx x = current_user_idx s" "timer_ticks x = timer_ticks s \<and> disk x = disk s \<and> g_root_dev x = g_root_dev s"
    for x
    using fs_rep_view [OF that(1)] sec_booted_eq [OF that(2-4)] that(5) by (simp add: booted_def)
  show "booted env t (s\<lparr>current_task := p\<rparr>) = booted env t s" "booted env t (s\<lparr>task_head := p\<rparr>) = booted env t s"
    "booted env t (s\<lparr>next_id := i\<rparr>) = booted env t s" "booted env t (s\<lparr>tasks := ts\<rparr>) = booted env t s"
    "booted env t (s\<lparr>started := l\<rparr>) = booted env t s"
    by (rule eq; simp add: fs_view_def)+
  show "booted env t (con_call f c s) = booted env t s" "booted env t (log_event m s) = booted env t s"
    by (rule booted_upper_eq; simp)+
qed

lemma booted_kmalloc:
  assumes "booted env t s" "room s k" "small_size sz" "0 < sz" "unat sz \<le> k"
  shows "\<exists>p s'. kmalloc sz s = (p, s') \<and> p \<noteq> NULL \<and> s' = s\<lparr>heap_offset := heap_offset s + sz\<rparr> \<and>
    booted env t s' \<and> room s' (k - unat sz) \<and> kmem_wf s' \<and> unat p < heap_top s' \<and> heap_top s \<le> heap_top s'"
proof -
  obtain p s' where m: "kmalloc sz s = (p, s')" by (rule prod.exhaust)
  obtain K where inv: "fs_ok K s" using assms(1) by (auto simp: booted_def fs_rep_def fs_inv_def)
  show ?thesis using m inv assms(3,4)
  proof (cases rule: fs_kmalloc)
    case oom
    then show ?thesis using assms(2,5) by (simp add: room_def)
  next
    case ok
    have "fs_abs s' = fs_abs s" "list_all cstring cs \<Longrightarrow>
        fs_lookup s' (fs_root s') cs = fs_lookup s (fs_root s) cs" for cs
      using same_nodes_abs [OF inv, of s'] ok(2) by simp_all
    then have "fs_rep s' (boot_files, [])"
      using assms(1) ok(2,3) by (auto simp: booted_def fs_rep_def fs_inv_def cwd_at_def)
    moreover have "sec_booted s' = sec_booted s" by (rule sec_booted_eq) (simp_all add: ok(2))
    ultimately have "booted env t s'" using assms(1) ok(2) by (simp add: booted_def)
    moreover have "kmem_wf s'" using ok(3) by (rule fs_okD)
    moreover have "room s' (k - unat sz)" using ok(9) assms(2,5) by (simp add: room_def)
    moreover have "heap_top s \<le> heap_top s'" using ok(9) by (simp add: heap_top_def)
    ultimately show ?thesis using ok m by blast
  qed
qed

lemma room_calls [simp]:
  fixes s :: "('d, 'a) task_st_scheme"
  shows "room (con_call f c s) k = room s k" "room (log_event m s) k = room s k"
  by (rule room_view; simp)+

lemma task_calls:
  fixes s :: "('d, 'a) task_st_scheme"
  shows "tasks (log_event m s) = tasks s" "tasks (con_call f c s) = tasks s"
    "task_head (log_event m s) = task_head s" "task_head (con_call f c s) = task_head s"
    "current_task (log_event m s) = current_task s" "current_task (con_call f c s) = current_task s"
    "next_id (log_event m s) = next_id s" "next_id (con_call f c s) = next_id s"
    "started (log_event m s) = started s" "started (con_call f c s) = started s"
  by (cases m; simp add: log_event_def debugcon_write_eq con_call_def Let_def)+

text \<open>The state in which the scheduler enters the first task.\<close>

definition first_task :: "ptr \<Rightarrow> u32 \<Rightarrow> string \<Rightarrow> ('d, 'a) task_st_scheme \<Rightarrow> bool" where
  "first_task p entry name s \<longleftrightarrow> sched_ok [p] s \<and> current_task s = p \<and>
     (\<exists>k st. tasks s p = Some k \<and> r_eip (t_regs k) = entry \<and> t_name k = name \<and> t_id k = 1 \<and>
       started s = st @ [(r_esp (t_regs k), entry)])"

lemma start_first:
  fixes t s :: "('io, 'a) task_st_scheme"
  assumes b: "booted env t s" "room s 8000" and h: "task_head s = NULL" "next_id s = 1"
  shows "\<exists>p s'. task_create e n s \<bind> (\<lambda>(_, x). scheduler_start (log_event m x)) = Some (p, s') \<and>
    booted env t s' \<and> first_task p e n s'"
proof -
  have sz: "small_size sizeof_task" "0 < sizeof_task" "unat sizeof_task \<le> 8000"
    "small_size STACK_SIZE" "0 < STACK_SIZE" "unat STACK_SIZE \<le> 8000 - unat sizeof_task"
    by (simp_all add: small_size_def sizeof_task_def STACK_SIZE_def)
  obtain p s1 where p: "kmalloc sizeof_task s = (p, s1)" "p \<noteq> NULL"
    "s1 = s\<lparr>heap_offset := heap_offset s + sizeof_task\<rparr>" "booted env t s1" "room s1 (8000 - unat sizeof_task)"
    "unat p < heap_top s1"
    using booted_kmalloc [OF b sz(1-3)] by auto
  obtain q s2 where q: "kmalloc STACK_SIZE s1 = (q, s2)" "q \<noteq> NULL"
    "s2 = s1\<lparr>heap_offset := heap_offset s1 + STACK_SIZE\<rparr>" "booted env t s2" "kmem_wf s2"
    "heap_top s1 \<le> heap_top s2"
    using booted_kmalloc [OF p(4,5) sz(4-6)] by auto
  have s2: "task_head s2 = NULL" "next_id s2 = 1" using h p(3) q(3) by simp_all
  define k where "k = \<lparr>t_regs = zero_regs\<lparr>r_eip := e, r_esp := q + STACK_SIZE, r_ebp := q + STACK_SIZE,
      r_eflags := 0x202, r_cs := 0x08, r_ds := 0x10, r_es := 0x10, r_fs := 0x10, r_gs := 0x10, r_ss := 0x10\<rparr>,
    t_stack_base = q, t_stack_size = STACK_SIZE, t_next = p, t_name = n, t_id = 1\<rparr>"
  define y where "y = s2\<lparr>next_id := 2, task_head := p, tasks := (tasks s2)(p \<mapsto> k)\<rparr>"
  define x where "x = log_event m (log_event (Some n) (log_event (Some ''[SCHED] task created.'') y))"
  have c: "task_create e n s = Some (p, log_event (Some n) (log_event (Some ''[SCHED] task created.'') y))"
    using p(1,2) q(1,2) s2 by (simp add: task_create_def task_append_def set_next_def k_def y_def Let_def)
  have "ring [p] y" using p(2) by (simp add: ring_def y_def k_def)
  then have y: "sched_ok [p] y" "booted env t y" "room y 0"
    using p(6) q(4,5,6) by (simp_all add: sched_ok_def y_def heap_top_def kmem_wf_def room_def KHEAP_SIZE_def)
  then have x: "sched_ok [p] x" "booted env t x" by (simp_all add: x_def sched_ok_calls)
  have f: "task_head x = p" "tasks x p = Some k"
    by (simp_all add: x_def task_calls) (simp_all add: y_def)
  define z where "z = log_event (Some n) (log_event (Some ''[SCHED] scheduler_start: starting with first task.'')
    (x\<lparr>current_task := p\<rparr>))"
  have "scheduler_start x = Some (p, z\<lparr>started := started x @ [(q + STACK_SIZE, e)]\<rparr>)"
    using p(2) f by (simp add: scheduler_start_def z_def task_calls k_def)
  moreover have "sched_ok [p] (x\<lparr>current_task := p\<rparr>)"
    using x(1) by (simp add: sched_ok_def ring_def heap_top_def kmem_wf_def)
  then have "sched_ok [p] z" by (simp add: z_def sched_ok_calls)
  then have "sched_ok [p] (z\<lparr>started := started x @ [(q + STACK_SIZE, e)]\<rparr>)"
    by (simp add: sched_ok_def ring_def heap_top_def kmem_wf_def)
  then have "first_task p e n (z\<lparr>started := started x @ [(q + STACK_SIZE, e)]\<rparr>)"
    using f(2) by (simp add: first_task_def z_def task_calls k_def)
  moreover have "booted env t (z\<lparr>started := started x @ [(q + STACK_SIZE, e)]\<rparr>)" using x(2) by (simp add: z_def)
  ultimately show ?thesis using c by (simp add: x_def)
qed

lemma boot_tasks_runs:
  fixes t s :: "('io, 'a) task_st_scheme"
  assumes b: "booted env t s" "room s 8000"
  shows "\<exists>p s'. boot_tasks env s = Some (p, s') \<and> booted env t s' \<and>
    first_task p (be_shell_thread env) ''shell'' s'"
proof -
  define a where "a = task_init s"
  have a: "booted env t a" "room a 8000" "task_head a = NULL" "next_id a = 1"
    using b by (simp_all add: a_def task_init_def task_calls) (simp add: room_def)
  define x where "x = log_event (Some ''[BOOT] Hypnos banner displayed.'')
    (banner ''Starting Hypnos...'' (banner ''=== Hypnos kernel booted ==='' (print_ascii_banner
      (con_call Kernel_main_c Con_clear (con_call Kernel_main_c Con_clear
        (log_event (Some ''[BOOT] Task subsystem initialized.'') a))))))"
  have "booted env t x" "room x 8000" "task_head x = NULL" "next_id x = 1"
    using a by (simp_all add: x_def banner_def print_ascii_banner_def theme_banner_def theme_default_def Let_def task_calls)
  from start_first [OF this] show ?thesis
    by (simp add: boot_tasks_def x_def a_def Let_def)
qed

text \<open>
  What the loader leaves: the memory of a kernel that has not run, with its static arrays at
  their sizes, and an image that ends below 2 GB.
\<close>

definition cold :: "'io boot_env \<Rightarrow> ('io, 'a) task_st_scheme \<Rightarrow> bool" where
  "cold env st \<longleftrightarrow> unat (be_kernel_end env) \<le> 2 ^ 31 \<and> timer_ticks st = 0 \<and> length (users st) = 8 \<and>
     length (g_key st) = 32 \<and> fs_nodes st = Map.empty \<and> fs_bufs st = Map.empty \<and> fs_snaps st = Map.empty \<and>
     snap_head st = NULL"

lemma kernel_main_runs:
  fixes st :: "('io, 'a) task_st_scheme"
  assumes "cold env st"
  obtains p st' where "kernel_main env st = Some (p, st')" "booted env st st'"
    "first_task p (be_shell_thread env) ''shell'' st'"
proof -
  have c: "timer_ticks st = 0" "unat (be_kernel_end env) \<le> 2 ^ 31" "length (users st) = 8" "length (g_key st) = 32"
    "fs_nodes st = Map.empty" "fs_bufs st = Map.empty" "fs_snaps st = Map.empty" "snap_head st = NULL"
    using assms by (simp_all add: cold_def)
  obtain s1 where s1: "boot_machine env st = Some s1" "at_boot (st\<lparr>heap_offset := 32\<rparr>) s1"
    using boot_machine_runs [OF c(1,2)] by (auto simp: runs_def)
  obtain s2 where s2: "boot_files_system env s1 = Some s2" "booted env st s2" "room s2 8000"
    using boot_files_system_runs [OF s1(2) c(1,3-8)] by (auto simp: runs_def)
  obtain s3 where s3: "boot_interrupts env s2 = Some s3" "booted env st s3" "room s3 8000"
    using boot_interrupts_runs [OF s2(2,3)] by (auto simp: runs_def)
  show thesis
    using boot_tasks_runs [OF s3(2,3)] s1(1) s2(1) s3(1) that by (auto simp: kernel_main_def)
qed

text \<open>
  C8: The kernel boots. From the memory of a kernel that has not run (\<open>cold\<close>), \<open>kernel_main\<close>
  reaches the scheduler, whatever the linker, the interrupt controllers and the disk provide:
  every delay returns, no step faults, and the heap suffices. Then the scheduler enters the one
  task, whose entry point is \<open>shell_thread\<close> and whose stack it gives to the processor; the
  file system invariant holds and the tree is the one that \<open>fs_bootstrap\<close> lays out, with the
  root as current directory; the users are root and guest with root logged in; the disk is the
  root device, and no boot step has touched it. Interrupts that arrive after the boot has enabled
  them and before the first task runs are not modelled.
\<close>

theorem kernel_main_boots:
  fixes st :: "('io, 'a) task_st_scheme"
  assumes "cold env st"
  shows "\<exists>p st'. kernel_main env st = Some (p, st') \<and> first_task p (be_shell_thread env) ''shell'' st' \<and>
    fs_inv st' \<and> fs_abs st' = boot_files \<and> cwd_at st' [] \<and>
    sec_table st' = boot_table \<and> sec_current st' = Some (''root'', 31) \<and>
    g_root_dev st' = Some (fst (ata_pio_init (be_ports env) st)) \<and> disk st' = disk st"
proof -
  obtain p st' where "kernel_main env st = Some (p, st')" "booted env st st'"
    "first_task p (be_shell_thread env) ''shell'' st'"
    using assms by (rule kernel_main_runs)
  then show ?thesis by (auto simp: booted_def fs_rep_def sec_booted_def)
qed

definition env0 :: "drive boot_env" where
  "env0 = \<lparr>be_gdt = 0x104000, be_tss = 0x104100, be_kernel_tss_stack = 0x105000, be_idt = 0x106000,
     be_isr = (\<lambda>n. 0x100000 + 16 * of_nat n), be_page_tables = 0x110000, be_page_directory = 0x10F000,
     be_kernel_end = 0x210000, be_ports = drive_ports, be_mask1 = 0xB8, be_mask2 = 0x8E,
     be_irq = (\<lambda>n. 0x101000 + 16 * of_nat n), be_isr80_syscall = 0x102000, be_shell_thread = 0x103000\<rparr>"

definition cold_st :: "drive task_st" where
  "cold_st = (kbd_st.extend (shell_st.extend (shell_st_of None drive0)
       \<lparr>shift_pressed = False, ctrl_pressed = False, alt_pressed = False, caps_lock = False\<rparr>)
     \<lparr>tasks = Map.empty, current_task = NULL, task_head = NULL, next_id = 1, switches = [], started = []\<rparr>)
     \<lparr>timer_ticks := 0, users := replicate 8 \<lparr>usr_id = 0, usr_name = [], usr_perms = 0\<rparr>, g_key := replicate 32 0,
       fs_nodes := Map.empty, fs_bufs := Map.empty, fs_snaps := Map.empty, snap_head := NULL\<rparr>"

theorem kernel_main_boots_witness:
  "\<exists>p st'. kernel_main env0 cold_st = Some (p, st') \<and> first_task p 0x103000 ''shell'' st' \<and>
    fs_abs st' = boot_files"
proof -
  have "cold env0 cold_st" by (simp add: cold_def env0_def cold_st_def)
  from kernel_main_boots [OF this] show ?thesis by (auto simp: env0_def)
qed

end
