(* ===== verification/Shell_Session.thy ===== *)
theory Shell_Session
  imports Shell Ata
begin

text \<open>
  Properties of the editor and the shell as a user meets them: what a session of the editor
  leaves in the file, which commands the permissions stop, and what the commands on the disk
  and the working directory do. They rest on the contracts of the file system, of the users
  and of the block device.
\<close>

subsection \<open>Reading the file system through a view\<close>

lemma find_loop_transfer:
  "find_loop s cur name = Some r \<Longrightarrow> fs_nodes t = fs_nodes s \<Longrightarrow> find_loop t cur name = Some r"
proof (induction rule: find_loop.raw_induct [rotated, consumes 1])
  case (1 find_loop' s cur name r)
  note IH = 1(1) [OF _ 1(3)]
  from 1(2,3) IH show ?case
    by (subst find_loop.simps) (auto split: if_splits elim!: bind_SomeE)
qed

lemma find_in_dir_view:
  assumes "fs_view s = fs_view t"
  shows "fs_find_in_dir s d name = fs_find_in_dir t d name"
proof -
  note n = fs_viewD(2) [OF assms]
  have "find_loop s c name = find_loop t c name" for c
    using find_loop_transfer [of s c name _ t] find_loop_transfer [of t c name _ s] n
    by (metis option.exhaust)
  then show ?thesis by (simp add: fs_find_in_dir_def n)
qed

lemma content_view: "fs_view s = fs_view t \<Longrightarrow> content s p = content t p"
  by (simp add: content_def read_bytes_def crypto_decrypt_def crypto_apply_def fs_viewD [of s t]
      split: option.splits)

subsection \<open>The editor\<close>

fun editor_keys :: "string \<Rightarrow> ('d, 'a) ed_st_scheme \<Rightarrow> ('d, 'a) ed_st_scheme option" where
  "editor_keys [] st = Some st"
| "editor_keys (c # cs) st = do { st \<leftarrow> editor_handle_key c st; editor_keys cs st }"

text \<open>The reference: what the keys of a session make of a text.\<close>

definition text_char :: "char \<Rightarrow> bool" where
  "text_char c \<longleftrightarrow> c = newline \<or> 32 \<le> ord c \<and> ord c \<le> 126"

fun edited :: "string \<Rightarrow> string \<Rightarrow> string" where
  "edited t [] = t"
| "edited t (c # cs) =
     edited (if c = CHR 0x08 then butlast t
             else if text_char c \<and> length t < 4095 then t @ [c] else t) cs"

lemma editor_handle_key_step:
  assumes "editor_active st" "c \<noteq> escape"
  obtains o' where "editor_handle_key c st = Some (st\<lparr>con_out := o', editor_buf := edited (editor_buf st) [c]\<rparr>)"
proof -
  have "editor_handle_key c st = Some (st\<lparr>con_out := con_out (the (editor_handle_key c st)),
      editor_buf := edited (editor_buf st) [c]\<rparr>)"
    using assms by (auto simp: editor_handle_key_def text_char_def EDITOR_BUF_SIZE_def con_call_def)
  then show thesis by (rule that)
qed

lemma editor_keys_append: "editor_keys (xs @ ys) st = do { st \<leftarrow> editor_keys xs st; editor_keys ys st }"
proof (induction xs arbitrary: st)
  case (Cons c xs)
  then show ?case by (cases "editor_handle_key c st") auto
qed simp

lemma editor_keys_run:
  assumes "editor_active st" "escape \<notin> set ks"
  obtains o' where "editor_keys ks st = Some (st\<lparr>con_out := o', editor_buf := edited (editor_buf st) ks\<rparr>)"
  using assms
proof (induction ks arbitrary: st thesis)
  case Nil
  show ?case by (rule Nil(1) [of "con_out st"]) simp
next
  case (Cons c ks)
  obtain o1 where s: "editor_handle_key c st = Some (st\<lparr>con_out := o1, editor_buf := edited (editor_buf st) [c]\<rparr>)"
    using editor_handle_key_step [of st c] Cons.prems by auto
  obtain o2 where "editor_keys ks (st\<lparr>con_out := o1, editor_buf := edited (editor_buf st) [c]\<rparr>) =
      Some (st\<lparr>con_out := o2, editor_buf := edited (edited (editor_buf st) [c]) ks\<rparr>)"
    using Cons.IH [of "st\<lparr>con_out := o1, editor_buf := edited (editor_buf st) [c]\<rparr>"] Cons.prems by auto
  then show ?case using s by (intro Cons.prems(1) [of o2]) simp
qed

lemma con_only_put_line [simp]: "con_only st s \<Longrightarrow> con_only st (put_line f line row s)"
proof -
  have "con_only s (fold (\<lambda>x. con_call f (Con_put_at (line ! x) x row)) xs s)" for xs
  proof (induction xs rule: rev_induct)
    case (snoc x xs)
    then show ?case by simp
  qed simp
  then show "con_only st s \<Longrightarrow> con_only st (put_line f line row s)"
    unfolding put_line_def by (rule con_only_trans [rotated])
qed

lemma con_only_theme [simp]:
  "con_only st s \<Longrightarrow> con_only st (theme_default f s)" "con_only st s \<Longrightarrow> con_only st (theme_banner f s)"
  by (simp_all add: theme_default_def theme_banner_def)

lemma con_only_view:
  assumes "con_only s t"
  shows "fs_view t = fs_view s"
proof -
  have "fs_view (s\<lparr>con_out := con_out t\<rparr>) = fs_view s" by (simp add: fs_view_def)
  then show ?thesis using assms by (simp add: con_only_def)
qed

lemma editor_start_eq:
  assumes "name \<noteq> []" "length name < 32"
  obtains o' where "editor_start (Some name) st =
    st\<lparr>con_out := o', editor_name := name, editor_buf := [], editor_active := True\<rparr>"
proof -
  let ?s = "st\<lparr>editor_name := name, editor_buf := [], editor_active := True\<rparr>"
  have "con_only ?s (editor_start (Some name) st)"
    using assms by (simp add: editor_start_def editor_draw_status_def EDITOR_NAME_MAX_def copy_upto_eq Let_def)
  then obtain o' where "editor_start (Some name) st = ?s\<lparr>con_out := o'\<rparr>"
    unfolding con_only_def by blast
  then show thesis by (intro that [of o']) simp
qed

lemma fs_view_ed [simp, frame_simps]:
  "fs_view (st\<lparr>editor_name := n\<rparr>) = fs_view st" "fs_view (st\<lparr>editor_buf := b\<rparr>) = fs_view st"
  "fs_view (st\<lparr>editor_active := a\<rparr>) = fs_view st" "fs_view (s\<lparr>con_out := x\<rparr>) = fs_view s"
  by (simp_all add: fs_view_def)

text \<open>
  C37: A session of the editor saves what was typed. Whatever keys are pressed after the editor
  starts, let \<open>text\<close> be what they make of an empty text: a printable character or a newline
  goes to its end up to 4095 characters, a backspace takes the last one away, every other key
  does nothing. If the text is not empty and fits on the heap, the escape key ends the
  session, and the file of that name in the working directory, new or not, has exactly the
  text as its content; every other file keeps its own.
\<close>

theorem editor_session_saves:
  assumes "fs_inv st" "valid_name name" "escape \<notin> set keys" "text = edited [] keys" "text \<noteq> []"
    and "room st (length text + 57)"
    and "\<And>p. fs_find_in_dir st (fs_cwd st) name = Some p \<Longrightarrow> \<not> dir_at (fs_nodes st) p"
  shows "\<exists>st' p. editor_keys (keys @ [escape]) (editor_start (Some name) st) = Some st' \<and>
    \<not> editor_is_active st' \<and> fs_inv st' \<and>
    fs_find_in_dir st' (fs_cwd st) name = Some p \<and> content st' p = Some (map of_char text) \<and>
    (\<forall>q. q \<noteq> p \<and> fs_nodes st q \<noteq> None \<longrightarrow> content st' q = content st q)"
proof -
  have nm: "name \<noteq> []" "length name < 32" using assms(2) by (auto simp: valid_name_def MAX_NAME_LEN_def)
  obtain o1 where s1: "editor_start (Some name) st =
      st\<lparr>con_out := o1, editor_name := name, editor_buf := [], editor_active := True\<rparr>" (is "_ = ?s1")
    by (rule editor_start_eq [OF nm, of st])
  obtain o2 where s2: "editor_keys keys ?s1 = Some (?s1\<lparr>con_out := o2, editor_buf := text\<rparr>)"
    using editor_keys_run [of ?s1 keys] assms(3,4) by auto
  define s where "s = ?s1\<lparr>con_out := o2, editor_buf := text\<rparr>"
  have v: "fs_view s = fs_view st" by (simp add: s_def)
  note n = fs_viewD(2,6) [OF v]
  have len: "length text \<le> 4095"
  proof -
    have "length (edited t ks) \<le> 4095" if "length t \<le> 4095" for t ks
      using that by (induction ks arbitrary: t) auto
    then show ?thesis using assms(4) by simp
  qed
  have "data_fits text" using len by (simp add: data_fits_def)
  then obtain s3 p where w: "fs_write_cwd (Some name) (Some text) s = Some (0, s3)" "fs_inv s3"
    "fs_find_in_dir s3 (fs_cwd st) name = Some p" "content s3 p = Some (map of_char text)"
    "\<forall>q. q \<noteq> p \<and> fs_nodes st q \<noteq> None \<longrightarrow> content s3 q = content st q"
    using fs_write_cwd_stores [of s name "text"] assms(1,2,6,7)
    by (auto simp: fs_inv_view [OF v] room_view [OF v] n find_in_dir_view [OF v] content_view [OF v])
  obtain e where e: "editor_handle_key escape s = Some e" "fs_view e = fs_view s3" "\<not> editor_active e"
    using w(1) assms(5) by (simp add: editor_handle_key_def editor_save_file_def s_def)
  have "editor_keys (keys @ [escape]) (editor_start (Some name) st) = Some e"
    using s2 e(1) by (simp add: editor_keys_append s1 s_def)
  then show ?thesis
    using w(2-5) e(3)
    by (intro exI [of _ e] exI [of _ p])
      (simp add: editor_is_active_def fs_inv_view [OF e(2)] find_in_dir_view [OF e(2)] content_view [OF e(2)])
qed

lemma shell_st0_inv: "fs_inv shell_st0" "unat (heap_offset shell_st0) = 56"
  "fs_find_in_dir shell_st0 (fs_cwd shell_st0) nm = Some NULL" "fs_nodes shell_st0 NULL = None"
proof -
  note v = shell_st0_view
  show "fs_inv shell_st0" using fs_inv_view [OF v] fs_st1_ok(1) by (auto simp: fs_inv_def)
  show "unat (heap_offset shell_st0) = 56" using fs_viewD(1) [OF v] fs_st1_ok(5) by simp
  show "fs_find_in_dir shell_st0 (fs_cwd shell_st0) nm = Some NULL"
    using find_in_dir_view [OF v] fs_viewD(6) [OF v] fs_st1_ok(2) fs_st1_find [of nm] by metis
  show "fs_nodes shell_st0 NULL = None" using fs_viewD(2) [OF v] fs_st1_ok(3,4) by simp
qed

theorem editor_session_saves_witness:
  "\<exists>st' p. editor_keys (''hellp'' @ [CHR 0x08] @ ''o'' @ [escape]) (editor_start (Some ''notes'') shell_st0) = Some st' \<and>
     fs_find_in_dir st' (fs_cwd shell_st0) ''notes'' = Some p \<and>
     content st' p = Some [0x68, 0x65, 0x6C, 0x6C, 0x6F]"
proof -
  have v: "valid_name ''notes''" by (simp add: valid_name_def MAX_NAME_LEN_def)
  have t: "''hello'' = edited [] (''hellp'' @ [CHR 0x08] @ ''o'')"
    by (simp add: text_char_def ord_def)
  have r: "room shell_st0 (length ''hello'' + 57)" by (simp add: room_def shell_st0_inv(2))
  have "\<not> dir_at (fs_nodes shell_st0) p" if "fs_find_in_dir shell_st0 (fs_cwd shell_st0) ''notes'' = Some p" for p
    using that by (simp add: shell_st0_inv(3,4) dir_at_def)
  then show ?thesis
    using editor_session_saves [OF shell_st0_inv(1) v _ t _ r] by (auto simp: ord_def)
qed

subsection \<open>Permissions\<close>

lemma lookup_view: "fs_view s = fs_view t \<Longrightarrow> fs_lookup s d cs = fs_lookup t d cs"
  by (induction cs arbitrary: d) (auto simp: find_in_dir_view [of s t] split: option.splits)

lemma path_base_view: "fs_view s = fs_view t \<Longrightarrow> path_base s path = path_base t path"
  by (simp add: path_base_def fs_viewD [of s t])

lemma create_target_view: "fs_view s = fs_view t \<Longrightarrow> create_target s path = create_target t path"
  by (simp add: create_target_def lookup_view [of s t] path_base_view [of s t] fs_viewD [of s t]
      find_in_dir_view [of s t])

definition logged :: "string \<Rightarrow> ('d, 'a) shell_st_scheme \<Rightarrow> ('d, 'a) shell_st_scheme" where
  "logged cmd st = log_event (Some cmd) (log_event (Some ''[SHELL] command'') st)"

lemma sec_check_perm_calls [simp, frame_simps]:
  "sec_check_perm p (log_event m st) = sec_check_perm p st"
  "sec_check_perm p (con_call f c st) = sec_check_perm p st"
  by (simp_all add: sec_check_perm_def sec_get_current_user_def frame_simps)

lemma dev_calls [simp, frame_simps]:
  "disk (log_event m st) = disk st" "g_root_dev (log_event m st) = g_root_dev st"
  "disk (con_call f c st) = disk st" "g_root_dev (con_call f c st) = g_root_dev st"
  by (cases m; simp add: log_event_Some con_call_def)+

lemma logged_simps [simp, frame_simps]:
  "fs_view (logged cmd st) = fs_view st" "sec_check_perm p (logged cmd st) = sec_check_perm p st"
  "sec_table (logged cmd st) = sec_table st" "sec_current (logged cmd st) = sec_current st"
  "disk (logged cmd st) = disk st" "g_root_dev (logged cmd st) = g_root_dev st"
  by (simp_all add: logged_def frame_simps)

text \<open>The commands whose branch begins with a permission check, and what they ask for.\<close>

definition shell_permissions :: "(string \<times> u32) list" where
  "shell_permissions =
     [(''mkdir '', PERM_WRITE), (''write '', PERM_WRITE), (''rm '', PERM_WRITE), (''rmdir '', PERM_WRITE),
      (''mv '', PERM_WRITE), (''cat '', PERM_READ), (''cp '', PERM_READ),
      (''snap-create '', PERM_SNAP), (''snap-restore '', PERM_SNAP)]"

lemma shell_execute_branches:
  "shell_execute (''mkdir '' @ arg) st = returns (sh_mkdir arg (logged (''mkdir '' @ arg) st))"
  "shell_execute (''write '' @ arg) st = returns (sh_write_file arg (logged (''write '' @ arg) st))"
  "shell_execute (''rm '' @ arg) st = returns (sh_rm arg (logged (''rm '' @ arg) st))"
  "shell_execute (''rmdir '' @ arg) st = returns (sh_rmdir arg (logged (''rmdir '' @ arg) st))"
  "shell_execute (''mv '' @ arg) st = returns (sh_mv arg (logged (''mv '' @ arg) st))"
  "shell_execute (''cat '' @ arg) st = returns (sh_cat arg (logged (''cat '' @ arg) st))"
  "shell_execute (''cp '' @ arg) st = returns (sh_cp arg (logged (''cp '' @ arg) st))"
  "shell_execute (''snap-create '' @ arg) st = returns (sh_snap_create arg (logged (''snap-create '' @ arg) st))"
  "shell_execute (''snap-restore '' @ arg) st = returns (sh_snap_restore arg (logged (''snap-restore '' @ arg) st))"
  "shell_execute (''touch '' @ arg) st = returns (cmd_touch (Some arg) (logged (''touch '' @ arg) st))"
  "shell_execute ''cd..'' st = returns (cmd_cd (Some ''..'') (logged ''cd..'' st))"
  "shell_execute (''diskwrite '' @ arg) st = returns (cmd_diskwrite arg (logged (''diskwrite '' @ arg) st))"
  "shell_execute (''diskread '' @ arg) st = returns (cmd_diskread arg (logged (''diskread '' @ arg) st))"
  by (simp_all add: shell_execute_def logged_def numeral_eq_Suc)

lemma sh_denied:
  "sec_check_perm PERM_WRITE st = 0 \<Longrightarrow> sh_mkdir arg st = Some (snd (sec_require_perm PERM_WRITE (Some ''create directory'') st))"
  "sec_check_perm PERM_READ st = 0 \<Longrightarrow> sh_cat arg st = Some (snd (sec_require_perm PERM_READ (Some ''read file'') st))"
  "sec_check_perm PERM_SNAP st = 0 \<Longrightarrow> sh_snap_create arg st = Some (snd (sec_require_perm PERM_SNAP (Some ''snapshot create'') st))"
  "sec_check_perm PERM_SNAP st = 0 \<Longrightarrow> sh_snap_restore arg st = Some (snd (sec_require_perm PERM_SNAP (Some ''snapshot restore'') st))"
  "sec_check_perm PERM_WRITE st = 0 \<Longrightarrow> \<exists>u. sh_write_file arg st =
     Some (if u then sh_line ''Usage: write <name> <text>'' st else snd (sec_require_perm PERM_WRITE (Some ''write file'') st))"
  "sec_check_perm PERM_WRITE st = 0 \<Longrightarrow> \<exists>u. sh_rm arg st =
     Some (if u then sh_line ''Usage: rm <file>'' st else snd (sec_require_perm PERM_WRITE (Some ''remove file'') st))"
  "sec_check_perm PERM_WRITE st = 0 \<Longrightarrow> \<exists>u. sh_rmdir arg st =
     Some (if u then sh_line ''Usage: rmdir <dir>'' st else snd (sec_require_perm PERM_WRITE (Some ''remove directory'') st))"
  "sec_check_perm PERM_WRITE st = 0 \<Longrightarrow> \<exists>u. sh_mv arg st =
     Some (if u then sh_line ''Usage: mv <old> <new>'' st else snd (sec_require_perm PERM_WRITE (Some ''rename/move'') st))"
  "sec_check_perm PERM_READ st = 0 \<Longrightarrow> \<exists>u. sh_cp arg st =
     Some (if u then sh_line ''Usage: cp <src> <dest>'' st else snd (sec_require_perm PERM_READ (Some ''copy file'') st))"
  by (auto simp: sh_mkdir_def sh_cat_def sh_snap_create_def sh_snap_restore_def sh_write_file_def sh_rm_def
      sh_rmdir_def sh_mv_def sh_cp_def sec_require_perm_eq Let_def split: prod.splits)

text \<open>What a refused command leaves alone.\<close>

definition untouched :: "('d, 'a) shell_st_scheme \<Rightarrow> ('d, 'a) shell_st_scheme \<Rightarrow> bool" where
  "untouched st s \<longleftrightarrow> fs_view s = fs_view st \<and> disk s = disk st \<and> sec_table s = sec_table st \<and>
     sec_current s = sec_current st"

lemma untouched_refused [simp]:
  "sec_check_perm p st = 0 \<Longrightarrow> untouched st (snd (sec_require_perm p (Some a) st))"
  "untouched st (sh_line x st)"
  by (simp_all add: untouched_def sec_require_perm_eq frame_simps)

lemma untouched_logged [simp]: "untouched (logged cmd st) s = untouched st s"
  by (simp add: untouched_def)

lemma untouched_if [simp]:
  "sec_check_perm p st = 0 \<Longrightarrow> untouched st (if u then sh_line x st else snd (sec_require_perm p (Some a) st))"
  by simp

lemma sh_refused:
  "sec_check_perm PERM_WRITE st = 0 \<Longrightarrow> \<exists>s. sh_mkdir arg st = Some s \<and> untouched st s"
  "sec_check_perm PERM_WRITE st = 0 \<Longrightarrow> \<exists>s. sh_write_file arg st = Some s \<and> untouched st s"
  "sec_check_perm PERM_WRITE st = 0 \<Longrightarrow> \<exists>s. sh_rm arg st = Some s \<and> untouched st s"
  "sec_check_perm PERM_WRITE st = 0 \<Longrightarrow> \<exists>s. sh_rmdir arg st = Some s \<and> untouched st s"
  "sec_check_perm PERM_WRITE st = 0 \<Longrightarrow> \<exists>s. sh_mv arg st = Some s \<and> untouched st s"
  "sec_check_perm PERM_READ st = 0 \<Longrightarrow> \<exists>s. sh_cat arg st = Some s \<and> untouched st s"
  "sec_check_perm PERM_READ st = 0 \<Longrightarrow> \<exists>s. sh_cp arg st = Some s \<and> untouched st s"
  "sec_check_perm PERM_SNAP st = 0 \<Longrightarrow> \<exists>s. sh_snap_create arg st = Some s \<and> untouched st s"
  "sec_check_perm PERM_SNAP st = 0 \<Longrightarrow> \<exists>s. sh_snap_restore arg st = Some s \<and> untouched st s"
  using sh_denied [of st arg] untouched_if untouched_refused(1) by metis+

lemma branch_untouched:
  assumes "shell_execute (w @ arg) st = returns (f (logged (w @ arg) st))"
    and "\<exists>s. f (logged (w @ arg) st) = Some s \<and> untouched (logged (w @ arg) st) s"
  shows "\<exists>st'. shell_execute (w @ arg) st = Some (Returned, st') \<and> untouched st st'"
  using assms by auto

text \<open>
  C38: A command that begins with a permission check does nothing but report when the user who
  is logged in lacks the permission: \<open>mkdir\<close>, \<open>write\<close>, \<open>rm\<close>, \<open>rmdir\<close> and \<open>mv\<close> without the right to
  write, \<open>cat\<close> and \<open>cp\<close> without the right to read, \<open>snap-create\<close> and \<open>snap-restore\<close> without the
  right to take snapshots leave every file, the heap, the disk, the users and the log-in as
  they were, whatever the arguments.
\<close>

theorem shell_denies:
  assumes "(w, p) \<in> set shell_permissions" "sec_check_perm p st = 0"
  shows "\<exists>st'. shell_execute (w @ arg) st = Some (Returned, st') \<and> untouched st st'"
proof -
  have c: "sec_check_perm p (logged cmd st) = 0" for cmd using assms(2) by simp
  note b = branch_untouched [where f = "sh_mkdir arg", OF shell_execute_branches(1) sh_refused(1)]
    branch_untouched [where f = "sh_write_file arg", OF shell_execute_branches(2) sh_refused(2)]
    branch_untouched [where f = "sh_rm arg", OF shell_execute_branches(3) sh_refused(3)]
    branch_untouched [where f = "sh_rmdir arg", OF shell_execute_branches(4) sh_refused(4)]
    branch_untouched [where f = "sh_mv arg", OF shell_execute_branches(5) sh_refused(5)]
    branch_untouched [where f = "sh_cat arg", OF shell_execute_branches(6) sh_refused(6)]
    branch_untouched [where f = "sh_cp arg", OF shell_execute_branches(7) sh_refused(7)]
    branch_untouched [where f = "sh_snap_create arg", OF shell_execute_branches(8) sh_refused(8)]
    branch_untouched [where f = "sh_snap_restore arg", OF shell_execute_branches(9) sh_refused(9)]
  from assms(1) have "w = ''mkdir '' \<and> p = PERM_WRITE \<or> w = ''write '' \<and> p = PERM_WRITE \<or>
      w = ''rm '' \<and> p = PERM_WRITE \<or> w = ''rmdir '' \<and> p = PERM_WRITE \<or> w = ''mv '' \<and> p = PERM_WRITE \<or>
      w = ''cat '' \<and> p = PERM_READ \<or> w = ''cp '' \<and> p = PERM_READ \<or>
      w = ''snap-create '' \<and> p = PERM_SNAP \<or> w = ''snap-restore '' \<and> p = PERM_SNAP"
    unfolding shell_permissions_def by simp
  then show ?thesis
  proof (elim disjE conjE, goal_cases)
    case 1
    show ?case unfolding 1(1) using c 1(2) by (intro b(1)) simp
  next
    case 2
    show ?case unfolding 2(1) using c 2(2) by (intro b(2)) simp
  next
    case 3
    show ?case unfolding 3(1) using c 3(2) by (intro b(3)) simp
  next
    case 4
    show ?case unfolding 4(1) using c 4(2) by (intro b(4)) simp
  next
    case 5
    show ?case unfolding 5(1) using c 5(2) by (intro b(5)) simp
  next
    case 6
    show ?case unfolding 6(1) using c 6(2) by (intro b(6)) simp
  next
    case 7
    show ?case unfolding 7(1) using c 7(2) by (intro b(7)) simp
  next
    case 8
    show ?case unfolding 8(1) using c 8(2) by (intro b(8)) simp
  next
    case 9
    show ?case unfolding 9(1) using c 9(2) by (intro b(9)) simp
  qed
qed

text \<open>The concrete shell, with the guest logged in.\<close>

definition guest_st0 :: "ramdisk shell_st" where
  "guest_st0 = snd (sec_login (Some ''guest'') shell_st0)"

lemma shell_st0_sec: "sec_wf shell_st0" "sec_table shell_st0 = boot_table"
proof -
  have e: "users shell_st0 = users (sec_init sec_st0)" "user_count shell_st0 = user_count (sec_init sec_st0)"
    "current_user_idx shell_st0 = current_user_idx (sec_init sec_st0)"
    by (simp_all add: shell_st_of_def cpu_st0_def ed_st.defs dev_st.defs tick_st.defs cpu_st.defs sec_st.defs)
  show "sec_wf shell_st0" using boot_state(1) by (simp add: sec_wf_def e)
  show "sec_table shell_st0 = boot_table" using boot_state(2) by (simp add: sec_table_def e)
qed

lemma guest_st0: "sec_wf guest_st0" "sec_current guest_st0 = Some (''guest'', 1)"
  "fs_view guest_st0 = fs_view shell_st0"
proof -
  have n: "cstring ''guest''" "''guest'' \<noteq> []" by simp_all
  have "sec_wf guest_st0 \<and> sec_current guest_st0 = Some (''guest'', 1)"
    using shell_st0_sec(1) n
  proof (cases rule: sec_login_cases)
    case (found i)
    then have "i = 1" by (simp add: shell_st0_sec boot_table_def)
    then show ?thesis using found(2,3) shell_st0_sec
      by (simp add: guest_st0_def sec_current_def boot_table_def frame_simps)
        (auto intro!: sec_wf_calls sec_wf_idx [of _ 1, simplified])
  next
    case unknown
    then show ?thesis by (simp add: shell_st0_sec boot_table_def)
  qed
  then show "sec_wf guest_st0" "sec_current guest_st0 = Some (''guest'', 1)" by simp_all
  show "fs_view guest_st0 = fs_view shell_st0" by (simp add: guest_st0_def)
qed

lemma guest_st0_perm: "sec_check_perm PERM_WRITE guest_st0 = 0"
  by (simp add: sec_check_perm_current [OF guest_st0(1)] guest_st0(2) PERM_WRITE_def)

theorem shell_denies_witness:
  "\<exists>st'. shell_execute (''rm '' @ ''/etc'') guest_st0 = Some (Returned, st') \<and> untouched guest_st0 st'"
  by (rule shell_denies [OF _ guest_st0_perm]) (simp add: shell_permissions_def)

text \<open>
  C39: The command \<open>touch\<close> asks for no permission: when the heap has room, a user without the
  right to write creates a file at any path whose parent is a directory without that entry,
  although \<open>mkdir\<close> at the same path is refused.
\<close>

theorem shell_touch_unchecked:
  assumes "fs_inv st" "cstring path" "path \<noteq> []" "length path < 128"
    and "create_target st path = Some (d, c)" "room st 56" "sec_check_perm PERM_WRITE st = 0"
  shows "\<exists>st' n. shell_execute (''touch '' @ path) st = Some (Returned, st') \<and> fs_inv st' \<and>
    n \<noteq> NULL \<and> fs_nodes st n = None \<and> fs_find_in_dir st' d c = Some n \<and>
    (\<exists>st''. shell_execute (''mkdir '' @ path) st = Some (Returned, st'') \<and> fs_nodes st'' = fs_nodes st)"
proof -
  let ?s = "logged (''touch '' @ path) st"
  have v: "fs_view ?s = fs_view st" by simp
  obtain K where inv: "fs_ok K ?s" using assms(1) fs_ok_view [OF v] by (auto simp: fs_inv_def)
  have refused: "\<exists>st''. shell_execute (''mkdir '' @ path) st = Some (Returned, st'') \<and> fs_nodes st'' = fs_nodes st"
  proof -
    obtain s where s: "sh_mkdir path (logged (''mkdir '' @ path) st) = Some s" "untouched st s"
      using sh_refused(1) [of "logged (''mkdir '' @ path) st" path] assms(7) untouched_logged by auto
    then have "shell_execute (''mkdir '' @ path) st = Some (Returned, s)"
      by (simp only: shell_execute_branches option.map)
    then show ?thesis using s(2) fs_viewD(2) [of s st] by (auto simp: untouched_def)
  qed
  from inv assms(2) show ?thesis
  proof (cases rule: fs_touch_cases)
    case (fail st')
    then show ?thesis using assms(3-6) create_target_view [OF v] room_view [OF v]
      by (simp add: MAX_PATH_LEN_def)
  next
    case (ok d' c' n st')
    note C = createdD [OF ok(3)]
    have dc: "d' = d" "c' = c" using ok(2) assms(5) create_target_view [OF v] by simp_all
    obtain dn where dn: "fs_nodes ?s d = Some dn"
      using assms(5) fs_viewD(2) [OF v] by (auto simp: create_target_def split: if_splits elim!: bind_SomeE)
    have find: "fs_find_in_dir st' d c = Some n"
      using created_find [OF ok(3), of d dn c] dn C(6) dc by (simp add: valid_name_def)
    let ?e = "sh_line ''Created/updated file.'' st'"
    have ve: "fs_view ?e = fs_view st'" by simp
    have "cmd_touch (Some path) ?s = Some ?e" using ok(1) assms(3) by (simp add: cmd_touch_def)
    then have "shell_execute (''touch '' @ path) st = Some (Returned, ?e)"
      by (simp only: shell_execute_branches option.map)
    moreover have "fs_inv ?e" using C(9) fs_inv_view [OF ve] by (auto simp: fs_inv_def)
    ultimately show ?thesis
      using refused C(1,2) find fs_viewD(2) [OF v] find_in_dir_view [OF ve] by (intro exI [of _ ?e] exI [of _ n]) simp
  qed
qed

theorem shell_touch_unchecked_witness:
  "\<exists>st'. shell_execute (''touch '' @ ''/hack'') guest_st0 = Some (Returned, st') \<and> fs_inv st'"
proof -
  have v: "fs_view guest_st0 = fs_view fs_st1" using guest_st0(3) shell_st0_view by simp
  have t: "create_target guest_st0 ''/hack'' = Some (fs_root fs_st1, ''hack'')"
    using create_target_view [OF v] fs_st1_target [of "''hack''"] by (simp add: valid_name_def MAX_NAME_LEN_def)
  have "fs_inv guest_st0" using fs_inv_view [OF v] fs_st1_ok(1) by (auto simp: fs_inv_def)
  moreover have "room guest_st0 56" using fs_viewD(1) [OF v] fs_st1_ok(5) by (simp add: room_def)
  ultimately show ?thesis
    using shell_touch_unchecked [OF _ _ _ _ t _ guest_st0_perm] by auto
qed

subsection \<open>Commands on the disk\<close>

lemma skip_spaces_decimal [simp]: "skip_spaces (decimal n @ s) = decimal n @ s"
proof -
  have "hd (decimal n) \<noteq> CHR '' '' \<and> decimal n \<noteq> []"
  proof (induction n rule: less_induct)
    case (less n)
    show ?case
    proof (cases "n < 10")
      case True
      then have "ord (digit_char n) \<noteq> ord CHR '' ''" by (simp add: ord_digit_char) (simp add: ord_def)
      then have "digit_char n \<noteq> CHR '' ''" by metis
      then show ?thesis using True by (simp add: decimal.simps [of n])
    next
      case False
      then show ?thesis using less.IH [of "n div 10"] by (simp add: decimal.simps [of n])
    qed
  qed
  then show ?thesis by (cases "decimal n") auto
qed

lemma skip_spaces_none: "s = [] \<or> hd s \<noteq> CHR '' '' \<Longrightarrow> skip_spaces s = s"
  by (cases s) auto

lemma unat_of_char: "unat (of_char c :: u8) = of_char c"
proof -
  have "unat (of_nat (of_char c :: nat) :: u8) = of_char c"
    by (simp add: unat_of_nat take_bit_nat_eq_self)
  then show ?thesis by (simp add: of_nat_of_char)
qed

text \<open>What the first 64 characters of a sector look like on the console.\<close>

definition shown :: "string \<Rightarrow> nat \<Rightarrow> char" where
  "shown s i = (if i < length s \<and> 32 \<le> ord (s ! i) \<and> ord (s ! i) \<le> 126 then s ! i else CHR ''.'')"

lemma parse_sector:
  fixes lba :: u32
  shows "parse_u32 0 (decimal (unat lba)) = (lba, [])"
    "parse_u32 0 (decimal (unat lba) @ CHR '' '' # s) = (lba, CHR '' '' # s)"
  using parse_u32_decimal [of 0 "unat lba" "[]"] parse_u32_decimal [of 0 "unat lba" "CHR '' '' # s"]
  by (simp_all add: ord_def)

lemma fold_putc: "putcs (con_out (fold (\<lambda>i. con_call f (Con_putc (g i))) xs st)) = putcs (con_out st) @ map g xs"
  by (induction xs arbitrary: st) auto

lemma fold_putc_disk: "disk (fold (\<lambda>i. con_call f (Con_putc (g i))) xs st) = disk st"
  by (induction xs arbitrary: st) auto

lemma ord_nat: "ord c = int (of_char c)"
  unfolding ord_def by (rule of_nat_of_char [symmetric])

lemma shown_byte:
  assumes "i < 512" "length s \<le> 511"
  shows "(let b = unat ((map of_char s @ replicate (512 - length s) (0 :: u8)) ! i)
          in if b < 32 \<or> b > 126 then CHR ''.'' else char_of b) = shown s i"
proof (cases "i < length s")
  case True
  define c where "c = s ! i"
  have b: "unat ((map of_char s @ replicate (512 - length s) (0 :: u8)) ! i) = of_char c"
    using True by (simp add: nth_append unat_of_char c_def)
  show ?thesis unfolding b using True
    by (auto simp: shown_def Let_def ord_nat c_def [symmetric])
next
  case False
  then show ?thesis using assms by (simp add: shown_def nth_append)
qed

context block_dev
begin

text \<open>The two commands on any device that meets the contract, left to settle in between.\<close>

lemma disk_commands:
  fixes lba :: u32 and st :: "('d, 'b) shell_st_scheme"
  assumes "good (disk st)" "g_root_dev st = Some dev" "bd_read dev = rd" "bd_write dev = wr" "1 \<le> most"
    and "unat lba < nsec (disk st)" "length s \<le> 511" "s = [] \<or> hd s \<noteq> CHR '' ''"
  shows "\<exists>s1 s2. cmd_diskwrite (decimal (unat lba) @ CHR '' '' # s) st = Some s1 \<and>
    cmd_diskread (decimal (unat lba)) (s1\<lparr>disk := settle (disk s1)\<rparr>) = Some s2 \<and>
    putcs (con_out s2) = putcs (con_out s1) @ ''Sector '' @ map (shown s) [0..<64] @ [newline] \<and>
    good (disk s2) \<and> (\<forall>i < nsec (disk st). i \<noteq> unat lba \<longrightarrow> sec (disk s2) i = sec (disk st) i)"
proof -
  define buf where "buf = map of_char s @ replicate (512 - length s) (0 :: u8)"
  have u: "unat (ucast lba :: u64) = unat lba"
    using unat_u32_bound [of lba] by (simp add: unsigned_ucast_eq take_bit_nat_eq_self)
  obtain d d' where d: "wr (ucast lba) 1 buf (disk st) = Some (0, d)"
    "rd (ucast lba) 1 (replicate 512 0) (settle d) = Some (0, buf, d')" "good d'"
    "\<And>i. i < nsec (disk st) \<Longrightarrow> i < unat lba \<or> unat lba + 1 \<le> i \<Longrightarrow> sec d' i = sec (disk st) i"
  proof (rule write_then_read [of "disk st" "ucast lba" 1 buf "replicate 512 0"])
    fix d1 d2
    assume "wr (ucast lba) 1 buf (disk st) = Some (0, d1)" "rd (ucast lba) 1 (replicate 512 0) (settle d1) = Some (0, buf, d2)"
      "good d2"
      "\<And>i. i < nsec (disk st) \<Longrightarrow> i < unat (ucast lba :: u64) \<or> unat (ucast lba :: u64) + unat (1 :: u32) \<le> i \<Longrightarrow>
         sec (settle d1) i = sec (disk st) i"
      "\<And>i. i < nsec (disk st) \<Longrightarrow> sec d2 i = sec (settle d1) i"
    then show thesis using that [of d1 d2] u by simp
  qed (use assms(1,5-7) in \<open>auto simp: u buf_def\<close>)
  let ?s1 = "sh_line ''diskwrite: wrote sector'' (st\<lparr>disk := d\<rparr>)"
  have cb: "copy_upto 511 s = s" using assms(7) by (simp add: copy_upto_eq)
  have w: "cmd_diskwrite (decimal (unat lba) @ CHR '' '' # s) st = Some ?s1"
    using assms(2,4) d(1) skip_spaces_none [OF assms(8)] cb
    by (simp add: cmd_diskwrite_def parse_sector blockdev_get_root_def buf_def)
  let ?t1 = "?s1\<lparr>disk := settle (disk ?s1)\<rparr>"
  let ?s2 = "sh_line [] (fold (\<lambda>i. con_call Shell_c (Con_putc (shown s i))) [0..<64]
      (sh_write ''Sector '' (?t1\<lparr>disk := d'\<rparr>)))"
  have c: "fold (\<lambda>i. con_call Shell_c (Con_putc (let b = unat (buf ! i)
         in if b < 32 \<or> b > 126 then CHR ''.'' else char_of b))) [0..<64] x =
      fold (\<lambda>i. con_call Shell_c (Con_putc (shown s i))) [0..<64] x" for x :: "('d, 'b) shell_st_scheme"
    by (rule fold_cong) (use shown_byte [of _ s] assms(7) in \<open>auto simp: buf_def\<close>)
  have "skip_spaces (decimal (unat lba)) = decimal (unat lba)"
    using skip_spaces_decimal [of "unat lba" "[]"] by simp
  then have r: "cmd_diskread (decimal (unat lba)) ?t1 = Some ?s2"
    using assms(2,3) d(2)
    by (simp add: cmd_diskread_def parse_sector blockdev_get_root_def frame_simps c [unfolded Let_def] Let_def)
  have "sec d' i = sec (disk st) i" if "i < nsec (disk st)" "i \<noteq> unat lba" for i
    by (rule d(4)) (use that in auto)
  then show ?thesis
    using w r d(3) by (auto simp: fold_putc fold_putc_disk frame_simps)
qed

end

text \<open>
  C40: What \<open>diskwrite\<close> stores, \<open>diskread\<close> shows, through the driver of the disk that the boot
  makes the root device: on every drive that meets the laws \<open>ata_disk\<close>, with the sector number
  given in decimal and inside the drive, and a text of at most 511 characters that does not
  start with a blank, \<open>diskwrite\<close> succeeds. Once the drive has settled, for which nothing in the code
  waits, \<open>diskread\<close> of the same number prints the word
  Sector, then the first 64 characters of the text, with a dot for each one that is not
  printable and for the rest, and no other sector of the drive has changed. (A \<open>diskread\<close> that
  comes before can hang: \<open>ata_busy_hangs\<close>.)
\<close>

theorem shell_disk_roundtrip:
  fixes lba :: u32 and st :: "('io, 'b) shell_st_scheme"
  assumes "ata_disk P regs phase store nsec lag settle" "phase (disk st) = Idle"
    and "g_root_dev st = Some dev" "bd_read dev = ata_block_read P" "bd_write dev = ata_block_write P"
    and "unat lba < nsec" "length s \<le> 511" "s = [] \<or> hd s \<noteq> CHR '' ''"
  shows "\<exists>s1 s2. cmd_diskwrite (decimal (unat lba) @ CHR '' '' # s) st = Some s1 \<and>
    cmd_diskread (decimal (unat lba)) (s1\<lparr>disk := settle (disk s1)\<rparr>) = Some s2 \<and>
    putcs (con_out s2) = putcs (con_out s1) @ ''Sector '' @ map (shown s) [0..<64] @ [newline] \<and>
    phase (disk s2) = Idle \<and>
    (\<forall>i < nsec. i \<noteq> unat lba \<longrightarrow> store (disk s2) i = store (disk st) i)"
  using block_dev.disk_commands [OF ata_disk.contract [OF assms(1)] assms(2-5) _ assms(6-8)] by simp

definition disk_st0 :: "drive shell_st" where
  "disk_st0 = shell_st_of (Some (fst (ata_pio_init drive_ports shell_st0))) drive0"

theorem shell_disk_roundtrip_witness:
  "\<exists>s1 s2. cmd_diskwrite ''1 hi'' disk_st0 = Some s1 \<and>
    cmd_diskread ''1'' (s1\<lparr>disk := drive_settle (disk s1)\<rparr>) = Some s2 \<and>
    putcs (con_out s2) = putcs (con_out s1) @ ''Sector '' @ map (shown ''hi'') [0..<64] @ [newline]"
proof -
  have d: "disk disk_st0 = drive0"
    "g_root_dev disk_st0 = Some (fst (ata_pio_init drive_ports shell_st0))"
    by (simp_all add: disk_st0_def shell_st_of_def cpu_st0_def ed_st.defs dev_st.defs tick_st.defs
        cpu_st.defs sec_st.defs fs_st.defs)
  have n: "decimal (unat (1 :: u32)) = ''1''" by (simp add: decimal.simps digit_char_def) code_simp
  show ?thesis
    using shell_disk_roundtrip [OF drive_laws _ d(2), of 1 "''hi''", unfolded n]
    by (auto simp: d drive0_def ata_pio_init_def)
qed

end
