(* ===== verification/Fs_Snap.thy ===== *)
theory Fs_Snap
  imports Fs_Abs
begin

text \<open>
  Snapshots. \<open>fs_clone_tree\<close> walks the children and siblings of a node and builds a copy of
  fresh nodes and buffers. The contents of a chain of nodes are a list of trees, the
  abstraction that \<open>treps\<close> relates to the heap; the clone is correct when the copy represents
  the same trees, and two roots that represent the same tree are the same files.
\<close>

datatype ftree = Tree string bool u32 "u8 list option" "ftree list"

fun tree_name :: "ftree \<Rightarrow> string" where
  "tree_name (Tree nm d sz dt ks) = nm"

type_synonym bufs = "ptr \<Rightarrow> u8 list option"

definition data_of :: "bufs \<Rightarrow> fs_node \<Rightarrow> u8 list option" where
  "data_of b n =
     (if n_is_dir n \<or> n_data n = NULL \<or> n_size n = 0 then None
      else map_option (take (unat (n_size n))) (b (n_data n)))"

fun treps :: "nodes \<Rightarrow> bufs \<Rightarrow> ptr \<Rightarrow> ftree list \<Rightarrow> bool" where
  "treps h b p [] \<longleftrightarrow> p = NULL"
| "treps h b p (Tree nm d sz dt ks # ts) \<longleftrightarrow> p \<noteq> NULL \<and>
     (\<exists>n. h p = Some n \<and> n_name n = nm \<and> n_is_dir n = d \<and> n_size n = sz \<and> data_of b n = dt \<and>
       treps h b (n_child n) ks \<and> treps h b (n_sibling n) ts)"

text \<open>The bytes of the heap that a copy takes.\<close>

fun tree_cost :: "ftree list \<Rightarrow> nat" where
  "tree_cost [] = 0"
| "tree_cost (Tree nm d sz dt ks # ts) =
     56 + (if dt = None then 0 else unat sz + 1) + tree_cost ks + tree_cost ts"

definition siblings_ok :: "ftree list \<Rightarrow> bool" where
  "siblings_ok ts \<longleftrightarrow> distinct (map tree_name ts) \<and> (\<forall>t \<in> set ts. valid_name (tree_name t))"

fun trees_ok :: "ftree list \<Rightarrow> bool" where
  "trees_ok [] \<longleftrightarrow> True"
| "trees_ok (Tree nm d sz dt ks # ts) \<longleftrightarrow> cstring nm \<and> length nm < MAX_NAME_LEN \<and>
     (ks \<noteq> [] \<longrightarrow> d) \<and> siblings_ok ks \<and> trees_ok ks \<and> trees_ok ts"

lemma data_of_mono:
  assumes "b \<subseteq>\<^sub>m b'" "data_ok h b" "h p = Some n"
  shows "data_of b' n = data_of b n"
proof (cases "n_data n = NULL")
  case False
  then obtain bs where "b (n_data n) = Some bs" using assms(2,3) by (fastforce simp: data_ok_def)
  then show ?thesis using assms(1) by (auto simp: data_of_def map_le_def dom_def)
qed (simp add: data_of_def)

lemma treps_mono:
  assumes "h \<subseteq>\<^sub>m h'" "b \<subseteq>\<^sub>m b'" "data_ok h b"
  shows "treps h b p ts \<Longrightarrow> treps h' b' p ts"
  using assms
proof (induction h b p ts rule: treps.induct)
  case (2 h b p nm d sz dt ks ts)
  from 2(3) obtain n where n: "p \<noteq> NULL" "h p = Some n" "n_name n = nm" "n_is_dir n = d" "n_size n = sz"
    "data_of b n = dt" "treps h b (n_child n) ks" "treps h b (n_sibling n) ts" by auto
  have "h' p = Some n" using n(2) 2(4) by (metis domI map_le_def)
  then show ?case using n 2 data_of_mono [OF 2(5,6) n(2)] by auto
qed simp

subsection \<open>The trees of a directory\<close>

lemma treps_list:
  assumes t: "tree_ok h K"
    and sub: "\<And>c n. c \<in> set cs \<Longrightarrow> h c = Some n \<Longrightarrow>
      \<exists>ks. treps h b (n_child n) ks \<and> map tree_name ks = map (name_of h) (K c) \<and> trees_ok ks"
  shows "chain h p cs \<Longrightarrow> \<exists>ts. treps h b p ts \<and> map tree_name ts = map (name_of h) cs \<and> trees_ok ts"
  using sub
proof (induction cs arbitrary: p)
  case Nil
  then show ?case by (intro exI [of _ "[]"]) simp
next
  case (Cons c cs)
  then obtain n where n: "p = c" "c \<noteq> NULL" "h c = Some n" "chain h (n_sibling n) cs" by auto
  obtain ks where ks: "treps h b (n_child n) ks" "map tree_name ks = map (name_of h) (K c)" "trees_ok ks"
    using Cons.prems(2) [of c n] n(3) by auto
  obtain ts where ts: "treps h b (n_sibling n) ts" "map tree_name ts = map (name_of h) cs" "trees_ok ts"
    using Cons.IH [OF n(4)] Cons.prems(2) by auto
  note ok = tree_okD(3) [OF t n(3)]
  have "siblings_ok ks"
  proof -
    have "valid_name (name_of h k)" if "k \<in> set (K c)" for k using node_okD(6) [OF ok that] by auto
    moreover have "tree_name ` set ks = name_of h ` set (K c)" using arg_cong [OF ks(2), of set] by simp
    ultimately have "\<forall>x \<in> tree_name ` set ks. valid_name x" by simp
    then show ?thesis using ks(2) node_okD(5) [OF ok] by (simp add: siblings_ok_def)
  qed
  moreover have "ks \<noteq> [] \<longrightarrow> n_is_dir n" using arg_cong [OF ks(2), of length] node_okD(4) [OF ok] by (cases "K c") auto
  ultimately show ?case
    using n ks ts node_okD(2,3) [OF ok]
    by (intro exI [of _ "Tree (n_name n) (n_is_dir n) (n_size n) (data_of b n) ks # ts"]) auto
qed

lemma treps_dir:
  assumes t: "tree_ok h K"
  shows "h d = Some n \<Longrightarrow> \<exists>ks. treps h b (n_child n) ks \<and> map tree_name ks = map (name_of h) (K d) \<and> trees_ok ks"
proof (induction d arbitrary: n rule: wf_induct_rule [OF wf_edges [OF t]])
  case (1 d)
  show ?case
    by (rule treps_list [OF t _ node_okD(1) [OF tree_okD(3) [OF t 1(2)]]]) (use 1(1) in \<open>auto simp: edges_def\<close>)
qed

lemma root_tree:
  assumes inv: "fs_ok K st" and r: "root_at (fs_nodes st) r"
  obtains t where "treps (fs_nodes st) (fs_bufs st) r [t]" "trees_ok [t]"
proof -
  obtain n where n: "fs_nodes st r = Some n" "n_sibling n = NULL" using r by (auto simp: root_at_def)
  note tr = fs_okD(4) [OF inv]
  have "r \<noteq> NULL" using n(1) tree_okD(1) [OF tr] by auto
  then have "chain (fs_nodes st) r [r]" using n by simp
  from treps_list [OF tr treps_dir [OF tr] this] obtain ts where
    ts: "treps (fs_nodes st) (fs_bufs st) r ts" "map tree_name ts = map (name_of (fs_nodes st)) [r]" "trees_ok ts"
    by blast
  from arg_cong [OF ts(2), of length] obtain x where "ts = [x]" by (auto simp: length_Suc_conv)
  then show thesis using that ts by simp
qed

subsection \<open>A fresh chain becomes the children of a node\<close>

lemma acyclic_add_edges:
  assumes "acyclic R" "\<And>e. (e, a) \<notin> R" "a \<notin> set cs"
  shows "acyclic (R \<union> {a} \<times> set cs)"
  using assms
proof (induction cs arbitrary: R)
  case (Cons c cs)
  have "(c, a) \<notin> R\<^sup>*" using Cons.prems by (auto elim: rtranclE)
  then have "acyclic (insert (a, c) R)" using Cons.prems(1) by (simp add: acyclic_insert)
  then have "acyclic (insert (a, c) R \<union> {a} \<times> set cs)"
    by (rule Cons.IH) (use Cons.prems in auto)
  moreover have "insert (a, c) R \<union> {a} \<times> set cs = R \<union> {a} \<times> set (c # cs)" by auto
  ultimately show ?case by simp
qed simp

lemma tree_ok_adopt:
  assumes t: "tree_ok h K" and u: "\<And>d. a \<notin> set (K d)" "K a = []" and x: "h a = Some x"
    and c: "chain h c cs" "distinct (map (name_of h) cs)" "cs \<noteq> [] \<longrightarrow> n_is_dir x" "a \<notin> set cs"
    and k: "\<And>c. c \<in> set cs \<Longrightarrow> \<exists>m. h c = Some m \<and> n_parent m = a \<and> valid_name (n_name m)"
  shows "tree_ok (h(a \<mapsto> x\<lparr>n_child := c\<rparr>)) (K(a := cs))"
proof -
  let ?h = "h(a \<mapsto> x\<lparr>n_child := c\<rparr>)"
  have nm: "name_of ?h = name_of h" using x by (auto simp: name_of_def fun_eq_iff)
  have ch: "chain h p ds \<Longrightarrow> chain ?h p ds" for p ds by (rule chain_frame) (use x in auto)
  have "node_ok ?h (K(a := cs)) d n" if "?h d = Some n" for d n
  proof (cases "d = a")
    case True
    with that have n: "n = x\<lparr>n_child := c\<rparr>" by simp
    have kid: "\<exists>m. ?h e = Some m \<and> n_parent m = a \<and> valid_name (n_name m)" if e: "e \<in> set cs" for e
    proof -
      have "e \<noteq> a" using e c(4) by auto
      then show ?thesis using k [OF e] by simp
    qed
    then show ?thesis using True n tree_okD(3) [OF t x] c ch by (simp add: node_ok_def nm)
  next
    case False
    with that have n: "h d = Some n" by simp
    have "c \<noteq> a" if "c \<in> set (K d)" for c using u(1) that by metis
    then show ?thesis using False tree_okD(3) [OF t n] ch by (auto simp: node_ok_def nm)
  qed
  moreover have "edges (K(a := cs)) = edges K \<union> {a} \<times> set cs"
    using u(2) by (auto simp: edges_def split: if_splits)
  then have "acyclic (edges (K(a := cs)))"
    using acyclic_add_edges [OF tree_okD(4) [OF t]] u(1) c(4) by (simp add: edges_def)
  ultimately show ?thesis using t x by (auto simp: tree_ok_def)
qed

subsection \<open>What a copy leaves alone\<close>

text \<open>
  The store has grown by \<open>k\<close> bytes: what was there is unchanged, and no new list holds an old
  node. The console may have a message about the lack of memory.
\<close>

definition rest_of :: "'a fs_st_scheme \<Rightarrow> 'a fs_st_scheme" where
  "rest_of st = st\<lparr>con_out := [], heap_offset := 0, fs_nodes := Map.empty, fs_bufs := Map.empty\<rparr>"

lemma rest_of_upd [simp]:
  "rest_of (st\<lparr>fs_nodes := h\<rparr>) = rest_of st" "rest_of (st\<lparr>fs_bufs := b\<rparr>) = rest_of st"
  "rest_of (st\<lparr>heap_offset := x\<rparr>) = rest_of st" "rest_of (con_call f c st) = rest_of st"
  by (simp_all add: rest_of_def con_call_def)

lemma rest_ofD:
  assumes "rest_of st' = rest_of st"
  shows "fs_root st' = fs_root st" "fs_cwd st' = fs_cwd st" "snap_head st' = snap_head st"
    "fs_snaps st' = fs_snaps st" "g_key st' = g_key st" "g_key_len st' = g_key_len st"
    "fs_st.more st' = fs_st.more st"
  using assms by (cases st; cases st'; simp add: rest_of_def)+

definition grown :: "kids \<Rightarrow> 'a fs_st_scheme \<Rightarrow> kids \<Rightarrow> 'a fs_st_scheme \<Rightarrow> nat \<Rightarrow> bool" where
  "grown K st K' st' k \<longleftrightarrow> fs_ok K' st' \<and>
     fs_nodes st \<subseteq>\<^sub>m fs_nodes st' \<and> fs_bufs st \<subseteq>\<^sub>m fs_bufs st' \<and>
     (\<forall>d. fs_nodes st d \<noteq> None \<longrightarrow> K' d = K d) \<and>
     (\<forall>d. fs_nodes st d = None \<longrightarrow> set (K' d) \<inter> dom (fs_nodes st) = {}) \<and>
     unat (heap_offset st') = unat (heap_offset st) + k \<and>
     rest_of st' = rest_of st"

lemma grownD:
  assumes "grown K st K' st' k"
  shows "fs_ok K' st'" "fs_nodes st \<subseteq>\<^sub>m fs_nodes st'" "fs_bufs st \<subseteq>\<^sub>m fs_bufs st'"
    "fs_nodes st d \<noteq> None \<Longrightarrow> K' d = K d" "fs_nodes st d = None \<Longrightarrow> set (K' d) \<inter> dom (fs_nodes st) = {}"
    "unat (heap_offset st') = unat (heap_offset st) + k"
    "rest_of st' = rest_of st"
  using assms by (auto simp: grown_def)

lemma grown_node: "grown K st K' st' k \<Longrightarrow> fs_nodes st p = Some n \<Longrightarrow> fs_nodes st' p = Some n"
  by (auto simp: grown_def map_le_def dom_def)

lemma grown_unlisted:
  "grown K st K' st' k \<Longrightarrow> fs_nodes st c = Some n \<Longrightarrow> (\<And>d. c \<notin> set (K d)) \<Longrightarrow> c \<notin> set (K' d)"
  using grownD(4,5) [of K st K' st' k d] by (cases "fs_nodes st d") auto

lemma grown_refl:
  assumes "fs_ok K st"
  shows "grown K st K st 0"
proof -
  have "set (K d) = {}" if "fs_nodes st d = None" for d using tree_okD(2) [OF fs_okD(4) [OF assms] that] by simp
  then show ?thesis using assms unfolding grown_def by auto
qed

lemma grown_oom:
  assumes "grown K st K1 st1 k"
  shows "grown K st K1 (con_call f c st1) k"
  using assms by (auto simp: grown_def)

lemma grown_trans:
  assumes a: "grown K st K1 st1 k" and b: "grown K1 st1 K2 st2 m"
  shows "grown K st K2 st2 (k + m)"
proof -
  note A = grownD [OF a] and B = grownD [OF b]
  have d: "dom (fs_nodes st) \<subseteq> dom (fs_nodes st1)" using map_le_implies_dom_le [OF A(2)] .
  have "set (K2 d) \<inter> dom (fs_nodes st) = {}" if "fs_nodes st d = None" for d
  proof (cases "fs_nodes st1 d")
    case None
    then show ?thesis using B(5) [OF None] d by blast
  qed (use A(5) [OF that] B(4) [of d] in simp)
  moreover have "K2 d = K d" if "fs_nodes st d \<noteq> None" for d
    using that A(4) B(4) [of d] d by auto
  ultimately show ?thesis
    using B(1,6,7) A(6,7) map_le_trans [OF A(2) B(2)] map_le_trans [OF A(3) B(3)] by (simp add: grown_def)
qed

text \<open>A store into a node that the growth has made.\<close>

lemma grown_set:
  assumes g: "grown K st K1 st1 k" and a: "fs_nodes st a = None" "fs_nodes st1 a = Some x"
    and t: "tree_ok ((fs_nodes st1)(a \<mapsto> y)) K2" and y: "n_is_dir y = n_is_dir x" "\<not> root_at (fs_nodes st1) a"
      "unat (n_size y) < 2 ^ 20"
      "n_data y \<noteq> NULL \<longrightarrow> (\<exists>bs. fs_bufs st1 (n_data y) = Some bs \<and> unat (n_size y) < length bs)"
    and k: "\<And>d. d \<noteq> a \<Longrightarrow> K2 d = K1 d" "set (K2 a) \<inter> dom (fs_nodes st) = {}"
  shows "grown K st K2 (st1\<lparr>fs_nodes := (fs_nodes st1)(a \<mapsto> y)\<rparr>) k"
proof -
  note G = grownD [OF g]
  have "fs_ok K2 (st1\<lparr>fs_nodes := (fs_nodes st1)(a \<mapsto> y)\<rparr>)"
  proof (rule fs_ok_nodes [OF G(1) t, where a = a])
    show "unat a < heap_top st1" using fs_okD(3) [OF G(1)] a(2) by (auto simp: below_top_def)
    show "data_ok ((fs_nodes st1)(a \<mapsto> y)) (fs_bufs st1)"
      using fs_okD(5) [OF G(1)] y by (auto simp: data_ok_def)
    show "root_at ((fs_nodes st1)(a \<mapsto> y)) p" if "root_at (fs_nodes st1) p" for p
      using that y(2) by (auto simp: root_at_def)
  qed (use a y in \<open>auto simp: dir_at_def\<close>)
  moreover have "fs_nodes st \<subseteq>\<^sub>m (fs_nodes st1)(a \<mapsto> y)"
    using G(2) a(1) by (auto simp: map_le_def dom_def)
  moreover have "K2 d = K d" if "fs_nodes st d \<noteq> None" for d
    using that a(1) k(1) [of d] G(4) [OF that] by (cases "d = a") auto
  moreover have "set (K2 d) \<inter> dom (fs_nodes st) = {}" if "fs_nodes st d = None" for d
    using k G(5) [OF that] by (cases "d = a") simp_all
  ultimately show ?thesis using G(3,6,7) by (simp add: grown_def)
qed

subsection \<open>The copy of one node\<close>

lemma clone_node:
  assumes inv: "fs_ok K st" and n: "fs_nodes st p = Some n"
    and par: "par = NULL \<or> fs_nodes st par \<noteq> None"
  obtains (oom) s where "fs_new_node (n_name n) (n_is_dir n) st = (NULL, s)" "grown K st K s 0" "\<not> room st 56"
  | (ok) c s where "fs_new_node (n_name n) (n_is_dir n) st = (c, s)" "c \<noteq> NULL" "fs_nodes st c = None"
    "K c = []" "\<forall>d. c \<notin> set (K d)"
    "upd_node c (\<lambda>c. c\<lparr>n_parent := par, n_size := n_size n\<rparr>) s =
       Some (s\<lparr>fs_nodes := (fs_nodes s)(c \<mapsto> (new_node (n_name n) (n_is_dir n) par NULL)\<lparr>n_size := n_size n\<rparr>)\<rparr>)"
    "par \<noteq> c \<longrightarrow> grown K st K (s\<lparr>fs_nodes := (fs_nodes s)(c \<mapsto> (new_node (n_name n) (n_is_dir n) par NULL)\<lparr>n_size := n_size n\<rparr>)\<rparr>) 56"
proof -
  note okn = tree_okD(3) [OF fs_okD(4) [OF inv] n]
  have nm: "cstring (n_name n)" "kstrncpy (n_name n) MAX_NAME_LEN = n_name n"
    using node_okD(2,3) [OF okn] kstrncpy_short by auto
  have sz: "unat (n_size n) < 2 ^ 20" using fs_okD(5) [OF inv] n by (auto simp: data_ok_def)
  obtain c s where new: "fs_new_node (n_name n) (n_is_dir n) st = (c, s)" by (rule prod.exhaust)
  from inv new nm(1) show thesis
  proof (cases rule: fs_new_node_cases)
    case oom
    then show ?thesis using that(1) [of s] new grown_oom [OF grown_refl [OF inv]] by (simp add: room_def)
  next
    case ok
    let ?x = "new_node (n_name n) (n_is_dir n) NULL NULL"
    have x: "fs_nodes s c = Some ?x" "fs_nodes s = (fs_nodes st)(c \<mapsto> ?x)" using ok(8) nm(2) by simp_all
    have "set (K d) \<inter> dom (fs_nodes st) = {}" if "fs_nodes st d = None" for d
      using tree_okD(2) [OF fs_okD(4) [OF inv] that] by simp
    moreover have "fs_nodes st \<subseteq>\<^sub>m fs_nodes s" using ok(2) x(2) by (auto simp: map_le_def dom_def)
    ultimately have g: "grown K st K s 56"
      using ok(5,7,8) by (auto simp: grown_def)
    have t: "tree_ok ((fs_nodes s)(c \<mapsto> (new_node (n_name n) (n_is_dir n) par NULL)\<lparr>n_size := n_size n\<rparr>)) K"
      using ok(1,3,4) nm node_okD(3) [OF okn] par x(2) by (intro tree_ok_unlisted [OF fs_okD(4) [OF ok(5)]]) auto
    show ?thesis
    proof (rule that(2) [OF new ok(1-3) allI [OF ok(4)]])
      show "par \<noteq> c \<longrightarrow> grown K st K (s\<lparr>fs_nodes := (fs_nodes s)(c \<mapsto> (new_node (n_name n) (n_is_dir n) par NULL)\<lparr>n_size := n_size n\<rparr>)\<rparr>) 56"
        by (intro impI grown_set [OF g ok(2) x(1) t]) (use ok(1,3) x(1) sz in \<open>auto simp: root_at_def\<close>)
    qed (use x(1) in \<open>simp add: upd_node_def\<close>)
  qed
qed

lemma clone_data_step:
  assumes inv: "fs_ok K st" and g: "grown K st K s k" and n: "fs_nodes st p = Some n"
    and c: "fs_nodes st c = None" "fs_nodes s c = Some y"
    and y: "n_data y = NULL" "n_is_dir y = n_is_dir n" "n_size y = n_size n"
  obtains s' buf m where "clone_data n c s = Some s'" "fs_nodes s' c = Some (y\<lparr>n_data := buf\<rparr>)"
    "grown K st K s' (k + m)"
    "room s (if data_of (fs_bufs st) n = None then 0 else unat (n_size n) + 1) \<longrightarrow>
       m = (if data_of (fs_bufs st) n = None then 0 else unat (n_size n) + 1) \<and>
       data_of (fs_bufs s') (y\<lparr>n_data := buf\<rparr>) = data_of (fs_bufs st) n"
proof (cases "n_is_dir n \<or> n_data n = NULL \<or> n_size n = 0")
  case True
  then have "clone_data n c s = Some s" "data_of (fs_bufs st) n = None"
    by (auto simp: clone_data_def data_of_def)
  moreover have "y\<lparr>n_data := NULL\<rparr> = y" using y(1) by simp
  ultimately show thesis using that [of s NULL 0] g c(2) y by (simp add: data_of_def)
next
  case False
  note G = grownD [OF g]
  note sn = grown_node [OF g n]
  obtain all where all: "fs_bufs s (n_data n) = Some all" "unat (n_size n) < length all"
    using fs_okD(5) [OF G(1)] sn False by (fastforce simp: data_ok_def)
  have sz: "unat (n_size n) < 2 ^ 20" using fs_okD(5) [OF G(1)] sn by (auto simp: data_ok_def)
  let ?bs = "take (unat (n_size n)) all"
  have d: "data_of (fs_bufs st) n = Some ?bs"
  proof -
    have "data_of (fs_bufs s) n = data_of (fs_bufs st) n" by (rule data_of_mono [OF G(3) fs_okD(5) [OF inv] n])
    then show ?thesis using False all by (simp add: data_of_def)
  qed
  have u: "unat (n_size n + 1) = unat (n_size n) + 1" using sz by (simp add: unat_word_ariths)
  have small: "small_size (n_size n + 1)" "0 < n_size n + 1"
    using u sz by (auto simp: small_size_def word_less_nat_alt)
  obtain buf s1 where m: "kmalloc (n_size n + 1) s = (buf, s1)" by (rule prod.exhaust)
  from m G(1) small show thesis
  proof (cases rule: fs_kmalloc)
    case oom
    let ?s = "console_write Kmalloc_c (''kmalloc: OUT OF MEMORY!'' @ [newline]) s"
    have "clone_data n c s = Some ?s"
      using False m oom(1,2) by (auto simp: clone_data_def word_neq_0_conv)
    moreover have "y\<lparr>n_data := NULL\<rparr> = y" using y(1) by simp
    ultimately show ?thesis
      using that [of ?s NULL 0] grown_oom [OF g] c(2) oom(4) d u by (simp add: room_def)
  next
    case ok
    let ?y = "y\<lparr>n_data := buf\<rparr>"
    let ?s = "s1\<lparr>fs_bufs := (fs_bufs s1)(buf \<mapsto> ?bs @ [0]), fs_nodes := (fs_nodes s1)(c \<mapsto> ?y)\<rparr>"
    have e: "fs_bufs s1 = fs_bufs s" "fs_nodes s1 = fs_nodes s" "rest_of s1 = rest_of s" using ok(2) by simp_all
    have yy: "?y = y\<lparr>n_data := buf, n_size := n_size n\<rparr>" using y(3) by simp
    have "clone_data n c s = Some ?s"
      using False m ok(1) all c(2) e
      by (auto simp: clone_data_def read_bytes_def put_buf_def upd_node_def word_neq_0_conv)
    moreover have "fs_ok K ?s"
      using c(2) e ok all sz yy
      by (intro fs_ok_set_data [OF ok(3), where p = c and n = y and buf = buf and s = "n_size n" and bs = "?bs @ [0]"]) auto
    then have "grown K st K ?s (k + (unat (n_size n) + 1))"
      using g c(1) ok(5,9) e u by (auto simp: grown_def map_le_def dom_def)
    moreover have "data_of (fs_bufs ?s) ?y = Some ?bs" using False y ok(1) all(2) by (simp add: data_of_def)
    ultimately show ?thesis using that [of ?s buf "unat (n_size n) + 1"] d by simp
  qed
qed

subsection \<open>The copy of a chain\<close>

text \<open>\<open>linked\<close>: a fresh chain of nodes with the names \<open>ns\<close> and the parent \<open>par\<close>.\<close>

definition linked :: "kids \<Rightarrow> 'a fs_st_scheme \<Rightarrow> ptr \<Rightarrow> string list \<Rightarrow> kids \<Rightarrow> ptr \<Rightarrow> 'a fs_st_scheme \<Rightarrow> nat \<Rightarrow> bool" where
  "linked K st par ns K' q st' k \<longleftrightarrow> grown K st K' st' k \<and>
     (\<exists>cs. chain (fs_nodes st') q cs \<and> map (name_of (fs_nodes st')) cs = ns \<and>
       (\<forall>c \<in> set cs. fs_nodes st c = None \<and> (\<forall>d. c \<notin> set (K' d)) \<and>
         (\<exists>m. fs_nodes st' c = Some m \<and> n_parent m = par)))"

text \<open>\<open>cloned\<close>: the chain is the copy of the trees \<open>ts\<close>.\<close>

definition cloned :: "'a fs_st_scheme \<Rightarrow> ftree list \<Rightarrow> ptr \<Rightarrow> 'a fs_st_scheme \<Rightarrow> nat \<Rightarrow> string list \<Rightarrow> bool" where
  "cloned st ts q st' k ns \<longleftrightarrow> k = tree_cost ts \<and> ns = map tree_name ts \<and>
     treps (fs_nodes st' |` (- dom (fs_nodes st))) (fs_bufs st') q ts"

text \<open>The recursive call for a link that may be null, followed by the store of its result.\<close>

lemma clone_null: "fs_clone_tree NULL par st = Some (NULL, st)"
  by (subst fs_clone_tree.simps) simp

lemma clone_children:
  assumes g: "fs_ok K s" and y: "fs_nodes s c = Some y" "n_child y = NULL" "n_is_dir y \<or> ns = []"
      "n_parent y \<noteq> c" "K c = []" "\<And>d. c \<notin> set (K d)"
    and cl: "linked K s c ns K1 q s1 k" and ns: "distinct ns" "\<forall>x \<in> set ns. valid_name x"
  shows "upd_node c (n_child_update (\<lambda>_. q)) s1 =
      Some (s1\<lparr>fs_nodes := (fs_nodes s1)(c \<mapsto> y\<lparr>n_child := q\<rparr>)\<rparr>)"
    "\<exists>K2. fs_ok K2 (s1\<lparr>fs_nodes := (fs_nodes s1)(c \<mapsto> y\<lparr>n_child := q\<rparr>)\<rparr>) \<and> (\<forall>d. d \<noteq> c \<longrightarrow> K2 d = K1 d) \<and> (\<forall>e \<in> set (K2 c). fs_nodes s e = None) \<and> (\<forall>d. c \<notin> set (K2 d))"
proof -
  let ?s = "s1\<lparr>fs_nodes := (fs_nodes s1)(c \<mapsto> y\<lparr>n_child := q\<rparr>)\<rparr>"
  obtain cs where cs: "grown K s K1 s1 k" "chain (fs_nodes s1) q cs"
    "map (name_of (fs_nodes s1)) cs = ns"
    "\<And>e. e \<in> set cs \<Longrightarrow> fs_nodes s e = None \<and> (\<forall>d. e \<notin> set (K1 d)) \<and>
       (\<exists>m. fs_nodes s1 e = Some m \<and> n_parent m = c)"
    using cl unfolding linked_def by blast
  note G = grownD [OF cs(1)]
  have y1: "fs_nodes s1 c = Some y" by (rule grown_node [OF cs(1) y(1)])
  then show "upd_node c (n_child_update (\<lambda>_. q)) s1 = Some ?s" by (simp add: upd_node_def)
  have cn: "c \<notin> set cs" using cs(4) y(1) by auto
  have u: "c \<notin> set (K1 d)" for d by (rule grown_unlisted [OF cs(1) y(1,6)])
  have kc: "K1 c = []" using G(4) [of c] y(1,5) by simp
  have "\<forall>x \<in> name_of (fs_nodes s1) ` set cs. valid_name x" using ns(2) arg_cong [OF cs(3), of set] by simp
  then have kid: "\<exists>m. fs_nodes s1 e = Some m \<and> n_parent m = c \<and> valid_name (n_name m)" if "e \<in> set cs" for e
    using cs(4) [OF that] that by (auto simp: name_of_def)
  have dst: "distinct (map (name_of (fs_nodes s1)) cs)" unfolding cs(3) by (rule ns(1))
  have dir: "cs \<noteq> [] \<longrightarrow> n_is_dir y" using y(3) arg_cong [OF cs(3), of length] by auto
  have t: "tree_ok ((fs_nodes s1)(c \<mapsto> y\<lparr>n_child := q\<rparr>)) (K1(c := cs))"
    by (rule tree_ok_adopt [OF fs_okD(4) [OF G(1)] u kc y1 cs(2) dst dir cn kid])
  have "fs_ok (K1(c := cs)) ?s"
  proof (rule fs_ok_nodes [OF G(1) t, where a = c])
    show "unat c < heap_top s1" using fs_okD(3) [OF G(1)] y1 by (auto simp: below_top_def)
    show "data_ok ((fs_nodes s1)(c \<mapsto> y\<lparr>n_child := q\<rparr>)) (fs_bufs s1)"
      using fs_okD(5) [OF G(1)] y1 by (auto simp: data_ok_def)
  qed (use y1 y(4) in \<open>auto simp: dir_at_def root_at_def\<close>)
  moreover have "c \<notin> set ((K1(c := cs)) d)" for d using u cn by simp
  ultimately show "\<exists>K2. fs_ok K2 ?s \<and> (\<forall>d. d \<noteq> c \<longrightarrow> K2 d = K1 d) \<and> (\<forall>e \<in> set (K2 c). fs_nodes s e = None) \<and> (\<forall>d. c \<notin> set (K2 d))"
    using cs(4) by (intro exI [of _ "K1(c := cs)"]) auto
qed

lemma data_of_cong:
  "n_is_dir m = n_is_dir n \<Longrightarrow> n_data m = n_data n \<Longrightarrow> n_size m = n_size n \<Longrightarrow> data_of b m = data_of b n"
  by (simp add: data_of_def)

lemma data_ok_restrict: "data_ok h b \<Longrightarrow> data_ok (h |` A) b"
  by (auto simp: data_ok_def restrict_map_def)

text \<open>The trees of a copy in a later store.\<close>

lemma treps_later:
  assumes g: "grown K0 s0 K1 s1 k" and t: "treps (fs_nodes s1 |` (- dom (fs_nodes s0))) (fs_bufs s1) q ts"
    and d: "dom (fs_nodes st) \<subseteq> dom (fs_nodes s0)" and b: "fs_bufs s1 \<subseteq>\<^sub>m fs_bufs s2"
    and n: "\<And>p x. fs_nodes s0 p = None \<Longrightarrow> fs_nodes s1 p = Some x \<Longrightarrow> fs_nodes s2 p = Some x"
  shows "treps (fs_nodes s2 |` (- dom (fs_nodes st))) (fs_bufs s2) q ts"
proof (rule treps_mono [OF _ b data_ok_restrict [OF fs_okD(5) [OF grownD(1) [OF g]]] t])
  show "fs_nodes s1 |` (- dom (fs_nodes s0)) \<subseteq>\<^sub>m fs_nodes s2 |` (- dom (fs_nodes st))"
    using n d by (fastforce simp: map_le_def restrict_map_def dom_def split: if_splits)
qed

lemma clone_link:
  assumes c: "fs_nodes s c = Some y" "f (\<lambda>_. NULL) y = y" and r: "fs_clone_tree p x s = Some (q, s1)"
    and u: "upd_node c (f (\<lambda>_. q)) s1 = Some s2"
  shows "(if p \<noteq> NULL then do { (q, s) \<leftarrow> fs_clone_tree p x s; upd_node c (f (\<lambda>_. q)) s } else Some s) = Some s2"
proof (cases "p = NULL")
  case True
  then have "q = NULL" "s1 = s" using r by (simp_all add: clone_null)
  moreover have "(fs_nodes s)(c \<mapsto> y) = fs_nodes s" using c(1) by (rule map_upd_triv)
  ultimately show ?thesis using True u c by (simp add: upd_node_def)
qed (use r u in simp)

lemma linked_cons:
  assumes g: "grown K st K1 s1 k" and c: "fs_nodes st c = None" "c \<noteq> NULL"
    and y: "fs_nodes s1 c = Some y" "n_sibling y = NULL" "n_parent y = par" "par \<noteq> c" "\<And>d. c \<notin> set (K1 d)"
    and ts: "linked K1 s1 par ns K2 q s2 m"
  shows "upd_node c (n_sibling_update (\<lambda>_. q)) s2 = Some (s2\<lparr>fs_nodes := (fs_nodes s2)(c \<mapsto> y\<lparr>n_sibling := q\<rparr>)\<rparr>)"
    "linked K st par (n_name y # ns) K2 c (s2\<lparr>fs_nodes := (fs_nodes s2)(c \<mapsto> y\<lparr>n_sibling := q\<rparr>)\<rparr>) (k + m)"
proof -
  let ?y = "y\<lparr>n_sibling := q\<rparr>"
  let ?s = "s2\<lparr>fs_nodes := (fs_nodes s2)(c \<mapsto> ?y)\<rparr>"
  obtain cs where T: "grown K1 s1 K2 s2 m" "chain (fs_nodes s2) q cs" "map (name_of (fs_nodes s2)) cs = ns"
    "\<And>e. e \<in> set cs \<Longrightarrow> fs_nodes s1 e = None \<and> (\<forall>d. e \<notin> set (K2 d)) \<and>
       (\<exists>m. fs_nodes s2 e = Some m \<and> n_parent m = par)"
    using ts unfolding linked_def by blast
  note G = grownD [OF T(1)] and G1 = grownD [OF g]
  have y2: "fs_nodes s2 c = Some y" by (rule grown_node [OF T(1) y(1)])
  then show "upd_node c (n_sibling_update (\<lambda>_. q)) s2 = Some ?s" by (simp add: upd_node_def)
  have u: "c \<notin> set (K2 d)" for d by (rule grown_unlisted [OF T(1) y(1,5)])
  have cn: "c \<notin> set cs" using T(4) y(1) by auto
  note okc = tree_okD(3) [OF fs_okD(4) [OF G(1)] y2]
  have t: "tree_ok ((fs_nodes s2)(c \<mapsto> ?y)) K2"
    using c(2) node_okD(1-4,7) [OF okc] by (intro tree_ok_unlisted [OF fs_okD(4) [OF G(1)] u]) auto
  have dom1: "dom (fs_nodes st) \<subseteq> dom (fs_nodes s1)" using map_le_implies_dom_le [OF G1(2)] .
  have g2: "grown K st K2 s2 (k + m)" by (rule grown_trans [OF g T(1)])
  have "grown K st K2 ?s (k + m)"
  proof (rule grown_set [OF g2 c(1) y2 t])
    show "unat (n_size ?y) < 2 ^ 20"
      "n_data ?y \<noteq> NULL \<longrightarrow> (\<exists>bs. fs_bufs s2 (n_data ?y) = Some bs \<and> unat (n_size ?y) < length bs)"
      using fs_okD(5) [OF G(1)] y2 by (auto simp: data_ok_def)
    show "set (K2 c) \<inter> dom (fs_nodes st) = {}" by (rule grownD(5) [OF g2 c(1)])
  qed (use y y2 in \<open>auto simp: root_at_def\<close>)
  moreover have "chain (fs_nodes ?s) c (c # cs)" using chain_upd_other [OF T(2) cn] c(2) by simp
  moreover have "map (name_of (fs_nodes ?s)) (c # cs) = n_name y # ns"
  proof -
    have "map (name_of (fs_nodes ?s)) cs = map (name_of (fs_nodes s2)) cs"
      by (rule map_cong) (use cn in \<open>auto simp: name_of_upd\<close>)
    then show ?thesis using T(3) by (simp add: name_of_upd)
  qed
  moreover have "\<forall>e \<in> set (c # cs). fs_nodes st e = None \<and> (\<forall>d. e \<notin> set (K2 d)) \<and>
      (\<exists>m. fs_nodes ?s e = Some m \<and> n_parent m = par)"
  proof
    fix e
    assume "e \<in> set (c # cs)"
    then show "fs_nodes st e = None \<and> (\<forall>d. e \<notin> set (K2 d)) \<and> (\<exists>m. fs_nodes ?s e = Some m \<and> n_parent m = par)"
      using T(4) [of e] c(1) u y(3) dom1 by (cases "e = c") auto
  qed
  ultimately show "linked K st par (n_name y # ns) K2 c ?s (k + m)"
    unfolding linked_def by (intro conjI exI [of _ "c # cs"])
qed

lemma cloned_cons:
  assumes inv: "fs_ok K st" and g: "grown K st K1 s1 (56 + k)" and g': "grown K1 s1 K2 s2 m"
    and c: "fs_nodes st c = None" "c \<noteq> NULL" "fs_nodes s1 c = Some y"
    and n: "n_name y = nm" "n_is_dir y = d" "n_size y = sz" "data_of (fs_bufs s1) y = dt"
    and ks: "treps (fs_nodes s1 |` (- insert c (dom (fs_nodes st)))) (fs_bufs s1) (n_child y) ks"
    and k: "k = (if dt = None then 0 else unat sz + 1) + tree_cost ks"
    and ts: "cloned s1 ts q s2 m ns"
  shows "cloned st (Tree nm d sz dt ks # ts) c (s2\<lparr>fs_nodes := (fs_nodes s2)(c \<mapsto> y\<lparr>n_sibling := q\<rparr>)\<rparr>)
    (56 + k + m) (nm # ns)"
proof -
  note G = grownD [OF g'] and G1 = grownD [OF g]
  let ?y = "y\<lparr>n_sibling := q\<rparr>"
  let ?s = "s2\<lparr>fs_nodes := (fs_nodes s2)(c \<mapsto> ?y)\<rparr>"
  have T: "treps (fs_nodes s2 |` (- dom (fs_nodes s1))) (fs_bufs s2) q ts" using ts by (simp add: cloned_def)
  have dom1: "dom (fs_nodes st) \<subseteq> dom (fs_nodes s1)" using map_le_implies_dom_le [OF G1(2)] .
  have b: "fs_bufs s1 \<subseteq>\<^sub>m fs_bufs ?s" using G(3) by simp
  have "treps (fs_nodes ?s |` (- dom (fs_nodes st))) (fs_bufs ?s) q ts"
    by (rule treps_later [OF g' T dom1]) (use c(3) in auto)
  moreover have "treps (fs_nodes ?s |` (- dom (fs_nodes st))) (fs_bufs ?s) (n_child y) ks"
  proof (rule treps_mono [OF _ b data_ok_restrict [OF fs_okD(5) [OF G1(1)]] ks])
    show "fs_nodes s1 |` (- insert c (dom (fs_nodes st))) \<subseteq>\<^sub>m fs_nodes ?s |` (- dom (fs_nodes st))"
      using grown_node [OF g'] by (fastforce simp: map_le_def restrict_map_def dom_def split: if_splits)
  qed
  moreover have "data_of (fs_bufs ?s) ?y = dt"
    using data_of_mono [OF G(3) fs_okD(5) [OF G1(1)] c(3)] n(4) data_of_cong [of ?y y] by simp
  moreover have "(fs_nodes ?s |` (- dom (fs_nodes st))) c = Some ?y" using c(1) by (auto simp: restrict_map_def)
  ultimately have "treps (fs_nodes ?s |` (- dom (fs_nodes st))) (fs_bufs ?s) c (Tree nm d sz dt ks # ts)"
    unfolding treps.simps using c(2) n(1-3) by (intro conjI exI [of _ ?y]) (auto simp del: fs_st.simps)
  then show ?thesis using ts k by (simp add: cloned_def)
qed

text \<open>
  The copy of a chain returns whatever the memory: it links a prefix of the chain, all of it
  when the heap has room, and then it is a copy of the trees.
\<close>

lemma clone_chain:
  "fs_ok K st \<Longrightarrow> treps (fs_nodes st) (fs_bufs st) p ts \<Longrightarrow> trees_ok ts \<Longrightarrow>
    par = NULL \<or> fs_nodes st par \<noteq> None \<Longrightarrow>
    \<exists>K' q st' k ns. fs_clone_tree p par st = Some (q, st') \<and> linked K st par ns K' q st' k \<and>
      (\<exists>m. ns = take m (map tree_name ts)) \<and> (room st (tree_cost ts) \<longrightarrow> cloned st ts q st' k ns) \<and>
      (q \<noteq> NULL \<longrightarrow> dir_at (fs_nodes st') q = dir_at (fs_nodes st) p)"
proof (induction ts arbitrary: K st p par rule: tree_cost.induct)
  case 1
  then show ?case
    using grown_refl [OF 1(1)]
    by (intro exI [of _ K] exI [of _ NULL] exI [of _ st] exI [of _ 0] exI [of _ "[]"])
      (simp add: clone_null linked_def cloned_def)
next
  case (2 nm d sz dt ks ts)
  note inv = 2(3)
  obtain n where n: "p \<noteq> NULL" "fs_nodes st p = Some n" "n_name n = nm" "n_is_dir n = d" "n_size n = sz"
    "data_of (fs_bufs st) n = dt" "treps (fs_nodes st) (fs_bufs st) (n_child n) ks"
    "treps (fs_nodes st) (fs_bufs st) (n_sibling n) ts" using 2(4) by auto
  note tr = 2(5)
  let ?k = "if dt = None then 0 else unat sz + 1"
  let ?R = "room st (56 + ?k + tree_cost ks + tree_cost ts)"
  have R: "room st (tree_cost (Tree nm d sz dt ks # ts)) = ?R" by (simp add: add.assoc)
  from inv n(2) 2(6) show ?case
  proof (cases rule: clone_node)
    case (oom s)
    then have "fs_clone_tree p par st = Some (NULL, s)" using n(1,2) by (subst fs_clone_tree.simps) simp
    moreover have "\<not> ?R" using oom(3) by (simp add: room_def)
    ultimately show ?thesis
      using oom(2) R
      by (intro exI [of _ K] exI [of _ NULL] exI [of _ s] exI [of _ 0] exI [of _ "[]"]) (auto simp: linked_def)
  next
    case c: (ok c s)
    have pc: "par \<noteq> c" using 2(6) c(2,3) by auto
    define y1 where "y1 = (new_node (n_name n) (n_is_dir n) par NULL)\<lparr>n_size := n_size n\<rparr>"
    define s1 where "s1 = s\<lparr>fs_nodes := (fs_nodes s)(c \<mapsto> y1)\<rparr>"
    have c6: "upd_node c (\<lambda>c. c\<lparr>n_parent := par, n_size := n_size n\<rparr>) s = Some s1"
      using c(6) by (simp add: s1_def y1_def)
    have g1: "grown K st K s1 56" using c(7) pc by (simp add: s1_def y1_def)
    have r1: "room s1 (if data_of (fs_bufs st) n = None then 0 else unat (n_size n) + 1)" if ?R
      using that grownD(6) [OF g1] n(5,6) by (simp add: room_def split: if_splits)
    have s1c: "fs_nodes s1 c = Some y1" by (simp add: s1_def)
    obtain s2 buf m2 where s2: "clone_data n c s1 = Some s2" "fs_nodes s2 c = Some (y1\<lparr>n_data := buf\<rparr>)"
      "grown K st K s2 (56 + m2)"
      "room s1 (if data_of (fs_bufs st) n = None then 0 else unat (n_size n) + 1) \<longrightarrow>
         m2 = (if data_of (fs_bufs st) n = None then 0 else unat (n_size n) + 1) \<and>
         data_of (fs_bufs s2) (y1\<lparr>n_data := buf\<rparr>) = data_of (fs_bufs st) n"
      by (rule clone_data_step [OF inv g1 n(2) c(3) s1c]) (simp_all add: y1_def)
    have R2: "m2 = ?k \<and> data_of (fs_bufs s2) (y1\<lparr>n_data := buf\<rparr>) = dt" if ?R
      using r1 [OF that] s2(4) n(5,6) by simp
    define y2 where "y2 = y1\<lparr>n_data := buf\<rparr>"
    note g2 = s2(3)
    note G2 = grownD [OF g2]
    have k2: "treps (fs_nodes s2) (fs_bufs s2) (n_child n) ks"
      by (rule treps_mono [OF G2(2,3) fs_okD(5) [OF inv] n(7)])
    have "trees_ok ks" "c = NULL \<or> fs_nodes s2 c \<noteq> None" using tr s2(2) by auto
    from "2.IH"(1) [OF G2(1) k2 this]
    obtain K3 q3 s3 k3 ns3 m3 where s3: "fs_clone_tree (n_child n) c s2 = Some (q3, s3)" "linked K s2 c ns3 K3 q3 s3 k3"
      "ns3 = take m3 (map tree_name ks)" "room s2 (tree_cost ks) \<longrightarrow> cloned s2 ks q3 s3 k3 ns3"
      by blast
    have g3: "grown K s2 K3 s3 k3" using s3(2) by (simp add: linked_def)
    have R3: "m2 = ?k \<and> cloned s2 ks q3 s3 k3 ns3 \<and> k3 = tree_cost ks" if ?R
      using R2 [OF that] that s3(4) G2(6) by (auto simp: room_def cloned_def)
    have y2: "fs_nodes s2 c = Some y2" "n_child y2 = NULL" "n_is_dir y2 \<or> ns3 = []" "n_parent y2 \<noteq> c" "n_sibling y2 = NULL"
      using s2(2) pc tr n(4) s3(3) by (auto simp: y2_def y1_def)
    have ns3: "distinct ns3" "\<forall>x \<in> set ns3. valid_name x"
      using tr s3(3) by (auto simp: siblings_ok_def dest!: in_set_takeD)
    note ch = clone_children [OF G2(1) y2(1-4) c(4) c(5) [rule_format] s3(2) ns3]
    define y3 where "y3 = y2\<lparr>n_child := q3\<rparr>"
    define s4 where "s4 = s3\<lparr>fs_nodes := (fs_nodes s3)(c \<mapsto> y3)\<rparr>"
    obtain K4 where K4: "fs_ok K4 s4" "\<And>d. d \<noteq> c \<Longrightarrow> K4 d = K3 d" "\<And>e. e \<in> set (K4 c) \<Longrightarrow> fs_nodes s2 e = None"
      "\<And>d. c \<notin> set (K4 d)"
      using ch(2) by (auto simp: s4_def y3_def)
    have link4: "(if n_child n \<noteq> NULL then do { (cc, st) \<leftarrow> fs_clone_tree (n_child n) c s2;
        upd_node c (n_child_update (\<lambda>_. cc)) st } else Some s2) = Some s4"
      using ch(1) y2(2) by (intro clone_link [OF y2(1) _ s3(1)]) (simp_all add: s4_def y3_def)
    have s3c: "fs_nodes s3 c = Some y2" by (rule grown_node [OF g3 y2(1)])
    have dom2: "dom (fs_nodes st) \<subseteq> dom (fs_nodes s2)" using map_le_implies_dom_le [OF G2(2)] .
    have g4: "grown K st K4 s4 (56 + (m2 + k3))"
      unfolding s4_def add.assoc [symmetric]
    proof (rule grown_set [OF grown_trans [OF g2 g3] c(3) s3c])
      show "tree_ok ((fs_nodes s3)(c \<mapsto> y3)) K4" using fs_okD(4) [OF K4(1)] by (simp add: s4_def)
      show "unat (n_size y3) < 2 ^ 20"
        "n_data y3 \<noteq> NULL \<longrightarrow> (\<exists>bs. fs_bufs s3 (n_data y3) = Some bs \<and> unat (n_size y3) < length bs)"
        using fs_okD(5) [OF K4(1)] unfolding data_ok_def by (drule_tac x = c in spec; drule_tac x = y3 in spec; simp add: s4_def)+
      show "set (K4 c) \<inter> dom (fs_nodes st) = {}" using K4(3) dom2 by fastforce
    qed (use y2(4) s3c K4(2) in \<open>auto simp: y3_def root_at_def\<close>)
    note G4 = grownD [OF g4]
    have t4: "treps (fs_nodes s4) (fs_bufs s4) (n_sibling n) ts"
      by (rule treps_mono [OF G4(2,3) fs_okD(5) [OF inv] n(8)])
    have "trees_ok ts" "par = NULL \<or> fs_nodes s4 par \<noteq> None" using tr 2(6) grown_node [OF g4] by auto
    from "2.IH"(2) [OF K4(1) t4 this]
    obtain K5 q5 s5 k5 ns5 m5 where s5: "fs_clone_tree (n_sibling n) par s4 = Some (q5, s5)"
      "linked K4 s4 par ns5 K5 q5 s5 k5"
      "ns5 = take m5 (map tree_name ts)" "room s4 (tree_cost ts) \<longrightarrow> cloned s4 ts q5 s5 k5 ns5"
      by blast
    have y3: "fs_nodes s4 c = Some y3" "n_sibling y3 = NULL" "n_parent y3 = par" "n_name y3 = nm" "n_is_dir y3 = d" "n_size y3 = sz"
      using n(3-5) by (simp_all add: s4_def y3_def y2_def y1_def)
    note L = linked_cons [OF g4 c(3,2) y3(1-3) pc K4(4) s5(2)]
    define s6 where "s6 = s5\<lparr>fs_nodes := (fs_nodes s5)(c \<mapsto> y3\<lparr>n_sibling := q5\<rparr>)\<rparr>"
    have link6: "(if n_sibling n \<noteq> NULL then do { (sc, st) \<leftarrow> fs_clone_tree (n_sibling n) par s4;
        upd_node c (n_sibling_update (\<lambda>_. sc)) st } else Some s4) = Some s6"
      using L(1) y3(2) by (intro clone_link [OF y3(1) _ s5(1)]) (simp_all add: s6_def)
    have run: "fs_clone_tree p par st = Some (c, s6)"
      using n(1,2) c(1,2) c6 s2(1) link4 link6 by (subst fs_clone_tree.simps) (simp split del: if_split)
    have "cloned st (Tree nm d sz dt ks # ts) c s6 (56 + (m2 + k3) + k5) (nm # ns5)" if R: ?R
      unfolding s6_def
    proof (rule cloned_cons [OF inv g4 _ c(3,2) y3(1,4,5,6)])
      show "grown K4 s4 K5 s5 k5" using s5(2) by (simp add: linked_def)
      have "data_of (fs_bufs s3) y2 = data_of (fs_bufs s2) y2"
        by (rule data_of_mono [OF grownD(3) [OF g3] fs_okD(5) [OF G2(1)] y2(1)])
      then show "data_of (fs_bufs s4) y3 = dt"
        using R2 [OF R] data_of_cong [of y3 y2] by (simp add: s4_def y3_def y2_def)
      show "treps (fs_nodes s4 |` (- insert c (dom (fs_nodes st)))) (fs_bufs s4) (n_child y3) ks"
      proof (rule treps_mono)
        show "treps (fs_nodes s3 |` (- dom (fs_nodes s2))) (fs_bufs s3) (n_child y3) ks"
          using R3 [OF R] by (simp add: cloned_def y3_def)
        show "data_ok (fs_nodes s3 |` (- dom (fs_nodes s2))) (fs_bufs s3)"
          by (rule data_ok_restrict [OF fs_okD(5) [OF grownD(1) [OF g3]]])
        show "fs_nodes s3 |` (- dom (fs_nodes s2)) \<subseteq>\<^sub>m fs_nodes s4 |` (- insert c (dom (fs_nodes st)))"
          using dom2 y2(1) by (fastforce simp: map_le_def restrict_map_def s4_def split: if_splits)
      qed (simp add: s4_def)
      show "m2 + k3 = ?k + tree_cost ks" using R3 [OF R] by simp
      show "cloned s4 ts q5 s5 k5 ns5" using s5(4) R R3 [OF R] G4(6) by (simp add: room_def)
    qed
    moreover have "linked K st par (nm # ns5) K5 c s6 (56 + (m2 + k3) + k5)" using L(2) y3(4) by (simp add: s6_def)
    moreover have "nm # ns5 = take (Suc m5) (map tree_name (Tree nm d sz dt ks # ts))" using s5(3) by simp
    moreover have "dir_at (fs_nodes s6) c = dir_at (fs_nodes st) p" using n(2,4) y3(5) by (simp add: s6_def dir_at_def)
    ultimately show ?thesis using run R by blast
  qed
qed

subsection \<open>The same trees are the same files\<close>

text \<open>A node without its siblings.\<close>

fun trep :: "'a fs_st_scheme \<Rightarrow> ptr \<Rightarrow> ftree \<Rightarrow> bool" where
  "trep st p (Tree nm d sz dt ks) \<longleftrightarrow>
     (\<exists>n. fs_nodes st p = Some n \<and> n_name n = nm \<and> n_is_dir n = d \<and> n_size n = sz \<and>
       data_of (fs_bufs st) n = dt \<and> treps (fs_nodes st) (fs_bufs st) (n_child n) ks)"

fun subtrees :: "ftree \<Rightarrow> ftree list" where
  "subtrees (Tree nm d sz dt ks) = ks"

lemma find_trees:
  assumes "treps (fs_nodes st) (fs_bufs st) p ts" "trees_ok ts" "cstring nm"
  shows "\<exists>x. find_loop st p nm = Some x \<and>
    (case find (\<lambda>t. tree_name t = nm) ts of None \<Rightarrow> x = NULL | Some t \<Rightarrow> x \<noteq> NULL \<and> trep st x t)"
  using assms
proof (induction ts arbitrary: p)
  case Nil
  then show ?case by (simp add: find_loop.simps)
next
  case (Cons t ts)
  obtain n d sz dt ks where n: "t = Tree (n_name n) d sz dt ks" "p \<noteq> NULL" "fs_nodes st p = Some n"
    "trep st p t" "treps (fs_nodes st) (fs_bufs st) (n_sibling n) ts"
    using Cons.prems(1) by (cases t) auto
  have "cstring (n_name n)" "trees_ok ts" using Cons.prems(2) n(1) by simp_all
  moreover have "\<exists>x. find_loop st (n_sibling n) nm = Some x \<and>
      (case find (\<lambda>t. tree_name t = nm) ts of None \<Rightarrow> x = NULL | Some t \<Rightarrow> x \<noteq> NULL \<and> trep st x t)"
    by (rule Cons.IH [OF n(5) \<open>trees_ok ts\<close> Cons.prems(3)])
  ultimately show ?case
    using n Cons.prems(3) by (subst find_loop.simps) auto
qed

lemma find_in_tree:
  assumes "trep st p t" "trees_ok [t]" "cstring nm"
  shows "\<exists>x. fs_find_in_dir st p nm = Some x \<and>
    (case find (\<lambda>t. tree_name t = nm) (subtrees t) of None \<Rightarrow> x = NULL | Some t \<Rightarrow> x \<noteq> NULL \<and> trep st x t)"
proof -
  obtain n nm' d sz dt ks where n: "t = Tree nm' d sz dt ks" "fs_nodes st p = Some n"
    "treps (fs_nodes st) (fs_bufs st) (n_child n) ks" "trees_ok ks"
    using assms(1,2) by (cases t) auto
  then show ?thesis using find_trees [OF n(3,4) assms(3)] by (simp add: fs_find_in_dir_def)
qed

lemma trees_ok_member: "trees_ok ts \<Longrightarrow> t \<in> set ts \<Longrightarrow> trees_ok [t]"
  by (induction ts rule: trees_ok.induct) auto

lemma lookup_trees:
  assumes "trep st p t" "trep st' q t" "trees_ok [t]" "list_all cstring cs"
  shows "(fs_lookup st p cs = None \<and> fs_lookup st' q cs = None) \<or>
    (\<exists>x y u. fs_lookup st p cs = Some x \<and> fs_lookup st' q cs = Some y \<and> trep st x u \<and> trep st' y u)"
  using assms
proof (induction cs arbitrary: p q t)
  case (Cons c cs)
  have c: "cstring c" "list_all cstring cs" using Cons.prems(4) by auto
  note f = find_in_tree [OF Cons.prems(1,3) c(1)] find_in_tree [OF Cons.prems(2,3) c(1)]
  show ?case
  proof (cases "find (\<lambda>t. tree_name t = c) (subtrees t)")
    case None
    then show ?thesis using f by auto
  next
    case (Some u)
    then obtain x y where xy: "fs_find_in_dir st p c = Some x" "x \<noteq> NULL" "trep st x u"
      "fs_find_in_dir st' q c = Some y" "y \<noteq> NULL" "trep st' y u" using f by auto
    have "u \<in> set (subtrees t)" using Some by (auto simp: find_Some_iff)
    moreover have "trees_ok (subtrees t)" using Cons.prems(3) by (cases t) simp
    ultimately have "trees_ok [u]" by (intro trees_ok_member)
    then show ?thesis using Cons.IH [OF xy(3,6) _ c(2)] xy by simp
  qed
qed (simp, blast)

lemma entry_trees:
  assumes t: "trep st x u" "trep st' y u" and ok: "fs_ok K st" "fs_ok K' st'"
    and k: "g_key st' = g_key st" "g_key_len st' = g_key_len st"
  shows "entry_at st' y = entry_at st x"
proof -
  obtain n m where n: "fs_nodes st x = Some n" "fs_nodes st' y = Some m" "n_is_dir m = n_is_dir n"
    "n_size m = n_size n" "data_of (fs_bufs st') m = data_of (fs_bufs st) n"
    using t by (cases u) auto
  have d: "(n_data n = NULL \<or> n_size n = 0) = (n_data m = NULL \<or> n_size m = 0)" if "\<not> n_is_dir n"
    "n_data n \<noteq> NULL \<longrightarrow> fs_bufs st (n_data n) \<noteq> None" "n_data m \<noteq> NULL \<longrightarrow> fs_bufs st' (n_data m) \<noteq> None"
    using n(3-5) that by (auto simp: data_of_def split: if_splits)
  note b = fs_okD(5) [OF ok(1), unfolded data_ok_def, rule_format, OF n(1)]
    fs_okD(5) [OF ok(2), unfolded data_ok_def, rule_format, OF n(2)]
  have "content st' y = content st x" if nd: "\<not> n_is_dir n"
  proof (cases "n_data n = NULL \<or> n_size n = 0")
    case True
    then show ?thesis using d [OF nd] b n nd by (auto simp: content_def)
  next
    case False
    obtain bs cs where bs: "fs_bufs st (n_data n) = Some bs" "unat (n_size n) < length bs"
      "fs_bufs st' (n_data m) = Some cs" "unat (n_size n) < length cs" "n_data m \<noteq> NULL"
      using False d [OF nd] b n(4) by auto
    then have "take (unat (n_size n)) cs = take (unat (n_size n)) bs"
      using n(3-5) nd False by (simp add: data_of_def)
    then show ?thesis
      using n nd False bs by (simp add: content_def read_bytes_def crypto_decrypt_def crypto_apply_def k)
  qed
  then show ?thesis using n by (simp add: entry_at_def)
qed

lemma trep_root: "treps (fs_nodes st) (fs_bufs st) r [t] \<Longrightarrow> trep st r t"
  by (cases t) auto

lemma same_trees_abs:
  assumes t: "treps (fs_nodes st) (fs_bufs st) (fs_root st) [t]" "treps (fs_nodes st') (fs_bufs st') (fs_root st') [t]"
    and ok: "trees_ok [t]" "fs_ok K st" "fs_ok K' st'"
    and k: "g_key st' = g_key st" "g_key_len st' = g_key_len st"
  shows "fs_abs st' = fs_abs st"
proof
  fix cs
  show "fs_abs st' cs = fs_abs st cs"
  proof (cases "list_all cstring cs")
    case True
    from lookup_trees [OF trep_root [OF t(1)] trep_root [OF t(2)] ok(1) True] show ?thesis
      using entry_trees [OF _ _ ok(2,3) k] by (auto simp: fs_abs_def True)
  qed (simp add: fs_abs_def)
qed

subsection \<open>A larger store\<close>

text \<open>What the roots that are there see when nodes and buffers are added.\<close>

definition extends :: "kids \<Rightarrow> 'a fs_st_scheme \<Rightarrow> kids \<Rightarrow> 'a fs_st_scheme \<Rightarrow> bool" where
  "extends K st K' st' \<longleftrightarrow> fs_ok K st \<and> fs_ok K' st' \<and> fs_nodes st \<subseteq>\<^sub>m fs_nodes st' \<and>
     fs_bufs st \<subseteq>\<^sub>m fs_bufs st' \<and> (\<forall>d. fs_nodes st d \<noteq> None \<longrightarrow> K' d = K d) \<and>
     g_key st' = g_key st \<and> g_key_len st' = g_key_len st"

lemma extends_find:
  assumes e: "extends K st K' st'" and d: "fs_nodes st d = Some n" "cstring y"
  shows "fs_find_in_dir st' d y = fs_find_in_dir st d y"
proof -
  have inv: "fs_ok K st" "fs_ok K' st'" and m: "fs_nodes st \<subseteq>\<^sub>m fs_nodes st'" and k: "K' d = K d"
    using e d(1) by (auto simp: extends_def)
  have sub: "fs_nodes st p = Some x \<Longrightarrow> fs_nodes st' p = Some x" for p x
    using m by (auto simp: map_le_def dom_def)
  have "name_of (fs_nodes st') c = name_of (fs_nodes st) c" if c: "c \<in> set (K d)" for c
    using fs_okD(4) [OF inv(1)] c by (rule kidD) (auto simp: name_of_def sub)
  then have "find (\<lambda>c. name_of (fs_nodes st') c = y) (K d) = find (\<lambda>c. name_of (fs_nodes st) c = y) (K d)"
    by (intro find_cong) auto
  then show ?thesis
    using fs_find_in_dir_kid [OF fs_okD(4) [OF inv(1)] d] fs_find_in_dir_kid [OF fs_okD(4) [OF inv(2)] sub [OF d(1)] d(2)]
    by (simp add: kid_def k)
qed

lemma extends_lookup:
  assumes e: "extends K st K' st'"
  shows "fs_nodes st d \<noteq> None \<Longrightarrow> list_all cstring cs \<Longrightarrow> fs_lookup st' d cs = fs_lookup st d cs"
proof (induction cs arbitrary: d)
  case (Cons y ys)
  then obtain n where n: "fs_nodes st d = Some n" "cstring y" by auto
  have "tree_ok (fs_nodes st) K" using e fs_okD(4) by (auto simp: extends_def)
  from this n show ?case
    by (cases rule: fs_find_in_dir_cases) (use extends_find [OF e n] Cons in auto)
qed simp

lemma at_root_lookup:
  assumes "fs_ok K st" "fs_nodes st d \<noteq> None" "list_all cstring cs"
  shows "fs_lookup (st\<lparr>fs_root := r\<rparr>) d cs = fs_lookup st d cs"
  using fs_lookup_shape [OF fs_okD(4) [OF assms(1)] _ assms(2,3), of "st\<lparr>fs_root := r\<rparr>"] by simp

lemma fs_root_triv: "st\<lparr>fs_root := fs_root st\<rparr> = st"
  by simp

lemma at_root_entry: "entry_at (st\<lparr>fs_root := r\<rparr>) p = entry_at st p"
  by (simp add: entry_at_def content_def read_bytes_def crypto_decrypt_def crypto_apply_def
      cong: option.case_cong if_cong)

lemma extends_files:
  assumes e: "extends K st K' st'" and r: "fs_nodes st r \<noteq> None"
  shows "fs_abs (st'\<lparr>fs_root := r\<rparr>) = fs_abs (st\<lparr>fs_root := r\<rparr>)"
proof
  fix cs
  have inv: "fs_ok K st" "fs_nodes st \<subseteq>\<^sub>m fs_nodes st'" "fs_bufs st \<subseteq>\<^sub>m fs_bufs st'"
    "g_key st' = g_key st" "g_key_len st' = g_key_len st" and inv': "fs_ok K' st'"
    using e by (auto simp: extends_def)
  have r': "fs_nodes st' r \<noteq> None" using r inv(2) by (auto simp: map_le_def dom_def)
  show "fs_abs (st'\<lparr>fs_root := r\<rparr>) cs = fs_abs (st\<lparr>fs_root := r\<rparr>) cs"
  proof (cases "list_all cstring cs")
    case True
    have "entry_at st' p = entry_at st p" if p: "fs_lookup st r cs = Some p" for p
    proof -
      obtain x where x: "fs_nodes st p = Some x"
        using fs_lookup_node [OF fs_okD(4) [OF inv(1)] r True p] by auto
      then have "fs_nodes st' p = Some x" using inv(2) by (auto simp: map_le_def dom_def)
      moreover from inv(1) x this have "content st' p = content st p"
        by (rule content_frame) (use inv(3-5) in \<open>auto simp: map_le_def dom_def\<close>)
      ultimately show ?thesis using x by (simp add: entry_at_def)
    qed
    then show ?thesis
      using extends_lookup [OF e r True] True at_root_lookup [OF inv(1) r True] at_root_lookup [OF inv' r' True]
      by (simp add: fs_abs_def at_root_entry split: option.split)
  qed (simp add: fs_abs_def)
qed

subsection \<open>The list of snapshots\<close>

text \<open>The files that a snapshot holds.\<close>

definition snap_root :: "'a fs_st_scheme \<Rightarrow> string \<Rightarrow> ptr option" where
  "snap_root st name =
     (case snap_find st (snap_head st) name of None \<Rightarrow> None
      | Some p \<Rightarrow> if p = NULL then None else map_option s_root_copy (fs_snaps st p))"

definition snap_files :: "'a fs_st_scheme \<Rightarrow> string \<Rightarrow> files option" where
  "snap_files st name = map_option (\<lambda>r. fs_abs (st\<lparr>fs_root := r\<rparr>)) (snap_root st name)"

lemma snap_find_chain:
  assumes "snap_chain (fs_snaps st) p ss" "\<And>s. s \<in> set ss \<Longrightarrow> cstring (s_name s)" "cstring nm"
  shows "\<exists>x. snap_find st p nm = Some x \<and>
    (case find (\<lambda>s. s_name s = nm) ss of None \<Rightarrow> x = NULL | Some s \<Rightarrow> x \<noteq> NULL \<and> fs_snaps st x = Some s)"
  using assms
proof (induction ss arbitrary: p)
  case Nil
  then show ?case by (simp add: snap_find.simps)
next
  case (Cons s ss)
  then have s: "p \<noteq> NULL" "fs_snaps st p = Some s" "cstring (s_name s)" by auto
  have "\<exists>x. snap_find st (s_next s) nm = Some x \<and>
      (case find (\<lambda>s. s_name s = nm) ss of None \<Rightarrow> x = NULL | Some s \<Rightarrow> x \<noteq> NULL \<and> fs_snaps st x = Some s)"
    by (rule Cons.IH) (use Cons.prems in auto)
  then show ?case using s Cons.prems(3) by (subst snap_find.simps) auto
qed

lemma snap_list:
  assumes "fs_ok K st"
  obtains ss where "snap_chain (fs_snaps st) (snap_head st) ss" "snaps_ok (fs_nodes st) ss"
    "\<And>nm. cstring nm \<Longrightarrow> snap_root st nm = map_option s_root_copy (find (\<lambda>s. s_name s = nm) ss)"
    "\<And>nm. cstring nm \<Longrightarrow> snap_find st (snap_head st) nm \<noteq> None \<and>
       (snap_find st (snap_head st) nm = Some NULL \<longleftrightarrow> snap_root st nm = None)"
proof -
  obtain ss where ss: "snap_chain (fs_snaps st) (snap_head st) ss" "snaps_ok (fs_nodes st) ss"
    using assms by (auto simp: fs_ok_def)
  have r: "snap_root st nm = map_option s_root_copy (find (\<lambda>s. s_name s = nm) ss) \<and>
      snap_find st (snap_head st) nm \<noteq> None \<and>
      (snap_find st (snap_head st) nm = Some NULL \<longleftrightarrow> snap_root st nm = None)" if c: "cstring nm" for nm
  proof -
    obtain x where x: "snap_find st (snap_head st) nm = Some x"
      "case find (\<lambda>s. s_name s = nm) ss of None \<Rightarrow> x = NULL | Some s \<Rightarrow> x \<noteq> NULL \<and> fs_snaps st x = Some s"
      using snap_find_chain [OF ss(1) _ c] ss(2) by (auto simp: snaps_ok_def)
    then show ?thesis by (auto simp: snap_root_def split: option.splits)
  qed
  then show thesis using that ss by simp
qed

lemma snap_root_at:
  assumes inv: "fs_ok K st" and r: "snap_root st nm = Some r" and nm: "cstring nm"
  shows "root_at (fs_nodes st) r"
proof -
  from inv obtain ss where "snaps_ok (fs_nodes st) ss"
    "snap_root st nm = map_option s_root_copy (find (\<lambda>s. s_name s = nm) ss)"
    by (rule snap_list) (use nm in blast)
  moreover from this obtain s where s: "find (\<lambda>s. s_name s = nm) ss = Some s" "r = s_root_copy s"
    using r by (cases "find (\<lambda>s. s_name s = nm) ss") auto
  moreover from s(1) have "s \<in> set ss" by (auto simp: find_Some_iff)
  ultimately show ?thesis by (simp add: snaps_ok_def)
qed

lemma snap_chain_upd: "snap_chain m p ss \<Longrightarrow> m a = None \<Longrightarrow> snap_chain (m(a \<mapsto> x)) p ss"
  by (induction ss arbitrary: p) auto

lemma snap_root_cong:
  "fs_snaps st' = fs_snaps st \<Longrightarrow> snap_head st' = snap_head st \<Longrightarrow> fs_ok K st \<Longrightarrow> fs_ok K' st' \<Longrightarrow> cstring nm \<Longrightarrow>
    snap_root st' nm = snap_root st nm"
proof -
  assume e: "fs_snaps st' = fs_snaps st" "snap_head st' = snap_head st" and ok: "fs_ok K st" "fs_ok K' st'"
    and nm: "cstring nm"
  obtain ss where ss: "snap_chain (fs_snaps st) (snap_head st) ss" "snaps_ok (fs_nodes st) ss"
    using ok(1) by (auto simp: fs_ok_def)
  have c: "s \<in> set ss \<Longrightarrow> cstring (s_name s)" for s using ss(2) by (auto simp: snaps_ok_def)
  have "snap_chain (fs_snaps st') (snap_head st) ss" using ss(1) e by simp
  from snap_find_chain [OF ss(1) c nm] snap_find_chain [OF this c nm]
  show ?thesis by (auto simp: snap_root_def e split: option.splits)
qed

subsection \<open>Restoring\<close>

lemma restored:
  assumes inv: "fs_ok K st" and nm: "cstring nm" "nm \<noteq> []" and r: "snap_root st nm = Some r"
  shows "fs_snap_restore (Some nm) st = Some (0, st\<lparr>fs_root := r, fs_cwd := r\<rparr>)"
    "fs_rep (st\<lparr>fs_root := r, fs_cwd := r\<rparr>) (fs_abs (st\<lparr>fs_root := r\<rparr>), [])"
    "fs_ok K (st\<lparr>fs_root := r, fs_cwd := r\<rparr>)"
proof -
  show "fs_snap_restore (Some nm) st = Some (0, st\<lparr>fs_root := r, fs_cwd := r\<rparr>)"
    using r nm(2) by (auto simp: fs_snap_restore_def snap_root_def split: option.splits if_splits)
  have a: "root_at (fs_nodes st) r" by (rule snap_root_at [OF inv r nm(1)])
  then show i: "fs_ok K (st\<lparr>fs_root := r, fs_cwd := r\<rparr>)"
    using inv by (auto simp: fs_ok_def root_at_def dir_at_def below_top_def heap_top_def kmem_wf_def crypto_ready_def)
  have "fs_abs (st\<lparr>fs_root := r, fs_cwd := r\<rparr>) = fs_abs (st\<lparr>fs_root := r\<rparr>)"
    using same_nodes_abs(1) [of K "st\<lparr>fs_root := r\<rparr>" "st\<lparr>fs_root := r, fs_cwd := r\<rparr>"] inv a
    by (auto simp: fs_ok_def root_at_def dir_at_def below_top_def heap_top_def kmem_wf_def crypto_ready_def)
  then show "fs_rep (st\<lparr>fs_root := r, fs_cwd := r\<rparr>) (fs_abs (st\<lparr>fs_root := r\<rparr>), [])"
    using i by (auto simp: fs_rep_def fs_inv_def cwd_at_def)
qed

subsection \<open>Creating\<close>

lemma treps_parent:
  "treps h b p ts \<Longrightarrow> h a = Some x \<Longrightarrow> treps (h(a \<mapsto> x\<lparr>n_parent := v\<rparr>)) b p ts"
proof (induction h b p ts rule: treps.induct)
  case (2 h b p nm d sz dt ks ts)
  from 2(3) obtain n where n: "p \<noteq> NULL" "h p = Some n" "n_name n = nm" "n_is_dir n = d" "n_size n = sz"
    "data_of b n = dt" "treps h b (n_child n) ks" "treps h b (n_sibling n) ts" by auto
  let ?n = "if p = a then x\<lparr>n_parent := v\<rparr> else n"
  have "(h(a \<mapsto> x\<lparr>n_parent := v\<rparr>)) p = Some ?n" using n(2) by simp
  moreover have "n_name ?n = nm" "n_is_dir ?n = d" "n_size ?n = sz" "data_of b ?n = dt"
    "n_child ?n = n_child n" "n_sibling ?n = n_sibling n"
    using n(2-6) 2(4) by (auto simp: data_of_def)
  ultimately show ?case using n(1,7,8) 2(1,2,4) by auto
qed simp

text \<open>
  A snapshot that nothing of the live tree shares: its nodes lie in a set \<open>A\<close> that no path
  reaches.
\<close>

definition kept :: "ptr set \<Rightarrow> ftree \<Rightarrow> ptr \<Rightarrow> 'a fs_st_scheme \<Rightarrow> bool" where
  "kept A t r st \<longleftrightarrow> A \<subseteq> dom (fs_nodes st) \<and> (\<forall>p \<in> A. \<not> reach st p) \<and>
     treps (fs_nodes st |` A) (fs_bufs st) r [t]"

lemma kept_local:
  assumes k: "kept A t r st" and c: "local_change st st'" and d: "data_ok (fs_nodes st) (fs_bufs st)"
  shows "kept A t r st'"
proof -
  have n: "fs_nodes st' p = fs_nodes st p \<and> \<not> reach st' p" if p: "p \<in> A" for p
  proof -
    obtain x where "fs_nodes st p = Some x" "\<not> reach st p" using k p by (auto simp: kept_def)
    then show ?thesis using local_changeD(8,9) [OF c] by metis
  qed
  have "A \<subseteq> dom (fs_nodes st')" using n k by (fastforce simp: kept_def)
  moreover have "fs_nodes st |` A \<subseteq>\<^sub>m fs_nodes st' |` A" using n by (auto simp: map_le_def restrict_map_def)
  ultimately show ?thesis
    using k n treps_mono [OF _ local_changeD(7) [OF c] data_ok_restrict [OF d]] by (auto simp: kept_def)
qed

lemma kept_trep:
  assumes "kept A t r st" "data_ok (fs_nodes st) (fs_bufs st)"
  shows "treps (fs_nodes st) (fs_bufs st) r [t]"
proof (rule treps_mono [OF _ map_le_refl data_ok_restrict [OF assms(2)]])
  show "fs_nodes st |` A \<subseteq>\<^sub>m fs_nodes st" by (auto simp: map_le_def)
  show "treps (fs_nodes st |` A) (fs_bufs st) r [t]" using assms(1) by (simp add: kept_def)
qed

lemma treps_unique: "treps h b p ts \<Longrightarrow> treps h b p us \<Longrightarrow> us = ts"
proof (induction h b p ts arbitrary: us rule: treps.induct)
  case (1 h b p)
  then show ?case by (cases us) (auto elim: treps.elims)
next
  case (2 h b p nm d sz dt ks ts)
  then show ?case
  proof (cases us)
    case (Cons u us')
    then show ?thesis using 2 by (cases u) auto
  qed auto
qed

lemma root_set_parent:
  assumes g: "grown K st K' s k" and q: "q \<noteq> NULL" "fs_nodes st q = None" "fs_nodes s q = Some m" "\<And>d. q \<notin> set (K' d)"
    and n: "n_parent m = NULL" "n_is_dir m" "n_sibling m = NULL"
  defines "s' \<equiv> s\<lparr>fs_nodes := (fs_nodes s)(q \<mapsto> m\<lparr>n_parent := q\<rparr>)\<rparr>"
  shows "upd_node q (n_parent_update (\<lambda>_. q)) s = Some s'" "grown K st K' s' k" "root_at (fs_nodes s') q"
proof -
  note G = grownD [OF g]
  let ?y = "m\<lparr>n_parent := q\<rparr>"
  show "upd_node q (n_parent_update (\<lambda>_. q)) s = Some s'" using q(3) by (simp add: upd_node_def s'_def)
  show "root_at (fs_nodes s') q" using n by (simp add: root_at_def s'_def)
  note okm = tree_okD(3) [OF fs_okD(4) [OF G(1)] q(3)]
  have tr: "tree_ok ((fs_nodes s)(q \<mapsto> ?y)) K'"
    using q(1) node_okD(1-4,7) [OF okm] by (intro tree_ok_unlisted [OF fs_okD(4) [OF G(1)] q(4)]) auto
  show "grown K st K' s' k"
    unfolding s'_def
  proof (rule grown_set [OF g q(2,3) tr])
    show "unat (n_size ?y) < 2 ^ 20"
      "n_data ?y \<noteq> NULL \<longrightarrow> (\<exists>bs. fs_bufs s (n_data ?y) = Some bs \<and> unat (n_size ?y) < length bs)"
      using fs_okD(5) [OF G(1)] q(3) by (auto simp: data_ok_def)
    show "set (K' q) \<inter> dom (fs_nodes st) = {}" by (rule G(5) [OF q(2)])
  qed (use q(1,3) n in \<open>auto simp: root_at_def\<close>)
qed

text \<open>The copy of the root, whatever the memory: nothing, or a new root.\<close>

lemma root_copy_any:
  assumes inv: "fs_ok K st"
  obtains (none) K' s k where "fs_clone_tree (fs_root st) NULL st = Some (NULL, s)" "grown K st K' s k"
      "\<And>t. treps (fs_nodes st) (fs_bufs st) (fs_root st) [t] \<Longrightarrow> \<not> room st (tree_cost [t])"
  | (copy) K' q s m k where "fs_clone_tree (fs_root st) NULL st = Some (q, s)" "q \<noteq> NULL" "fs_nodes st q = None"
      "fs_nodes s q = Some m" "grown K st K' (s\<lparr>fs_nodes := (fs_nodes s)(q \<mapsto> m\<lparr>n_parent := q\<rparr>)\<rparr>) k"
      "root_at ((fs_nodes s)(q \<mapsto> m\<lparr>n_parent := q\<rparr>)) q"
      "upd_node q (n_parent_update (\<lambda>_. q)) s = Some (s\<lparr>fs_nodes := (fs_nodes s)(q \<mapsto> m\<lparr>n_parent := q\<rparr>)\<rparr>)"
      "\<And>t. treps (fs_nodes st) (fs_bufs st) (fs_root st) [t] \<Longrightarrow> room st (tree_cost [t]) \<Longrightarrow>
         k = tree_cost [t] \<and> treps (fs_nodes s |` (- dom (fs_nodes st))) (fs_bufs s) q [t]"
proof -
  obtain t where t: "treps (fs_nodes st) (fs_bufs st) (fs_root st) [t]" "trees_ok [t]"
    using root_tree [OF inv fs_okD(6) [OF inv]] by blast
  have u: "us = t" if "treps (fs_nodes st) (fs_bufs st) (fs_root st) [us]" for us
    using treps_unique [OF t(1) that] by simp
  obtain K' q s k ns m where cl: "fs_clone_tree (fs_root st) NULL st = Some (q, s)" "linked K st NULL ns K' q s k"
    "ns = take m (map tree_name [t])" "room st (tree_cost [t]) \<longrightarrow> cloned st [t] q s k ns"
    "q \<noteq> NULL \<longrightarrow> dir_at (fs_nodes s) q = dir_at (fs_nodes st) (fs_root st)"
    using clone_chain [OF inv t, of NULL] by blast
  then obtain cs where c: "grown K st K' s k" "chain (fs_nodes s) q cs" "map (name_of (fs_nodes s)) cs = ns"
    "\<And>c. c \<in> set cs \<Longrightarrow> fs_nodes st c = None \<and> (\<forall>d. c \<notin> set (K' d)) \<and>
       (\<exists>m. fs_nodes s c = Some m \<and> n_parent m = NULL)"
    unfolding linked_def by blast
  show thesis
  proof (cases "q = NULL")
    case True
    then have "\<not> room st (tree_cost [t])" using cl(4) by (cases t) (auto simp: cloned_def)
    then show thesis using none [OF cl(1) [unfolded True] c(1)] u by blast
  next
    case False
    have "length cs \<le> 1" using arg_cong [OF c(3), of length] cl(3) by simp
    then have cs: "cs = [q]" using c(2) False by (cases cs rule: remdups_adj.cases) auto
    then obtain x where x: "fs_nodes st q = None" "\<And>d. q \<notin> set (K' d)" "fs_nodes s q = Some x" "n_parent x = NULL"
      "n_sibling x = NULL" using c(2,4) by auto
    have "n_is_dir x" using cl(5) False x(3) fs_okD(6) [OF inv] by (auto simp: dir_at_def root_at_def)
    note R = root_set_parent [OF c(1) False x(1,3,2,4) this x(5)]
    show thesis
      by (rule copy [OF cl(1) False x(1,3) R(2) _ R(1)]) (use R(3) cl(4) u in \<open>auto simp: cloned_def\<close>)
  qed
qed

lemma root_copy:
  assumes inv: "fs_ok K st" and t: "treps (fs_nodes st) (fs_bufs st) (fs_root st) [t]"
    and r: "room st (tree_cost [t])"
  obtains K' q s where "fs_clone_tree (fs_root st) NULL st = Some (q, s)" "q \<noteq> NULL" "fs_nodes st q = None"
    "\<exists>s'. upd_node q (n_parent_update (\<lambda>_. q)) s = Some s' \<and> grown K st K' s' (tree_cost [t]) \<and>
       root_at (fs_nodes s') q \<and> treps (fs_nodes s' |` (- dom (fs_nodes st))) (fs_bufs s') q [t]"
  using inv
proof (cases rule: root_copy_any)
  case (none K' s k)
  then show thesis using t r by blast
next
  case (copy K' q s m k)
  let ?y = "m\<lparr>n_parent := q\<rparr>"
  let ?s = "s\<lparr>fs_nodes := (fs_nodes s)(q \<mapsto> ?y)\<rparr>"
  have c: "k = tree_cost [t]" "treps (fs_nodes s |` (- dom (fs_nodes st))) (fs_bufs s) q [t]"
    using copy(8) [OF t r] by simp_all
  have q: "(fs_nodes s |` (- dom (fs_nodes st))) q = Some m" using copy(3,4) by (auto simp: restrict_map_def)
  have "treps ((fs_nodes s |` (- dom (fs_nodes st)))(q \<mapsto> ?y)) (fs_bufs s) q [t]"
    by (rule treps_parent [OF c(2) q])
  moreover have "(fs_nodes s |` (- dom (fs_nodes st)))(q \<mapsto> ?y) = fs_nodes ?s |` (- dom (fs_nodes st))"
    using copy(3) by (auto simp: restrict_map_def fun_eq_iff)
  ultimately have "treps (fs_nodes ?s |` (- dom (fs_nodes st))) (fs_bufs ?s) q [t]" by simp
  then show thesis using that [OF copy(1-3)] copy(5-7) c(1) by auto
qed

lemma snap_added:
  assumes inv: "fs_ok K st" and g: "grown K st K' s2 k" and q: "root_at (fs_nodes s2) q"
    and nm: "cstring nm" "nm \<noteq> []" "snap_root st nm = None" and s3: "fs_ok K' s3" "p \<noteq> NULL" "unat p < heap_top s3"
    and e: "fs_nodes s3 = fs_nodes s2" "fs_snaps s3 = fs_snaps st" "fs_snaps st p = None"
  defines "x \<equiv> \<lparr>s_name = nm, s_root_copy = q, s_next = snap_head st\<rparr>"
  shows "fs_ok K' (s3\<lparr>fs_snaps := (fs_snaps s3)(p \<mapsto> x), snap_head := p\<rparr>)"
proof -
  let ?s = "s3\<lparr>fs_snaps := (fs_snaps s3)(p \<mapsto> x), snap_head := p\<rparr>"
  obtain ss where ss: "snap_chain (fs_snaps st) (snap_head st) ss" "snaps_ok (fs_nodes st) ss"
    "snap_root st nm = map_option s_root_copy (find (\<lambda>s. s_name s = nm) ss)"
    using inv by (rule snap_list) (use nm(1) in blast)
  have ch: "snap_chain ((fs_snaps st)(p \<mapsto> x)) p (x # ss)"
    using snap_chain_upd [OF ss(1) e(3)] s3(2) by (simp add: x_def)
  have "nm \<notin> s_name ` set ss" using ss(3) nm(3) by (auto simp: find_None_iff)
  moreover have "root_at (fs_nodes st) a \<Longrightarrow> root_at (fs_nodes s2) a" for a
    using grown_node [OF g] by (auto simp: root_at_def)
  ultimately have so: "snaps_ok (fs_nodes s2) (x # ss)" using ss(2) nm(1,2) q by (auto simp: snaps_ok_def x_def)
  show ?thesis
    unfolding fs_ok_def
  proof (intro conjI)
    show "\<exists>ss. snap_chain (fs_snaps ?s) (snap_head ?s) ss \<and> snaps_ok (fs_nodes ?s) ss"
      using ch so e by (intro exI [of _ "x # ss"]) simp
    show "below_top ?s" using fs_okD(3) [OF s3(1)] s3(3) by (auto simp: below_top_def heap_top_def)
  qed (use s3(1) in \<open>simp_all add: fs_ok_def kmem_wf_def crypto_ready_def\<close>)
qed

lemma snapshot_taken:
  assumes inv: "fs_ok K st" and nm: "cstring nm" "nm \<noteq> []" "length nm < 32" "snap_root st nm = None"
    and t: "treps (fs_nodes st) (fs_bufs st) (fs_root st) [t]" "trees_ok [t]"
    and r: "room st (tree_cost [t] + 40)"
  obtains K' q st' where "fs_snap_create (Some nm) st = Some (0, st')" "extends K st K' st'"
    "fs_root st' = fs_root st" "fs_cwd st' = fs_cwd st"
    "unat (heap_offset st') = unat (heap_offset st) + tree_cost [t] + 40"
    "snap_root st' nm = Some q" "treps (fs_nodes st' |` (- dom (fs_nodes st))) (fs_bufs st') q [t]"
    "\<And>x. cstring x \<Longrightarrow> x \<noteq> nm \<Longrightarrow> snap_root st' x = snap_root st x"
proof -
  have rt: "room st (tree_cost [t])" using r by (simp add: room_def)
  obtain K' q s1 where c: "fs_clone_tree (fs_root st) NULL st = Some (q, s1)" "q \<noteq> NULL" "fs_nodes st q = None"
    "\<exists>s'. upd_node q (n_parent_update (\<lambda>_. q)) s1 = Some s' \<and> grown K st K' s' (tree_cost [t]) \<and>
       root_at (fs_nodes s') q \<and> treps (fs_nodes s' |` (- dom (fs_nodes st))) (fs_bufs s') q [t]"
    by (rule root_copy [OF inv t(1) rt])
  then obtain s2 where s2: "upd_node q (n_parent_update (\<lambda>_. q)) s1 = Some s2" "grown K st K' s2 (tree_cost [t])"
    "root_at (fs_nodes s2) q" "treps (fs_nodes s2 |` (- dom (fs_nodes st))) (fs_bufs s2) q [t]" by blast
  note G = grownD [OF s2(2)] and R = rest_ofD [OF grownD(7) [OF s2(2)]]
  obtain p s3 where m: "kmalloc sizeof_snap s2 = (p, s3)" by (rule prod.exhaust)
  obtain ss where ss: "snap_chain (fs_snaps st) (snap_head st) ss" "snaps_ok (fs_nodes st) ss"
    "snap_root st nm = map_option s_root_copy (find (\<lambda>s. s_name s = nm) ss)"
    "snap_find st (snap_head st) nm = Some NULL"
    using inv by (rule snap_list) (use nm in fastforce)
  from m G(1) small_fs_node(4,5) show thesis
  proof (cases rule: fs_kmalloc)
    case oom
    then show ?thesis using r G(6) by (simp add: room_def)
  next
    case ok
    let ?x = "\<lparr>s_name = nm, s_root_copy = q, s_next = snap_head st\<rparr>"
    let ?s = "s3\<lparr>fs_snaps := (fs_snaps s3)(p \<mapsto> ?x), snap_head := p\<rparr>"
    have e: "fs_nodes s3 = fs_nodes s2" "fs_bufs s3 = fs_bufs s2" "fs_snaps s3 = fs_snaps st" "snap_head s3 = snap_head st"
      "fs_root s3 = fs_root st" "fs_cwd s3 = fs_cwd st" "g_key s3 = g_key st" "g_key_len s3 = g_key_len st"
      using ok(2) R by simp_all
    have "kstrncpy nm MAX_SNAP_NAME = nm" using nm(3) kstrncpy_short by (simp add: MAX_SNAP_NAME_def)
    then have run: "fs_snap_create (Some nm) st = Some (0, ?s)"
      using nm ss(4) c(1,2) s2(1) m ok(1) e
      by (simp add: fs_snap_create_def kstrlen_def MAX_SNAP_NAME_def)
    have old: "fs_snaps st p = None" using ok(6) R by simp
    have ch: "snap_chain ((fs_snaps st)(p \<mapsto> ?x)) p (?x # ss)"
      using snap_chain_upd [OF ss(1) old] ok(1) by simp
    have new: "nm \<notin> s_name ` set ss" using ss(3) nm(4) by (auto simp: find_None_iff)
    have up: "root_at (fs_nodes st) a \<Longrightarrow> root_at (fs_nodes s2) a" for a
      using grown_node [OF s2(2)] by (auto simp: root_at_def)
    then have so: "snaps_ok (fs_nodes s2) (?x # ss)"
      using ss(2) new nm(1,2) s2(3) by (auto simp: snaps_ok_def)
    have ok': "fs_ok K' ?s"
      using snap_added [OF inv s2(2,3) nm(1,2,4) ok(3,1) ok(7) e(1,3) old] e(4) by simp
    have ex: "extends K st K' ?s"
      using inv ok' G(2,3,4) e by (simp add: extends_def)
    have roots: "snap_root ?s a = (if a = nm then Some q else snap_root st a)" if a: "cstring a" for a
    proof -
      have old_root: "snap_root st a = map_option s_root_copy (find (\<lambda>s. s_name s = a) ss)"
        using snap_find_chain [OF ss(1) _ a] ss(2) by (auto simp: snaps_ok_def snap_root_def split: option.splits)
      have "\<And>s. s \<in> set (?x # ss) \<Longrightarrow> cstring (s_name s)" using so by (auto simp: snaps_ok_def)
      moreover have "snap_chain (fs_snaps ?s) p (?x # ss)" using ch e by simp
      ultimately obtain x where x: "snap_find ?s p a = Some x"
        "case find (\<lambda>s. s_name s = a) (?x # ss) of None \<Rightarrow> x = NULL | Some s \<Rightarrow> x \<noteq> NULL \<and> fs_snaps ?s x = Some s"
        using snap_find_chain [of ?s p "?x # ss" a] a by blast
      have h: "snap_root ?s a = (if x = NULL then None else map_option s_root_copy (fs_snaps ?s x))"
        using x(1) by (simp add: snap_root_def)
      show ?thesis
      proof (cases "a = nm")
        case True
        then show ?thesis using x(2) h by simp
      next
        case False
        then show ?thesis
          using x(2) h old_root by (cases "find (\<lambda>s. s_name s = a) ss") (auto simp del: fs_st.simps)
      qed
    qed
    show ?thesis
      by (rule that [OF run ex]) (use e G(6) ok(9) roots nm s2(4) in auto)
  qed
qed

lemma root_trees_ok:
  assumes "fs_ok K st" "treps (fs_nodes st) (fs_bufs st) (fs_root st) [t]"
  shows "trees_ok [t]"
  using root_tree [OF assms(1) fs_okD(6) [OF assms(1)]] treps_unique [OF assms(2)] by metis

lemma snapshot_keeps:
  assumes "fs_inv st" "cwd_at st w"
    and "cstring nm" "nm \<noteq> []" "length nm < 32" "snap_files st nm = None"
    and "treps (fs_nodes st) (fs_bufs st) (fs_root st) [t]"
    and "list_all call_ok cs" "room st (tree_cost [t] + 40 + calls_cost cs)"
  shows "\<exists>s1 rs s2 s3. fs_snap_create (Some nm) st = Some (0, s1) \<and>
    fs_inv s1 \<and> unat (heap_offset s1) = unat (heap_offset st) + tree_cost [t] + 40 \<and>
    fs_abs s1 = fs_abs st \<and> cwd_at s1 w \<and>
    snap_files s1 nm = Some (fs_abs st) \<and> (\<forall>x. cstring x \<and> x \<noteq> nm \<longrightarrow> snap_files s1 x = snap_files st x) \<and>
    fs_calls cs s1 = Some (rs, s2) \<and>
    fs_snap_restore (Some nm) s2 = Some (0, s3) \<and> fs_inv s3 \<and> fs_abs s3 = fs_abs st \<and> cwd_at s3 []"
proof -
  obtain K where inv: "fs_ok K st" using assms(1) by (auto simp: fs_inv_def)
  note ok = root_trees_ok [OF inv assms(7)]
  have free: "snap_root st nm = None" using assms(6) by (simp add: snap_files_def)
  have "room st (tree_cost [t] + 40)" using assms(9) by (simp add: room_def)
  then obtain K1 q s1 where s1: "fs_snap_create (Some nm) st = Some (0, s1)" "extends K st K1 s1"
    "fs_root s1 = fs_root st" "fs_cwd s1 = fs_cwd st"
    "unat (heap_offset s1) = unat (heap_offset st) + tree_cost [t] + 40"
    "snap_root s1 nm = Some q" "treps (fs_nodes s1 |` (- dom (fs_nodes st))) (fs_bufs s1) q [t]"
    "\<And>x. cstring x \<Longrightarrow> x \<noteq> nm \<Longrightarrow> snap_root s1 x = snap_root st x"
    by (rule snapshot_taken [OF inv assms(3-5) free assms(7) ok]) blast
  have inv1: "fs_ok K1 s1" and keys1: "g_key s1 = g_key st" "g_key_len s1 = g_key_len st"
    using s1(2) by (auto simp: extends_def)
  have r: "fs_nodes st (fs_root st) \<noteq> None" using root_node [OF inv] by auto
  note look = extends_lookup [OF s1(2) r]
  have abs1: "fs_abs s1 = fs_abs st" using extends_files [OF s1(2) r] s1(3) by (metis fs_root_triv)
  have cwd1: "cwd_at s1 w" using assms(2) look s1(3,4) by (simp add: cwd_at_def)
  have others: "snap_files s1 x = snap_files st x" if x: "cstring x" "x \<noteq> nm" for x
  proof (cases "snap_root st x")
    case (Some p)
    then have "fs_nodes st p \<noteq> None" using snap_root_at [OF inv Some x(1)] by (auto simp: root_at_def)
    then show ?thesis using s1(8) [OF x] Some extends_files [OF s1(2)] by (simp add: snap_files_def)
  qed (use s1(8) [OF x] in \<open>simp add: snap_files_def\<close>)
  let ?A = "dom (fs_nodes s1) - dom (fs_nodes st)"
  have "\<not> reach s1 p" if "p \<in> ?A" for p
    using that look s1(3) fs_lookup_node [OF fs_okD(4) [OF inv] r] by (auto simp: reach_def)
  moreover have "fs_nodes s1 |` ?A = fs_nodes s1 |` (- dom (fs_nodes st))" by (auto simp: restrict_map_def fun_eq_iff)
  ultimately have k1: "kept ?A t q s1" using s1(7) by (simp add: kept_def)
  have same: "fs_snap_restore (Some nm) s = Some (0, s\<lparr>fs_root := q, fs_cwd := q\<rparr>) \<and>
      fs_rep (s\<lparr>fs_root := q, fs_cwd := q\<rparr>) (fs_abs st, []) \<and> snap_files s nm = Some (fs_abs st)"
    if s: "fs_rep s A" "local_change s1 s" for s A
  proof -
    obtain K2 where inv2: "fs_ok K2 s" using s(1) by (auto simp: fs_rep_def fs_inv_def)
    have root: "snap_root s nm = Some q"
      using snap_root_cong [OF local_changeD(2,3) [OF s(2)] inv1 inv2 assms(3)] s1(6) by simp
    note R = restored [OF inv2 assms(3,4) root]
    have "treps (fs_nodes s) (fs_bufs s) q [t]"
      by (rule kept_trep [OF kept_local [OF k1 s(2) fs_okD(5) [OF inv1]] fs_okD(5) [OF inv2]])
    then have "fs_abs (s\<lparr>fs_root := q, fs_cwd := q\<rparr>) = fs_abs st"
      using same_trees_abs [OF assms(7) _ ok inv R(3)] local_changeD(4,5) [OF s(2)] keys1 by simp
    then show ?thesis using R root by (simp add: fs_rep_def snap_files_def)
  qed
  have rep1: "fs_rep s1 (fs_abs st, w)" using inv1 abs1 cwd1 by (auto simp: fs_rep_def fs_inv_def)
  have "room s1 (calls_cost cs + 0)" using assms(9) s1(5) by (simp add: room_def)
  then obtain rs s2 A where s2: "fs_calls cs s1 = Some (rs, s2)" "fs_rep s2 A" "local_change s1 s2"
    using calls_simulate [OF rep1 assms(8)] by blast
  show ?thesis
    using s1(1,5) abs1 cwd1 others s2(1) same [OF rep1] same [OF s2(2,3)] rep1 by (auto simp: fs_rep_def)
qed

text \<open>
  C4: A snapshot keeps the files it was taken of. Take any file system that satisfies the
  invariant, with a working directory that a path from the root reaches, a free name of 1 to 31
  characters, and room on the heap for a copy of the tree and for the calls that follow.
  \<open>fs_snap_create\<close> returns 0 and changes neither the live tree, the working directory nor the
  other snapshots. After any sequence of calls that make, write and enter files and
  directories, \<open>fs_snap_restore\<close> of the name returns 0 and the tree is, entry by entry and byte
  by byte, the one at the time of the snapshot, with the root as working directory.
\<close>

theorem snapshot_roundtrip:
  assumes "fs_inv st" "cwd_at st w"
    and "cstring nm" "nm \<noteq> []" "length nm < 32" "snap_files st nm = None"
    and "treps (fs_nodes st) (fs_bufs st) (fs_root st) [t]"
    and "list_all call_ok cs" "room st (tree_cost [t] + 40 + calls_cost cs)"
  shows "\<exists>s1 rs s2 s3. fs_snap_create (Some nm) st = Some (0, s1) \<and>
    fs_abs s1 = fs_abs st \<and> cwd_at s1 w \<and>
    snap_files s1 nm = Some (fs_abs st) \<and> (\<forall>x. cstring x \<and> x \<noteq> nm \<longrightarrow> snap_files s1 x = snap_files st x) \<and>
    fs_calls cs s1 = Some (rs, s2) \<and>
    fs_snap_restore (Some nm) s2 = Some (0, s3) \<and> fs_inv s3 \<and> fs_abs s3 = fs_abs st \<and> cwd_at s3 []"
  using snapshot_keeps [OF assms] by blast

lemma fs_st1_tree:
  "treps (fs_nodes fs_st1) (fs_bufs fs_st1) (fs_root fs_st1) [Tree [slash] True 0 None []]"
  "snap_files fs_st1 ''base'' = None"
  using root_node [OF fs_st1_ok(1)]
  by (simp_all add: fs_st1_ok(4,6) data_of_def snap_files_def snap_root_def snap_find.simps)

theorem snapshot_roundtrip_witness:
  "\<exists>s1 rs s2 s3. fs_snap_create (Some ''base'') fs_st1 = Some (0, s1) \<and>
     fs_calls [Mkdir ''/tmp'', Write ''/tmp/notes'' ''hi'', Chdir ''tmp''] s1 = Some (rs, s2) \<and>
     fs_snap_restore (Some ''base'') s2 = Some (0, s3) \<and> fs_abs s3 = [[] \<mapsto> Dir]"
proof -
  let ?cs = "[Mkdir ''/tmp'', Write ''/tmp/notes'' ''hi'', Chdir ''tmp'']"
  let ?t = "Tree [slash] True 0 None []"
  note t = fs_st1_tree(1) and free = fs_st1_tree(2)
  have "room fs_st1 (tree_cost [?t] + 40 + calls_cost ?cs)" by (simp add: room_def fs_st1_ok(5) calls_cost_def)
  moreover have "list_all call_ok ?cs" by (simp add: data_fits_def)
  ultimately show ?thesis
    using snapshot_roundtrip [OF fs_st1_rep(1,2) _ _ _ free t, of ?cs] fs_st1_rep(3) by auto
qed

text \<open>
  C20: A restored snapshot is no longer kept. \<open>fs_snap_restore\<close> makes the copy itself the live
  tree, so the calls that follow change the snapshot: after a restore and any sequence of
  calls for which the heap has room, a second \<open>fs_snap_restore\<close> of the same name returns 0 and gives the changed files, not
  the ones of the snapshot. (The snapshot could be kept by copying it once more when it is
  restored.)
\<close>

theorem snapshot_overwritten:
  assumes "fs_inv st" "cstring nm" "nm \<noteq> []" "snap_files st nm = Some F"
    and "list_all call_ok cs" "room st (calls_cost cs)"
  shows "\<exists>s1 s2 s3 rs B w. fs_snap_restore (Some nm) st = Some (0, s1) \<and> fs_abs s1 = F \<and>
    fs_calls cs s1 = Some (rs, s2) \<and> a_calls cs (F, []) = (rs, B, w) \<and>
    fs_snap_restore (Some nm) s2 = Some (0, s3) \<and> fs_abs s3 = B"
proof -
  obtain K where inv: "fs_ok K st" using assms(1) by (auto simp: fs_inv_def)
  obtain r where r: "snap_root st nm = Some r" "F = fs_abs (st\<lparr>fs_root := r\<rparr>)"
    using assms(4) by (auto simp: snap_files_def)
  note R = restored [OF inv assms(2,3) r(1)]
  let ?s1 = "st\<lparr>fs_root := r, fs_cwd := r\<rparr>"
  have "room ?s1 (calls_cost cs + 0)" using assms(6) by (simp add: room_def)
  then obtain s2 where s2: "fs_calls cs ?s1 = Some (fst (a_calls cs (F, [])), s2)"
    "fs_rep s2 (snd (a_calls cs (F, [])))" "local_change ?s1 s2"
    using calls_simulate [OF R(2)[folded r(2)] assms(5)] by blast
  obtain K2 where inv2: "fs_ok K2 s2" using s2(2) by (auto simp: fs_rep_def fs_inv_def)
  have r1: "snap_root ?s1 nm = Some r" using snap_root_cong [OF _ _ inv R(3) assms(2)] r(1) by simp
  have r2: "snap_root s2 nm = Some r"
    using snap_root_cong [OF local_changeD(2,3) [OF s2(3)] R(3) inv2 assms(2)] r1 by simp
  have "fs_root s2 = r" using local_changeD(1) [OF s2(3)] by simp
  then have "fs_abs (s2\<lparr>fs_root := r\<rparr>) = fs_abs s2" by (metis fs_root_triv)
  then show ?thesis
    using R(1,2) restored(1,2) [OF inv2 assms(2,3) r2] s2(1,2) r(2)
    by (cases "a_calls cs (F, [])") (auto simp: fs_rep_def)
qed

theorem snapshot_overwritten_witness:
  "\<exists>s0 s1 s2 s3 rs. fs_snap_create (Some ''base'') fs_st1 = Some (0, s0) \<and> snap_files s0 ''base'' = Some [[] \<mapsto> Dir] \<and>
     fs_snap_restore (Some ''base'') s0 = Some (0, s1) \<and> fs_calls [Mkdir ''/tmp''] s1 = Some (rs, s2) \<and>
     fs_snap_restore (Some ''base'') s2 = Some (0, s3) \<and> fs_abs s3 [''tmp''] = Some Dir"
proof -
  let ?t = "Tree [slash] True 0 None []"
  note t = fs_st1_tree(1) and free = fs_st1_tree(2)
  have "room fs_st1 (tree_cost [?t] + 40 + calls_cost [])" by (simp add: room_def fs_st1_ok(5) calls_cost_def)
  then obtain s0 where s0: "fs_snap_create (Some ''base'') fs_st1 = Some (0, s0)" "fs_inv s0"
    "snap_files s0 ''base'' = Some [[] \<mapsto> Dir]" "unat (heap_offset s0) = 56 + tree_cost [?t] + 40"
    using snapshot_keeps [OF fs_st1_rep(1,2) _ _ _ free t, of "[]"] fs_st1_rep(3) fs_st1_ok(5) by auto
  have a: "fst (snd (a_calls [Mkdir ''/tmp''] ([[] \<mapsto> Dir], []))) [''tmp''] = Some Dir" by code_simp
  have "room s0 (calls_cost [Mkdir ''/tmp''])" using s0(4) by (simp add: room_def calls_cost_def)
  then obtain s1 s2 s3 rs B w where "fs_snap_restore (Some ''base'') s0 = Some (0, s1)"
    "fs_calls [Mkdir ''/tmp''] s1 = Some (rs, s2)" "a_calls [Mkdir ''/tmp''] ([[] \<mapsto> Dir], []) = (rs, B, w)"
    "fs_snap_restore (Some ''base'') s2 = Some (0, s3)" "fs_abs s3 = B"
    using snapshot_overwritten [OF s0(2) _ _ s0(3), of "[Mkdir ''/tmp'']"] by auto
  then show ?thesis using s0(1,3) a by auto
qed

end
