(* ===== verification/Fs_Safe.thy ===== *)
theory Fs_Safe
  imports Fs_Snap Fs_Find
begin

text \<open>
  No operation of the file system fails to return or breaks the invariant, whatever its
  arguments, the shape of the tree and the memory that is left, with two exceptions that the
  hypotheses name: a rename into the subtree that is moved, and a search in a tree with a path
  that is too long for its buffer. \<open>keeps\<close> says it of one call: the call returns, the
  invariant holds afterwards, and the state of the other components is as before.
\<close>

definition outside :: "'a fs_st_scheme \<Rightarrow> 'a fs_st_scheme" where
  "outside st = st\<lparr>con_out := [], heap_offset := 0, fs_nodes := Map.empty, fs_bufs := Map.empty,
     fs_snaps := Map.empty, fs_root := 0, fs_cwd := 0, snap_head := 0\<rparr>"

lemma outside_upd [simp]:
  "outside (st\<lparr>heap_offset := k\<rparr>) = outside st" "outside (st\<lparr>fs_nodes := h\<rparr>) = outside st"
  "outside (st\<lparr>fs_bufs := b\<rparr>) = outside st" "outside (st\<lparr>fs_snaps := m\<rparr>) = outside st"
  "outside (st\<lparr>fs_root := p\<rparr>) = outside st" "outside (st\<lparr>fs_cwd := p\<rparr>) = outside st"
  "outside (st\<lparr>snap_head := p\<rparr>) = outside st" "outside (con_call f c st) = outside st"
  by (simp_all add: outside_def con_call_def)

lemma outside_oom [simp]: "outside (oom_msg st) = outside st"
  by (simp add: oom_msg_def)

lemma outsideD:
  assumes "outside s = outside t"
  shows "log_buf s = log_buf t" "log_head s = log_head t" "log_count s = log_count t"
    "g_key s = g_key t" "g_key_len s = g_key_len t" "fs_st.more s = fs_st.more t"
  using assms by (cases s; cases t; simp add: outside_def)+

definition keeps :: "'a fs_st_scheme \<Rightarrow> ('b \<times> 'a fs_st_scheme) option \<Rightarrow> bool" where
  "keeps st m \<longleftrightarrow> runs m (\<lambda>(r, st'). fs_inv st' \<and> outside st' = outside st)"

lemma keeps_Some: "keeps st (Some (r, st')) \<longleftrightarrow> fs_inv st' \<and> outside st' = outside st"
  by (simp add: keeps_def)

lemma keepsE:
  assumes "keeps st m"
  obtains r st' where "m = Some (r, st')" "fs_inv st'" "outside st' = outside st"
  using assms by (auto simp: keeps_def runs_def)

lemma fs_okI: "fs_ok K st \<Longrightarrow> fs_inv st"
  by (auto simp: fs_inv_def)

lemma fs_inv_oom [simp]: "fs_inv (oom_msg st) = fs_inv st"
  by (simp add: fs_inv_def)

subsection \<open>What the steps change\<close>

lemma kmalloc_outside: "kmalloc k st = (p, st') \<Longrightarrow> outside st' = outside st"
  by (auto simp: kmalloc_def Let_def split: if_splits)

lemma fs_new_node_outside: "fs_new_node c d st = (p, st') \<Longrightarrow> outside st' = outside st"
  by (auto simp: fs_new_node_def Let_def split: prod.splits if_splits dest: kmalloc_outside)

lemma upd_node_outside: "upd_node p f st = Some st' \<Longrightarrow> outside st' = outside st"
  by (auto simp: upd_node_def split: option.splits)

lemma link_child_outside: "link_child p n st = Some st' \<Longrightarrow> outside st' = outside st"
  by (auto simp: link_child_def dest!: upd_node_outside elim!: bind_SomeE)

lemma put_buf_outside [simp]: "outside (put_buf p bs st) = outside st"
  by (simp add: put_buf_def)

lemma created_outside: "created K st d c isd n st2 \<Longrightarrow> outside st2 = outside st"
  by (auto simp: created_def)

lemma store_data_outside: "store_data p data st = Some (r, st') \<Longrightarrow> outside st' = outside st"
  by (auto simp: store_data_def Let_def dest!: upd_node_outside kmalloc_outside
      split: if_splits prod.splits elim!: bind_SomeE)

lemma copy_data_outside: "copy_data src p st = Some (r, st') \<Longrightarrow> outside st' = outside st"
  by (auto simp: copy_data_def Let_def dest!: upd_node_outside kmalloc_outside
      split: if_splits prod.splits elim!: bind_SomeE)

lemma write_link_outside: "write_link l p st = Some st' \<Longrightarrow> outside st' = outside st"
  by (cases l) (auto dest: upd_node_outside)


lemma detach_loop_outside: "detach_loop l n st = Some st' \<Longrightarrow> outside st' = outside st"
proof (induction rule: detach_loop.raw_induct [rotated, consumes 1])
  case (1 detach_loop' l n st st')
  from 1(2) show ?case
    by (auto dest!: upd_node_outside write_link_outside 1(1) split: if_splits elim!: bind_SomeE)
qed

lemma detach_outside: "fs_detach_from_parent n st = Some st' \<Longrightarrow> outside st' = outside st"
  by (auto simp: fs_detach_from_parent_def dest!: detach_loop_outside split: if_splits elim!: bind_SomeE)

lemma fs_unlink_outside: "fs_unlink p st = Some (r, st') \<Longrightarrow> outside st' = outside st"
  by (auto simp: fs_unlink_def dest!: detach_outside split: if_splits elim!: bind_SomeE)

lemma fs_rmdir_outside: "fs_rmdir p st = Some (r, st') \<Longrightarrow> outside st' = outside st"
  by (auto simp: fs_rmdir_def dest!: detach_outside split: if_splits elim!: bind_SomeE)

lemma fs_rename_outside: "fs_rename p q st = Some (r, st') \<Longrightarrow> outside st' = outside st"
  by (auto simp: fs_rename_def dest!: detach_outside upd_node_outside link_child_outside
      split: if_splits elim!: bind_SomeE)

lemma fs_mkdir_outside: "fs_mkdir p st = Some (r, st') \<Longrightarrow> outside st' = outside st"
  by (auto simp: fs_mkdir_def Let_def dest!: fs_new_node_outside link_child_outside
      split: if_splits prod.splits elim!: bind_SomeE)

lemma fs_touch_outside: "fs_touch p st = Some (r, st') \<Longrightarrow> outside st' = outside st"
  by (auto simp: fs_touch_def Let_def dest!: fs_new_node_outside link_child_outside
      split: if_splits prod.splits elim!: bind_SomeE)

lemma fs_write_outside: "fs_write p q st = Some (r, st') \<Longrightarrow> outside st' = outside st"
  by (auto simp: fs_write_def dest!: fs_touch_outside store_data_outside split: if_splits elim!: bind_SomeE)

lemma fs_chdir_outside: "fs_chdir p st = Some (r, st') \<Longrightarrow> outside st' = outside st"
  by (auto simp: fs_chdir_def split: if_splits elim!: bind_SomeE)

lemma fs_read_outside: "fs_read p st = Some (r, st') \<Longrightarrow> outside st' = outside st"
  by (auto simp: fs_read_def Let_def dest!: kmalloc_outside split: if_splits prod.splits elim!: bind_SomeE)

lemma fs_init_outside: "fs_init st = Some st' \<Longrightarrow> outside st' = outside st"
  by (auto simp: fs_init_def Let_def dest!: fs_new_node_outside upd_node_outside split: prod.splits elim!: bind_SomeE)

lemma fs_write_cwd_outside: "fs_write_cwd p q st = Some (r, st') \<Longrightarrow> outside st' = outside st"
  by (auto simp: fs_write_cwd_def Let_def dest!: fs_new_node_outside link_child_outside store_data_outside
      split: if_splits prod.splits elim!: bind_SomeE)

lemma fs_copy_outside: "fs_copy p q st = Some (r, st') \<Longrightarrow> outside st' = outside st"
  by (auto simp: fs_copy_def Let_def dest!: fs_new_node_outside link_child_outside copy_data_outside
      split: if_splits prod.splits elim!: bind_SomeE)

subsection \<open>Creation and contents\<close>

lemma fs_mkdir_keeps:
  assumes inv: "fs_inv st" and p: "cstring path"
  shows "keeps st (fs_mkdir (Some path) st)"
proof -
  from inv obtain K where "fs_ok K st" by (auto simp: fs_inv_def)
  from this p show ?thesis
  proof (cases rule: fs_mkdir_cases)
    case (fail st')
    then show ?thesis using inv by (auto simp: keeps_Some)
  next
    case (ok d c n st')
    then show ?thesis using createdD(9) [OF ok(3)] created_outside by (auto simp: keeps_Some fs_okI)
  qed
qed

lemma fs_touch_keeps:
  assumes inv: "fs_inv st" and p: "cstring path"
  shows "keeps st (fs_touch (Some path) st)"
proof -
  from inv obtain K where "fs_ok K st" by (auto simp: fs_inv_def)
  from this p show ?thesis
  proof (cases rule: fs_touch_cases)
    case (fail st')
    then show ?thesis using inv by (auto simp: keeps_Some)
  next
    case (ok d c n st')
    then show ?thesis using createdD(9) [OF ok(3)] created_outside by (auto simp: keeps_Some fs_okI)
  qed
qed

lemma fs_write_keeps:
  assumes inv: "fs_inv st" and p: "cstring path" "data_fits data"
  shows "keeps st (fs_write (Some path) (Some data) st)"
proof -
  from inv obtain K where "fs_ok K st" by (auto simp: fs_inv_def)
  from this p show ?thesis
  proof (cases rule: fs_write_cases)
    case (fail st')
    then show ?thesis using inv by (auto simp: keeps_Some)
  next
    case (half d c n st2)
    then show ?thesis using createdD(9) [OF half(2)] created_outside by (auto simp: keeps_Some fs_okI)
  next
    case (ok d c n st2 st')
    note C = createdD [OF ok(5)]
    have "fs_inv st'" using stored_read(1) [OF C(9) ok(7) _ p(2) ok(6)] by (auto simp: fs_inv_def)
    then show ?thesis using ok(1) store_data_outside [OF ok(6)] created_outside [OF ok(5)] by (simp add: keeps_Some)
  qed
qed

lemma fs_write_cwd_keeps:
  assumes inv: "fs_inv st" and p: "valid_name name" "data_fits data"
  shows "keeps st (fs_write_cwd (Some name) (Some data) st)"
proof -
  from inv obtain K where "fs_ok K st" by (auto simp: fs_inv_def)
  from fs_write_cwd_inv [OF this p] show ?thesis
    using fs_write_cwd_outside by (auto simp: keeps_Some fs_okI)
qed

lemma fs_copy_keeps:
  assumes inv: "fs_inv st" and p: "cstring sp" "cstring dp"
  shows "keeps st (fs_copy (Some sp) (Some dp) st)"
proof -
  from inv obtain K where "fs_ok K st" by (auto simp: fs_inv_def)
  from this p show ?thesis
  proof (cases rule: fs_copy_cases)
    case (fail K' st')
    then show ?thesis using fs_copy_outside by (auto simp: keeps_Some fs_okI)
  next
    case (ok src s d c n st2 st' K')
    then show ?thesis using fs_copy_outside [OF ok(1)] by (simp add: keeps_Some fs_okI)
  qed
qed

text \<open>\<open>fs_read\<close> returns a buffer of the store, or null.\<close>

lemma fs_read_keeps:
  assumes inv: "fs_inv st" and p: "cstring path"
  shows "runs (fs_read (Some path) st) (\<lambda>(buf, st'). fs_inv st' \<and> outside st' = outside st \<and>
    (buf \<noteq> NULL \<longrightarrow> (\<exists>bs. fs_bufs st' buf = Some (bs @ [0]))))"
proof -
  from inv obtain K where ok: "fs_ok K st" by (auto simp: fs_inv_def)
  show ?thesis
  proof (cases "path = []")
    case True
    then show ?thesis using inv by (simp add: fs_read_def fs_resolve_def)
  next
    case False
    from ok p False show ?thesis
    proof (cases rule: resolve_cases)
      case none
      then show ?thesis using inv by (simp add: fs_read_def)
    next
      case root
      obtain r where "fs_nodes st (fs_root st) = Some r" "n_is_dir r" "fs_root st \<noteq> NULL" using ok by (rule root_node)
      then show ?thesis using root inv by (simp add: fs_read_def)
    next
      case (kid q d n)
      show ?thesis
      proof (cases "n_is_dir n \<or> n_data n = NULL \<or> n_size n = 0")
        case True
        then show ?thesis using kid inv by (auto simp: fs_read_def)
      next
        case n: False
        then obtain bs out where b: "fs_bufs st (n_data n) = Some bs"
          "crypto_decrypt st (take (unat (n_size n)) bs) (unat (n_size n)) = Some out"
          using content_total [OF ok kid(4)] kid(4)
          by (auto simp: content_def read_bytes_def split: option.splits if_splits bind_splits)
        have f: "\<not> n_is_dir n" "n_data n \<noteq> NULL" "n_size n \<noteq> 0" using n by simp_all
        from ok p False kid(1,4) f b show ?thesis
        proof (cases rule: fs_read_cases)
          case oom
          then show ?thesis using inv by simp
        next
          case s: (ok buf st')
          then show ?thesis by (auto simp: fs_okI)
        qed
      qed
    qed
  qed
qed


subsection \<open>Removal and renaming\<close>

lemma fs_unlink_keeps:
  assumes inv: "fs_inv st" and p: "cstring path"
  shows "keeps st (fs_unlink (Some path) st)"
proof (cases "path = []")
  case True
  then show ?thesis using inv by (simp add: fs_unlink_def fs_resolve_def keeps_Some)
next
  case False
  from inv obtain K where "fs_ok K st" by (auto simp: fs_inv_def)
  from this p False show ?thesis
  proof (cases rule: fs_unlink_cases)
    case fail
    then show ?thesis using inv by (simp add: keeps_Some)
  next
    case (ok q n st')
    then show ?thesis using fs_unlink_outside [OF ok(1)] by (simp add: keeps_Some removed_def)
  qed
qed

lemma fs_rmdir_keeps:
  assumes inv: "fs_inv st" and p: "cstring path"
  shows "keeps st (fs_rmdir (Some path) st)"
proof (cases "path = []")
  case True
  then show ?thesis using inv by (simp add: fs_rmdir_def fs_resolve_def keeps_Some)
next
  case False
  from inv obtain K where "fs_ok K st" by (auto simp: fs_inv_def)
  from this p False show ?thesis
  proof (cases rule: fs_rmdir_cases)
    case fail
    then show ?thesis using inv by (simp add: keeps_Some)
  next
    case (ok q n st')
    then show ?thesis using fs_rmdir_outside [OF ok(1)] by (simp add: keeps_Some removed_def)
  qed
qed

text \<open>The target of a rename does not lie below what is moved.\<close>

definition rename_apart :: "'a fs_st_scheme \<Rightarrow> string \<Rightarrow> string \<Rightarrow> bool" where
  "rename_apart st old new \<longleftrightarrow>
     (\<forall>src d c cs. fs_lookup st (path_base st old) (components old) = Some src \<longrightarrow>
        create_target st new = Some (d, c) \<longrightarrow> list_all cstring cs \<longrightarrow> fs_lookup st src cs \<noteq> Some d)"

lemma fs_rename_keeps:
  assumes inv: "fs_inv st" and p: "cstring old" "cstring new" and ap: "rename_apart st old new"
  shows "keeps st (fs_rename (Some old) (Some new) st)"
proof (cases "old = [] \<or> new = []")
  case True
  from inv obtain K where ok: "fs_ok K st" by (auto simp: fs_inv_def)
  have "fs_rename (Some old) (Some new) st = Some (- 1, st)"
  proof (cases "old = []")
    case False
    from ok p(1) False show ?thesis
      by (cases rule: resolve_cases) (use True False in \<open>auto simp: fs_rename_def fs_resolve_def\<close>)
  qed (simp add: fs_rename_def fs_resolve_def)
  then show ?thesis using inv by (simp add: keeps_Some)
next
  case ne: False
  then have o: "old \<noteq> []" and w: "new \<noteq> []" by simp_all
  from inv obtain K where ok: "fs_ok K st" by (auto simp: fs_inv_def)
  from ok p(2) w show ?thesis
  proof (cases rule: resolve_target)
    case (fail par lst)
    from ok p(1) o have "fs_rename (Some old) (Some new) st = Some (- 1, st)"
      by (cases rule: resolve_cases) (use fail in \<open>auto simp: fs_rename_def\<close>)
    then show ?thesis using inv by (simp add: keeps_Some)
  next
    case (target d dn c)
    have c: "c \<noteq> []" using target(3) by (simp add: valid_name_def)
    from ok p(1) o show ?thesis
    proof (cases rule: resolve_cases)
      case none
      then show ?thesis using inv by (simp add: fs_rename_def keeps_Some)
    next
      case root
      then have "fs_rename (Some old) (Some new) st = Some (- 1, st)"
        using target c by (auto simp: fs_rename_def)
      then show ?thesis using inv by (simp add: keeps_Some)
    next
      case (kid q sd n)
      have ne: "q \<noteq> fs_root st"
        using root_unlisted [OF fs_okD(4) [OF ok] fs_okD(6) [OF ok]] kid(3) by metis
      have "(q, d) \<notin> (edges K)\<^sup>*" using edges_lookup [OF ok] ap kid(1) target(1) by (auto simp: rename_apart_def)
      from ok kid(3,4) target(4,5,3,6) this obtain K' st' where st':
        "do { st \<leftarrow> fs_detach_from_parent q st;
              st \<leftarrow> upd_node q (n_name_update (\<lambda>_. kstrncpy c MAX_NAME_LEN)) st;
              link_child d q st } = Some st'" "fs_ok K' st'"
        by (rule fs_rename_move) blast
      then have "fs_rename (Some old) (Some new) st = Some (0, st')"
        using fs_rename_unfold [OF ok p(1) o p(2) w kid(1) ne target(1)] by (auto split: bind_splits)
      then show ?thesis using st'(2) fs_rename_outside by (auto simp: keeps_Some fs_okI)
    qed
  qed
qed

subsection \<open>The working directory\<close>

lemma fs_chdir_keeps:
  assumes inv: "fs_inv st" and p: "cstring path"
  shows "keeps st (fs_chdir (Some path) st)"
proof (cases "path = []")
  case True
  then show ?thesis using inv by (simp add: fs_chdir_def keeps_Some)
next
  case False
  from inv obtain K where "fs_ok K st" by (auto simp: fs_inv_def)
  from this p False show ?thesis
  proof (cases rule: fs_chdir_cases)
    case (ok q)
    then show ?thesis by (simp add: keeps_Some fs_okI)
  qed (use inv in \<open>simp add: keeps_Some\<close>)
qed

lemma getcwd_loop_total:
  assumes inv: "fs_ok K st"
  shows "n = NULL \<or> fs_nodes st n \<noteq> None \<Longrightarrow> cstring tmp \<Longrightarrow>
    \<exists>s. getcwd_loop st n tmp = Some s \<and> cstring s"
proof (induction "MAX_PATH_LEN - length tmp" arbitrary: n tmp rule: less_induct)
  case less
  show ?case
  proof (cases "n \<noteq> NULL \<and> n \<noteq> fs_root st")
    case True
    then obtain d where d: "fs_nodes st n = Some d" using less(2) by auto
    note ok = tree_okD(3) [OF fs_okD(4) [OF inv] d]
    have step: "getcwd_loop st n tmp =
        (if MAX_PATH_LEN \<le> length tmp + kstrlen (n_name d) + 1 then Some tmp
         else getcwd_loop st (n_parent d) (slash # n_name d @ tmp))"
      using True d by (simp add: getcwd_loop.simps [of st n tmp])
    have "\<exists>s. getcwd_loop st (n_parent d) (slash # n_name d @ tmp) = Some s \<and> cstring s"
      if "\<not> MAX_PATH_LEN \<le> length tmp + kstrlen (n_name d) + 1"
      by (rule less(1)) (use that less(3) node_okD(2,7) [OF ok] in \<open>auto simp: kstrlen_def\<close>)
    then show ?thesis using step less(3) by auto
  qed (use less(3) in \<open>auto simp: getcwd_loop.simps\<close>)
qed

lemma fs_getcwd_total:
  assumes "fs_inv st"
  obtains s where "fs_getcwd st = Some s" "cstring s" "s \<noteq> []"
proof -
  from assms obtain K where ok: "fs_ok K st" by (auto simp: fs_inv_def)
  obtain d where "fs_nodes st (fs_cwd st) = Some d" using ok by (rule cwd_node)
  then obtain s where "getcwd_loop st (fs_cwd st) [] = Some s" "cstring s"
    using getcwd_loop_total [OF ok, of "fs_cwd st" "[]"] by auto
  then show thesis
    using that [of "[slash]"] that [of s] by (cases "fs_cwd st = fs_root st \<or> s = []") (auto simp: fs_getcwd_def)
qed

subsection \<open>Snapshots\<close>

lemma snap_lookup:
  assumes "fs_ok K st" "cstring nm"
  obtains p where "snap_find st (snap_head st) nm = Some p" "p = NULL \<longleftrightarrow> snap_root st nm = None"
proof -
  obtain ss where "snap_find st (snap_head st) nm \<noteq> None \<and>
      (snap_find st (snap_head st) nm = Some NULL \<longleftrightarrow> snap_root st nm = None)"
    using assms(1) by (rule snap_list) (use assms(2) in blast)
  then show thesis using that by auto
qed

lemma fs_snap_create_keeps:
  assumes inv: "fs_inv st" and nm: "cstring nm"
  shows "keeps st (fs_snap_create (Some nm) st)"
proof -
  from inv obtain K where ok: "fs_ok K st" by (auto simp: fs_inv_def)
  have grown: "fs_inv s \<and> outside s = outside st" if "grown K st K' s k" for K' s k
  proof -
    have r: "rest_of s = rest_of st" using that by (simp add: grown_def)
    have "outside s = outside (rest_of s)" for s :: "'a fs_st_scheme" by (simp add: outside_def rest_of_def)
    then show ?thesis using r grownD(1) [OF that] by (metis fs_okI)
  qed
  obtain old where old: "snap_find st (snap_head st) nm = Some old" "old = NULL \<longleftrightarrow> snap_root st nm = None"
    using ok nm by (rule snap_lookup)
  show ?thesis
  proof (cases "nm = [] \<or> 32 \<le> length nm \<or> old \<noteq> NULL")
    case True
    then have "fs_snap_create (Some nm) st = Some (- 1, st)"
      using old(1) by (auto simp: fs_snap_create_def kstrlen_def MAX_SNAP_NAME_def)
    then show ?thesis using inv by (simp add: keeps_Some)
  next
    case False
    then have free: "nm \<noteq> []" "length nm < 32" "snap_root st nm = None" using old(2) by simp_all
    from ok show ?thesis
    proof (cases rule: root_copy_any)
      case (none K' s k)
      then have "fs_snap_create (Some nm) st = Some (- 1, s)"
        using False old(1) by (simp add: fs_snap_create_def kstrlen_def MAX_SNAP_NAME_def)
      then show ?thesis using grown [OF none(2)] by (simp add: keeps_Some)
    next
      case (copy K' q s m k)
      let ?s = "s\<lparr>fs_nodes := (fs_nodes s)(q \<mapsto> m\<lparr>n_parent := q\<rparr>)\<rparr>"
      obtain p s3 where k: "kmalloc sizeof_snap ?s = (p, s3)" by (rule prod.exhaust)
      from k grownD(1) [OF copy(5)] small_fs_node(4,5) show ?thesis
      proof (cases rule: fs_kmalloc)
        case oom
        then have "fs_snap_create (Some nm) st = Some (- 1, s3)"
          using False old(1) copy(1,2,7) k by (simp add: fs_snap_create_def kstrlen_def MAX_SNAP_NAME_def)
        then show ?thesis using oom(2,3) grown [OF copy(5)] by (simp add: keeps_Some fs_okI)
      next
        case ok3: ok
        let ?x = "\<lparr>s_name = nm, s_root_copy = q, s_next = snap_head st\<rparr>"
        let ?t = "s3\<lparr>fs_snaps := (fs_snaps s3)(p \<mapsto> ?x), snap_head := p\<rparr>"
        have r: "fs_snaps ?s = fs_snaps st" "snap_head ?s = snap_head st"
          using rest_ofD [OF grownD(7) [OF copy(5)]] by simp_all
        then have e: "fs_nodes s3 = fs_nodes ?s" "fs_snaps s3 = fs_snaps st" "fs_snaps st p = None" "snap_head s3 = snap_head st"
          using ok3(2,6) by simp_all
        have "kstrncpy nm MAX_SNAP_NAME = nm" using free(2) kstrncpy_short by (simp add: MAX_SNAP_NAME_def)
        then have "fs_snap_create (Some nm) st = Some (0, ?t)"
          using False old(1) copy(1,2,7) k ok3(1) e(4) by (simp add: fs_snap_create_def kstrlen_def MAX_SNAP_NAME_def)
        moreover have "root_at (fs_nodes ?s) q" using copy(6) by simp
        then have "fs_ok K' ?t"
          by (rule snap_added [OF ok copy(5) _ nm free(1,3) ok3(3,1,7) e(1-3)])
        moreover have "outside s3 = outside st" using ok3(2) grown [OF copy(5)] by simp
        ultimately show ?thesis by (simp add: keeps_Some fs_okI)
      qed
    qed
  qed
qed

lemma fs_snap_restore_keeps:
  assumes inv: "fs_inv st" and nm: "cstring nm"
  shows "keeps st (fs_snap_restore (Some nm) st)"
proof -
  from inv obtain K where ok: "fs_ok K st" by (auto simp: fs_inv_def)
  obtain old where old: "snap_find st (snap_head st) nm = Some old" "old = NULL \<longleftrightarrow> snap_root st nm = None"
    using ok nm by (rule snap_lookup)
  show ?thesis
  proof (cases "nm = [] \<or> old = NULL")
    case True
    then have "fs_snap_restore (Some nm) st = Some (- 1, st)" using old(1) by (auto simp: fs_snap_restore_def)
    then show ?thesis using inv by (simp add: keeps_Some)
  next
    case False
    then obtain r where "snap_root st nm = Some r" using old(2) by auto
    then show ?thesis using restored(1,3) [OF ok nm] False by (simp add: keeps_Some fs_okI)
  qed
qed

subsection \<open>Traversals\<close>

text \<open>A traversal keeps what its callback keeps.\<close>

lemma fold_keeps: "Q s \<Longrightarrow> (\<And>x s. Q s \<Longrightarrow> Q (f x s)) \<Longrightarrow> Q (fold f xs s)"
  by (induction xs arbitrary: s) auto

lemma fs_list_keeps:
  assumes inv: "fs_inv st" and cb: "\<And>nm d s. fs_nodes (cb nm d s) = fs_nodes s"
    and Q: "Q st" "\<And>nm d s. Q s \<Longrightarrow> Q (cb nm d s)"
  shows "runs (fs_list cb st) Q"
proof -
  from inv obtain K where ok: "fs_ok K st" by (auto simp: fs_inv_def)
  note t = fs_okD(4) [OF ok]
  obtain d where d: "fs_nodes st (fs_cwd st) = Some d" using ok by (rule cwd_node)
  have "Q (fold (\<lambda>(nm, d). cb nm d) es st)" for es
    by (rule fold_keeps) (simp_all add: Q split_beta)
  then show ?thesis
    using list_loop_chain [OF cb node_okD(1) [OF tree_okD(3) [OF t d]] refl] d by (simp add: fs_list_def)
qed

lemma fs_tree_cwd_keeps:
  assumes inv: "fs_inv st" and cb: "\<And>nm d k s. fs_nodes (cb nm d k s) = fs_nodes s"
    and Q: "Q st" "\<And>nm d k s. Q s \<Longrightarrow> Q (cb nm d k s)"
  shows "runs (fs_tree_cwd (Some cb) st) Q"
proof -
  from inv obtain K where ok: "fs_ok K st" by (auto simp: fs_inv_def)
  obtain d where d: "fs_nodes st (fs_cwd st) = Some d" "n_is_dir d" "fs_cwd st \<noteq> NULL" using ok by (rule cwd_node)
  from tree_walk_dir [OF ok, where cb = cb, OF cb d(1) refl, where depth = 0] obtain es where
    "fs_tree_walk (n_child d) cb 0 st = Some (fold (\<lambda>(nm, d, k). cb nm d k) es st)" by blast
  moreover have "Q (fold (\<lambda>(nm, d, k). cb nm d k) es st)"
    by (rule fold_keeps) (simp_all add: Q split_beta)
  ultimately show ?thesis using d by (simp add: fs_tree_cwd_def)
qed

lemma snap_list_loop_keeps:
  assumes cb: "\<And>nm s. fs_snaps (cb nm s) = fs_snaps s" and Q: "\<And>nm s. Q s \<Longrightarrow> Q (cb nm s)"
  shows "snap_chain (fs_snaps st) p ss \<Longrightarrow> Q st \<Longrightarrow> runs (snap_list_loop cb p st) Q"
proof (induction ss arbitrary: p st)
  case Nil
  then show ?case by (simp add: snap_list_loop.simps)
next
  case (Cons s ss)
  then show ?case using cb Q by (subst snap_list_loop.simps) (simp add: Let_def)
qed

lemma fs_snap_list_keeps:
  assumes inv: "fs_inv st" and cb: "\<And>nm s. fs_snaps (cb nm s) = fs_snaps s"
    and Q: "Q st" "\<And>nm s. Q s \<Longrightarrow> Q (cb nm s)"
  shows "runs (fs_snap_list cb st) Q"
proof -
  from inv obtain ss where "snap_chain (fs_snaps st) (snap_head st) ss" by (auto simp: fs_inv_def fs_ok_def)
  then show ?thesis using snap_list_loop_keeps [where cb = cb and Q = Q] cb Q by (simp add: fs_snap_list_def)
qed

text \<open>Every path of the tree fits the buffer of \<open>fs_find\<close>.\<close>

definition paths_fit :: "'a fs_st_scheme \<Rightarrow> bool" where
  "paths_fit st \<longleftrightarrow>
     (\<forall>cs. list_all cstring cs \<longrightarrow> fs_lookup st (fs_root st) cs \<noteq> None \<longrightarrow> length (path_of cs) < MAX_PATH_LEN)"

lemma fs_find_keeps:
  assumes inv: "fs_inv st" and fit: "paths_fit st"
  shows "keeps st (fs_find (Some needle) st)"
proof (cases "needle = []")
  case True
  then show ?thesis using inv by (simp add: fs_find_def keeps_Some)
next
  case False
  from inv obtain K where ok: "fs_ok K st" by (auto simp: fs_inv_def)
  obtain ps where "fs_find (Some needle) st = Some (0, emit ps st)"
    using fs_find_walked [OF ok False] fit by (auto simp: paths_fit_def MAX_PATH_LEN_def)
  moreover have "fs_inv (emit ps st) \<and> outside (emit ps st) = outside st"
    unfolding emit_def by (rule fold_keeps) (use inv in \<open>auto simp: fs_inv_def\<close>)
  ultimately show ?thesis by (simp add: keeps_Some)
qed

subsection \<open>All operations\<close>

datatype fs_op =
    Op_mkdir string | Op_touch string | Op_write string string | Op_write_cwd string string
  | Op_read string | Op_chdir string | Op_unlink string | Op_rmdir string | Op_rename string string
  | Op_copy string string | Op_snap_create string | Op_snap_restore string | Op_find string

text \<open>The state that a call leaves; its result is one of the other theories' concern.\<close>

fun fs_run :: "fs_op \<Rightarrow> 'a fs_st_scheme \<Rightarrow> 'a fs_st_scheme option" where
  "fs_run (Op_mkdir p) st = map_option snd (fs_mkdir (Some p) st)"
| "fs_run (Op_touch p) st = map_option snd (fs_touch (Some p) st)"
| "fs_run (Op_write p d) st = map_option snd (fs_write (Some p) (Some d) st)"
| "fs_run (Op_write_cwd p d) st = map_option snd (fs_write_cwd (Some p) (Some d) st)"
| "fs_run (Op_read p) st = map_option snd (fs_read (Some p) st)"
| "fs_run (Op_chdir p) st = map_option snd (fs_chdir (Some p) st)"
| "fs_run (Op_unlink p) st = map_option snd (fs_unlink (Some p) st)"
| "fs_run (Op_rmdir p) st = map_option snd (fs_rmdir (Some p) st)"
| "fs_run (Op_rename p q) st = map_option snd (fs_rename (Some p) (Some q) st)"
| "fs_run (Op_copy p q) st = map_option snd (fs_copy (Some p) (Some q) st)"
| "fs_run (Op_snap_create p) st = map_option snd (fs_snap_create (Some p) st)"
| "fs_run (Op_snap_restore p) st = map_option snd (fs_snap_restore (Some p) st)"
| "fs_run (Op_find p) st = map_option snd (fs_find (Some p) st)"

fun op_ok :: "fs_op \<Rightarrow> 'a fs_st_scheme \<Rightarrow> bool" where
  "op_ok (Op_write p d) st \<longleftrightarrow> cstring p \<and> data_fits d"
| "op_ok (Op_write_cwd p d) st \<longleftrightarrow> valid_name p \<and> data_fits d"
| "op_ok (Op_rename p q) st \<longleftrightarrow> cstring p \<and> cstring q \<and> rename_apart st p q"
| "op_ok (Op_copy p q) st \<longleftrightarrow> cstring p \<and> cstring q"
| "op_ok (Op_find p) st \<longleftrightarrow> paths_fit st"
| "op_ok (Op_mkdir p) st \<longleftrightarrow> cstring p"
| "op_ok (Op_touch p) st \<longleftrightarrow> cstring p"
| "op_ok (Op_read p) st \<longleftrightarrow> cstring p"
| "op_ok (Op_chdir p) st \<longleftrightarrow> cstring p"
| "op_ok (Op_unlink p) st \<longleftrightarrow> cstring p"
| "op_ok (Op_rmdir p) st \<longleftrightarrow> cstring p"
| "op_ok (Op_snap_create p) st \<longleftrightarrow> cstring p"
| "op_ok (Op_snap_restore p) st \<longleftrightarrow> cstring p"

lemma runs_snd: "runs m (\<lambda>(r, st'). Q st') \<Longrightarrow> runs (map_option snd m) Q"
  by (auto simp: runs_def)

lemma keeps_snd: "keeps st m \<Longrightarrow> runs (map_option snd m) (\<lambda>st'. fs_inv st' \<and> outside st' = outside st)"
  unfolding keeps_def by (rule runs_snd)

lemma fs_run_keeps:
  assumes "fs_inv st" "op_ok op st"
  shows "runs (fs_run op st) (\<lambda>st'. fs_inv st' \<and> outside st' = outside st)"
proof (cases op)
  case (Op_read p)
  then show ?thesis
    using assms fs_read_keeps [of st p] by (auto simp: runs_def)
qed (use assms in \<open>simp_all add: keeps_snd fs_mkdir_keeps fs_touch_keeps fs_write_keeps fs_write_cwd_keeps
    fs_chdir_keeps fs_unlink_keeps fs_rmdir_keeps fs_rename_keeps fs_copy_keeps fs_snap_create_keeps
    fs_snap_restore_keeps fs_find_keeps\<close>)

fun fs_runs :: "fs_op list \<Rightarrow> 'a fs_st_scheme \<Rightarrow> 'a fs_st_scheme option" where
  "fs_runs [] st = Some st"
| "fs_runs (op # ops) st = do { st \<leftarrow> fs_run op st; fs_runs ops st }"

text \<open>Every call is acceptable in the state it starts from.\<close>

fun ops_ok :: "fs_op list \<Rightarrow> 'a fs_st_scheme \<Rightarrow> bool" where
  "ops_ok [] st \<longleftrightarrow> True"
| "ops_ok (op # ops) st \<longleftrightarrow> op_ok op st \<and> (case fs_run op st of None \<Rightarrow> True | Some st \<Rightarrow> ops_ok ops st)"

text \<open>
  C7: The operations of the file system are total and keep its invariant: any sequence of calls
  from a well-formed state, each with arguments that are C strings, texts of less than 4 GB less
  1 MB and, for \<open>fs_write_cwd\<close>, a valid name, returns, and the state is well formed again,
  whatever fails on the way, out of memory included. What must not happen is a rename into
  the subtree that is moved and a search when a path of the tree has 128 characters or more.
\<close>

theorem fs_ops_keep_inv:
  assumes "fs_inv st" "ops_ok ops st"
  shows "\<exists>st'. fs_runs ops st = Some st' \<and> fs_inv st' \<and> outside st' = outside st"
  using assms
proof (induction ops arbitrary: st)
  case (Cons op ops)
  obtain s where s: "fs_run op st = Some s" "fs_inv s" "outside s = outside st"
    using fs_run_keeps [of st op] Cons.prems by (auto simp: runs_def)
  then show ?case using Cons.IH [of s] Cons.prems by simp
qed simp

theorem fs_ops_keep_inv_witness:
  "\<exists>st'. fs_runs [Op_mkdir ''/d'', Op_snap_create ''s'', Op_rmdir ''/d'', Op_touch ''/d/f'',
      Op_snap_restore ''s'', Op_write ''/d/f'' ''hello'', Op_read ''d/f'', Op_copy ''d/f'' ''g'',
      Op_unlink ''g'', Op_chdir ''d'', Op_write_cwd ''f'' ''x''] fs_st1 = Some st' \<and> fs_inv st'"
  (is "\<exists>st'. fs_runs ?ops _ = _ \<and> _")
proof -
  have v: "valid_name ''f''" by (simp add: valid_name_def MAX_NAME_LEN_def)
  have "ops_ok ?ops fs_st1" using v by (simp add: data_fits_def del: fs_run.simps split: option.split)
  from fs_ops_keep_inv [OF fs_okI [OF fs_st1_ok(1)] this] show ?thesis by blast
qed

end
