(* ===== verification/Shell_Safe.thy ===== *)
theory Shell_Safe
  imports Shell_Session Fs_Safe
begin

text \<open>
  Every line of the shell and every key returns in a well-formed state. \<open>shell_ok\<close> is the
  invariant of everything the shell works on: the file system, the log ring, the table of users
  with somebody logged in, the editor, the input line and the disk. What a user must not do is
  what \<open>line_ok\<close> excludes: the two calls of theory \<open>Fs_Safe\<close> that are not safe, starting the
  editor with a name that is not the name of a file, a transfer beyond the \<open>N\<close> sectors of
  the disk, and a transfer while the disk is still busy with the one before.
\<close>

text \<open>
  A device that serves the one-sector transfers of the shell below \<open>N\<close> whenever it is ready: a
  transfer may leave it busy, and it is ready again when it has settled.
\<close>

record 'd device_laws =
  dl_ready :: "'d \<Rightarrow> bool"
  dl_settle :: "'d \<Rightarrow> 'd"

definition settles :: "'d device_laws \<Rightarrow> 'd \<Rightarrow> bool" where
  "settles D d \<longleftrightarrow> dl_ready D (dl_settle D d)"

definition stable :: "'d device_laws \<Rightarrow> bool" where
  "stable D \<longleftrightarrow> (\<forall>d. dl_ready D d \<longrightarrow> settles D d)"

definition serves :: "nat \<Rightarrow> 'd block_device \<Rightarrow> 'd device_laws \<Rightarrow> bool" where
  "serves N dev D \<longleftrightarrow> (\<forall>lba buf d. dl_ready D d \<and> unat lba < N \<and> length buf = 512 \<longrightarrow>
     (\<exists>r out d'. bd_read dev lba 1 buf d = Some (r, out, d') \<and> length out = 512 \<and> settles D d') \<and>
     (\<exists>r d'. bd_write dev lba 1 buf d = Some (r, d') \<and> settles D d'))"

context block_dev
begin

lemma one_sector:
  assumes "good d" "unat lba < nsec d" "1 \<le> most" "length buf = 512"
  shows "(\<exists>out d'. rd lba 1 buf d = Some (0, out, d') \<and> length out = 512 \<and> good (settle d') \<and>
      nsec (settle d') = nsec d) \<and>
    (\<exists>d'. wr lba 1 buf d = Some (0, d') \<and> good (settle d') \<and> nsec (settle d') = nsec d)"
proof -
  have one: "sectors_of (sec d) i (Suc 0) = sec d i" for i by (simp add: sectors_of_def)
  have c: "unat lba + unat (1 :: u32) \<le> nsec d" "unat (1 :: u32) \<le> most" "512 * unat (1 :: u32) \<le> length buf"
    using assms by simp_all
  show ?thesis
    using read_ok [OF assms(1) c] write_ok [OF assms(1) c] sec_length [OF assms(1,2)] assms(4)
      settle_ok
    by (fastforce simp: one)
qed

end

definition shell_ok :: "nat \<Rightarrow> 'd device_laws \<Rightarrow> ('d, 'a) shell_st_scheme \<Rightarrow> bool" where
  "shell_ok N D st \<longleftrightarrow> fs_inv st \<and> log_wf st \<and> sec_wf st \<and> 0 \<le> current_user_idx st \<and>
     (editor_active st \<longrightarrow> valid_name (editor_name st)) \<and> length (editor_buf st) < EDITOR_BUF_SIZE \<and>
     length (input_line st) < SHELL_INPUT_MAX \<and>
     (\<forall>dev. g_root_dev st = Some dev \<longrightarrow> serves N dev D) \<and> stable D \<and> settles D (disk st) \<and> length (irq_handlers st) = 16"

lemma shell_okD:
  assumes "shell_ok N D st"
  shows "fs_inv st" "log_wf st" "sec_wf st" "0 \<le> current_user_idx st"
    "editor_active st \<Longrightarrow> valid_name (editor_name st)" "length (editor_buf st) < EDITOR_BUF_SIZE"
    "length (input_line st) < SHELL_INPUT_MAX" "g_root_dev st = Some dev \<Longrightarrow> serves N dev D" "settles D (disk st)" "length (irq_handlers st) = 16" "stable D"
  using assms by (auto simp: shell_ok_def)

text \<open>A call of the file system keeps it.\<close>

lemma shell_ok_outside:
  fixes s t :: "('d, 'a) shell_st_scheme"
  assumes o: "outside s = outside t" and i: "fs_inv s" and t: "shell_ok N D t"
  shows "shell_ok N D s"
proof -
  have "log_buf s = log_buf t \<and> log_head s = log_head t \<and> log_count s = log_count t \<and>
      users s = users t \<and> user_count s = user_count t \<and> current_user_idx s = current_user_idx t \<and>
      irq_handlers s = irq_handlers t \<and> g_root_dev s = g_root_dev t \<and> disk s = disk t \<and> editor_buf s = editor_buf t \<and>
      editor_name s = editor_name t \<and> editor_active s = editor_active t \<and> input_line s = input_line t"
    using o by (cases s; cases t) (simp add: outside_def)
  then show ?thesis using i t by (simp add: shell_ok_def log_wf_def sec_wf_def)
qed

lemma runs_keeps:
  assumes "keeps st m" "shell_ok N D st" "\<And>r s. shell_ok N D s \<Longrightarrow> runs (f (r, s)) Q"
  shows "runs (m \<bind> f) Q"
  using assms(1)
proof (rule keepsE)
  fix r s
  assume "m = Some (r, s)" "fs_inv s" "outside s = outside st"
  then show ?thesis using assms(3) [OF shell_ok_outside [OF _ _ assms(2)]] by simp
qed

lemma shell_ok_con_call [simp]: "shell_ok N D (con_call f c st) = shell_ok N D st"
proof -
  have "log_wf (con_call f c st) = log_wf st" "sec_wf (con_call f c st) = sec_wf st"
    by (simp_all add: log_wf_def sec_wf_def con_call_def)
  moreover have "fs_inv (con_call f c st) = fs_inv st" by (simp add: fs_inv_def)
  moreover have "current_user_idx (con_call f c st) = current_user_idx st \<and> editor_active (con_call f c st) = editor_active st \<and>
      editor_name (con_call f c st) = editor_name st \<and> editor_buf (con_call f c st) = editor_buf st \<and>
      input_line (con_call f c st) = input_line st \<and> irq_handlers (con_call f c st) = irq_handlers st"
    by (simp add: con_call_def)
  ultimately show ?thesis by (simp add: shell_ok_def)
qed

lemma shell_ok_log [intro!]:
  assumes "shell_ok N D st"
  shows "shell_ok N D (log_event m st)"
proof -
  have "fs_inv (log_event m st) = fs_inv st" by (rule fs_inv_view) simp
  moreover have "editor_active (log_event m st) = editor_active st \<and> editor_name (log_event m st) = editor_name st \<and>
      editor_buf (log_event m st) = editor_buf st \<and> input_line (log_event m st) = input_line st \<and>
      current_user_idx (log_event m st) = current_user_idx st \<and> irq_handlers (log_event m st) = irq_handlers st"
    by (cases m) (simp_all add: log_event_Some)
  ultimately show ?thesis
    using assms by (auto simp: shell_ok_def)
qed

lemma shell_ok_fields [simp]:
  "shell_ok N D (st\<lparr>tree_count := n\<rparr>) = shell_ok N D st" "shell_ok N D (st\<lparr>tick_counter := n\<rparr>) = shell_ok N D st"
  by (simp_all add: shell_ok_def fs_inv_def fs_ok_def kmem_wf_def crypto_ready_def below_top_def heap_top_def
      log_wf_def sec_wf_def)

lemma shell_ok_fold [simp]: "(\<And>x s. shell_ok N D (f x s) = shell_ok N D s) \<Longrightarrow> shell_ok N D (fold f xs st) = shell_ok N D st"
  by (induction xs arbitrary: st) auto

lemma shell_ok_theme [simp]:
  "shell_ok N D (theme_default f st) = shell_ok N D st" "shell_ok N D (theme_banner f st) = shell_ok N D st"
  "shell_ok N D (put_line f line row st) = shell_ok N D st"
  by (simp_all add: theme_default_def theme_banner_def put_line_def)

lemma shell_ok_report [intro!]: "shell_ok N D st \<Longrightarrow> shell_ok N D (report r a b c d st)"
  by (auto simp: report_def)

lemma runs_perm:
  assumes "shell_ok N D st" "\<And>s. shell_ok N D s \<Longrightarrow> fs_view s = fs_view st \<Longrightarrow> runs (m s) (shell_ok N D)"
  shows "runs (let (v, s) = sec_require_perm p (Some a) st in if v \<noteq> 0 then Some s else m s) (shell_ok N D)"
  using assms by (auto simp: sec_require_perm_eq)

subsection \<open>Strings\<close>

lemma cstring_skip [simp]: "cstring s \<Longrightarrow> cstring (skip_spaces s)"
  by (induction s) auto

lemma take_word_cstring: "take_word n s = (w, r) \<Longrightarrow> cstring s \<Longrightarrow> cstring w \<and> cstring r"
  by (induction n s arbitrary: w rule: take_word.induct) (auto split: if_splits prod.splits)

lemma length_skip [simp]: "length (skip_spaces s) \<le> length s"
  by (induction s) auto

lemma take_word_length: "take_word n s = (w, r) \<Longrightarrow> length w + length r = length s"
  by (induction n s arbitrary: w rule: take_word.induct) (auto split: if_splits prod.splits)

lemma cstring_butlast [simp]: "cstring s \<Longrightarrow> cstring (butlast s)"
  by (auto simp: cstring_def dest: in_set_butlastD)

subsection \<open>The working directory and the listings\<close>

lemma status_bar_ok:
  assumes "shell_ok N D st"
  shows "runs (shell_draw_status_bar st) (shell_ok N D)"
proof -
  obtain s where "fs_getcwd st = Some s" using fs_getcwd_total [OF shell_okD(1) [OF assms]] by blast
  then show ?thesis using assms by (simp add: shell_draw_status_bar_def Let_def)
qed

lemma prompt_ok:
  assumes "shell_ok N D st"
  shows "runs (shell_print_prompt st) (shell_ok N D)"
  unfolding shell_print_prompt_def
proof (rule runs_bind [OF status_bar_ok [OF assms]])
  fix st :: "('a, 'b) shell_st_scheme"
  assume ok: "shell_ok N D st"
  obtain s where "fs_getcwd st = Some s" using fs_getcwd_total [OF shell_okD(1) [OF ok]] by blast
  then show "runs (do {
       cwd \<leftarrow> fs_getcwd st;
       let st = con_call Shell_c (Con_set_color 10 0) st;
       let st = sh_write (sec_get_current_username st) st;
       let st = sh_write ''@hypnos'' st;
       let st = con_call Shell_c (Con_set_color 5 0) st;
       let st = sh_write cwd st;
       let st = con_call Shell_c (Con_set_color 10 0) st;
       let st = sh_write ''>'' st;
       Some (theme_default Shell_c st)
     }) (shell_ok N D)" using ok by (simp add: Let_def)
qed

lemma cmd_pwd_ok:
  assumes "shell_ok N D st"
  shows "runs (cmd_pwd st) (shell_ok N D)"
proof -
  obtain s where "fs_getcwd st = Some s" using fs_getcwd_total [OF shell_okD(1) [OF assms]] by blast
  then show ?thesis using assms by (simp add: cmd_pwd_def)
qed

lemma cmd_ls_ok:
  assumes "shell_ok N D st"
  shows "runs (cmd_ls st) (shell_ok N D)"
proof -
  let ?st = "sh_write ''Listing '' st"
  have ok: "shell_ok N D ?st" using assms by simp
  obtain s where s: "fs_getcwd ?st = Some s" using fs_getcwd_total [OF shell_okD(1) [OF ok]] by blast
  let ?t = "sh_line '':'' (sh_write s ?st)"
  have t: "shell_ok N D ?t" using assms by simp
  have "runs (fs_list ls_printer ?t) (shell_ok N D)"
    by (rule fs_list_keeps) (use t in \<open>simp_all add: shell_okD(1) ls_printer_def Let_def\<close>)
  then show ?thesis using s by (simp add: cmd_ls_def Let_def)
qed

lemma cmd_tree_ok:
  assumes "shell_ok N D st"
  shows "runs (cmd_tree st) (shell_ok N D)"
proof -
  let ?t = "(sh_line ''.'' st)\<lparr>tree_count := 0\<rparr>"
  have t: "shell_ok N D ?t" using assms by simp
  have "runs (fs_tree_cwd (Some tree_printer) ?t) (shell_ok N D)"
  proof (rule fs_tree_cwd_keeps)
    show "fs_inv ?t" "shell_ok N D ?t" using t by (simp_all add: shell_okD(1))
    show "fs_nodes (tree_printer nm d k s) = fs_nodes s" for nm d k and s :: "('a, 'b) shell_st_scheme"
      by (simp add: tree_printer_def Let_def fold_nodes)
  qed (simp add: tree_printer_def Let_def)
  then show ?thesis unfolding cmd_tree_def Let_def by (rule runs_bind) simp
qed

lemma cmd_snap_list_ok:
  assumes "shell_ok N D st"
  shows "runs (cmd_snap_list st) (shell_ok N D)"
proof -
  have t: "shell_ok N D (sh_line ''Snapshots:'' st)" using assms by simp
  show ?thesis
    unfolding cmd_snap_list_def
    by (rule fs_snap_list_keeps) (use t in \<open>simp_all add: shell_okD(1) snap_list_printer_def\<close>)
qed

lemma parent_path_cstring: "cstring s \<Longrightarrow> cstring (parent_path s)"
proof -
  have strip: "cstring s \<Longrightarrow> cstring (strip_segment s)" for s
    by (induction s rule: strip_segment.induct) (subst strip_segment.simps, simp)
  show "cstring s \<Longrightarrow> cstring (parent_path s)"
    by (simp add: parent_path_def Let_def copy_upto_eq strip)
qed

lemma cmd_cd_ok:
  assumes ok: "shell_ok N D st" and p: "cstring p"
  shows "runs (cmd_cd (Some p) st) (shell_ok N D)"
proof -
  obtain s where s: "fs_getcwd st = Some s" "cstring s" using fs_getcwd_total [OF shell_okD(1) [OF ok]] by blast
  have go: "runs (do { (r, st) \<leftarrow> fs_chdir (Some q) st;
      if r = 0 then cmd_pwd st else Some (sh_line m st) }) (shell_ok N D)" if "cstring q" for q m
    by (rule runs_keeps [OF fs_chdir_keeps [OF shell_okD(1) [OF ok] that] ok]) (simp add: cmd_pwd_ok)
  show ?thesis
    using ok go [OF parent_path_cstring [OF s(2)]] go [OF p] s(1) by (simp add: cmd_cd_def)
qed

subsection \<open>Users, the disk and the editor\<close>

lemma cmd_users_ok:
  assumes ok: "shell_ok N D st"
  shows "runs (cmd_users st) (shell_ok N D)"
proof -
  have "runs (users_loop i us st) (shell_ok N D)" if "shell_ok N D st" for i us and st :: "('a, 'b) shell_st_scheme"
    using that
  proof (induction us arbitrary: i st)
    case (Cons u us)
    let ?s = "sh_write (usr_name u) (sh_write ''  '' st)"
    have s: "shell_ok N D ?s" using Cons.prems by simp
    then obtain cur where "sec_get_current_user ?s = Some cur"
      using shell_okD(3,4) [OF s] by (auto simp: sec_get_current_user_def sec_wf_def)
    then show ?case using Cons.IH Cons.prems by (simp add: Let_def)
  qed simp
  then show ?thesis using ok by (simp add: cmd_users_def sec_list_users_def Let_def)
qed

lemma sec_login_ok:
  assumes ok: "shell_ok N D st" and p: "cstring p"
  shows "shell_ok N D (snd (sec_login (Some p) st))"
proof (cases "p = []")
  case True
  then show ?thesis using ok by (simp add: sec_login_def)
next
  case False
  have idx: "shell_ok N D (st\<lparr>current_user_idx := int i\<rparr>)" if "i < nat (user_count st)" for i
  proof -
    have "fs_inv (st\<lparr>current_user_idx := int i\<rparr>) = fs_inv st" by (rule fs_inv_view) (simp add: fs_view_def)
    then show ?thesis using ok sec_wf_idx [OF shell_okD(3) [OF ok] that] by (simp add: shell_ok_def log_wf_def)
  qed
  from shell_okD(3) [OF ok] p False show ?thesis
  proof (cases rule: sec_login_cases)
    case (found i)
    then have "i < nat (user_count st)"
      using length_sec_table [OF shell_okD(3) [OF ok]] by (auto dest!: table_find_Some(1))
    then show ?thesis using found idx by auto
  qed (use ok in auto)
qed

lemma cmd_diskread_ok:
  assumes ok: "shell_ok N D st" and d: "dl_ready D (disk st)" and n: "unat (fst (parse_u32 0 (skip_spaces arg))) < N"
  shows "runs (cmd_diskread arg st) (shell_ok N D)"
proof (cases "g_root_dev st")
  case None
  then show ?thesis using ok by (simp add: cmd_diskread_def blockdev_get_root_def split_beta Let_def)
next
  case (Some dev)
  obtain lba arg' where a: "parse_u32 0 (skip_spaces arg) = (lba, arg')" by (rule prod.exhaust)
  then have n: "unat (ucast lba :: u64) < N" using n unat_u32_bound [of lba]
    by (simp add: unsigned_ucast_eq take_bit_nat_eq_self)
  have "serves N dev D" using shell_okD(8) [OF ok] Some by blast
  then obtain r out d' where r: "bd_read dev (ucast lba) 1 (replicate 512 0) (disk st) = Some (r, out, d')" "settles D d'"
    using n d unfolding serves_def by (metis length_replicate)
  have "shell_ok N D (st\<lparr>disk := d'\<rparr>)"
    using ok r(2) fs_inv_view [of "st\<lparr>disk := d'\<rparr>" st] by (simp add: shell_ok_def log_wf_def sec_wf_def fs_view_def)
  then show ?thesis using Some a r(1) by (simp add: cmd_diskread_def blockdev_get_root_def Let_def)
qed

lemma cmd_diskwrite_ok:
  assumes ok: "shell_ok N D st" and d: "dl_ready D (disk st)" and n: "unat (fst (parse_u32 0 (skip_spaces arg))) < N"
  shows "runs (cmd_diskwrite arg st) (shell_ok N D)"
proof (cases "g_root_dev st")
  case None
  then show ?thesis using ok by (simp add: cmd_diskwrite_def blockdev_get_root_def split_beta Let_def)
next
  case (Some dev)
  obtain lba arg' where a: "parse_u32 0 (skip_spaces arg) = (lba, arg')" by (rule prod.exhaust)
  then have n: "unat (ucast lba :: u64) < N" using n unat_u32_bound [of lba]
    by (simp add: unsigned_ucast_eq take_bit_nat_eq_self)
  let ?text = "copy_upto 511 (skip_spaces arg')"
  let ?buf = "map of_char ?text @ replicate (512 - length ?text) 0 :: u8 list"
  have l: "length ?buf = 512" by (simp add: copy_upto_eq)
  have "serves N dev D" using shell_okD(8) [OF ok] Some by blast
  then obtain r d' where r: "bd_write dev (ucast lba) 1 ?buf (disk st) = Some (r, d')" "settles D d'"
    using l n d unfolding serves_def by blast
  have "shell_ok N D (st\<lparr>disk := d'\<rparr>)"
    using ok r(2) fs_inv_view [of "st\<lparr>disk := d'\<rparr>" st] by (simp add: shell_ok_def log_wf_def sec_wf_def fs_view_def)
  then show ?thesis using Some a r(1) by (simp add: cmd_diskwrite_def blockdev_get_root_def Let_def)
qed

lemma shell_ok_editor:
  assumes "shell_ok N D st" "length b < EDITOR_BUF_SIZE" "a \<longrightarrow> valid_name n"
  shows "shell_ok N D (st\<lparr>editor_name := n, editor_buf := b, editor_active := a\<rparr>)"
proof -
  have "fs_inv (st\<lparr>editor_name := n, editor_buf := b, editor_active := a\<rparr>) = fs_inv st"
    by (rule fs_inv_view) (simp add: fs_view_def)
  then show ?thesis using assms by (simp add: shell_ok_def log_wf_def sec_wf_def)
qed

lemma sh_edit_ok:
  assumes ok: "shell_ok N D st" and n: "skip_spaces arg = [] \<or> valid_name (take 31 (skip_spaces arg))"
  shows "shell_ok N D (sh_edit arg st)"
proof (cases "skip_spaces arg = []")
  case False
  have "shell_ok N D (st\<lparr>editor_name := take 31 (skip_spaces arg), editor_buf := [], editor_active := True\<rparr>)"
    by (rule shell_ok_editor [OF ok]) (use n False in \<open>auto simp: EDITOR_BUF_SIZE_def\<close>)
  then show ?thesis
    using False by (simp add: sh_edit_def editor_start_def editor_draw_status_def copy_upto_eq EDITOR_NAME_MAX_def Let_def)
qed (use ok in \<open>simp add: sh_edit_def\<close>)

lemma editor_key_ok:
  assumes ok: "shell_ok N D st"
  shows "runs (editor_handle_key c st) (shell_ok N D)"
proof -
  have buf: "shell_ok N D (st\<lparr>editor_buf := b\<rparr>)" if "length b < EDITOR_BUF_SIZE" for b
    using shell_ok_editor [OF ok that, of "editor_active st" "editor_name st"] shell_okD(5) [OF ok] by simp
  have off: "shell_ok N D (s\<lparr>editor_active := False\<rparr>)" if "shell_ok N D s" for s :: "('a, 'b) shell_st_scheme"
    using shell_ok_editor [OF that shell_okD(6) [OF that], of False "editor_name s"] by simp
  note l = shell_okD(6) [OF ok]
  have save: "runs (do { st \<leftarrow> editor_save_file st; Some (st\<lparr>editor_active := False\<rparr>) }) (shell_ok N D)"
    if a: "editor_active st"
  proof -
    have v: "valid_name (editor_name st)" by (rule shell_okD(5) [OF ok a])
    then have c: "cstring (editor_name st)" by (simp add: valid_name_def)
    have f: "data_fits (editor_buf st)" using l by (simp add: data_fits_def EDITOR_BUF_SIZE_def)
    have "runs (editor_save_file st) (shell_ok N D)"
      unfolding editor_save_file_def
      by (auto intro!: runs_keeps [OF fs_touch_keeps [OF shell_okD(1) [OF ok] c] ok]
          runs_keeps [OF fs_write_cwd_keeps [OF shell_okD(1) [OF ok] v f] ok])
    then show ?thesis by (rule runs_bind) (simp add: off)
  qed
  show ?thesis
    using ok save l by (auto simp: editor_handle_key_def intro!: buf)
qed

subsection \<open>Files\<close>

lemma sh_calls_ok:
  assumes ok: "shell_ok N D st" and a: "cstring arg"
  shows "runs (sh_mkdir arg st) (shell_ok N D)" "runs (cmd_touch (Some arg) st) (shell_ok N D)"
    "runs (sh_snap_create arg st) (shell_ok N D)" "runs (sh_snap_restore arg st) (shell_ok N D)"
    "runs (sh_rm arg st) (shell_ok N D)" "runs (sh_rmdir arg st) (shell_ok N D)"
proof -
  note i = shell_okD(1)
  show "runs (cmd_touch (Some arg) st) (shell_ok N D)"
    using ok by (auto simp: cmd_touch_def intro!: runs_keeps [OF fs_touch_keeps [OF i [OF ok] a] ok])
  show "runs (sh_mkdir arg st) (shell_ok N D)"
    unfolding sh_mkdir_def Let_def [of "skip_spaces arg"]
    by (rule runs_perm [OF ok], rule runs_keeps [OF fs_mkdir_keeps [OF i]]) (use a in auto)
  show "runs (sh_snap_create arg st) (shell_ok N D)"
    unfolding sh_snap_create_def Let_def [of "skip_spaces arg"]
    by (rule runs_perm [OF ok], rule runs_keeps [OF fs_snap_create_keeps [OF i]]) (use a in auto)
  show "runs (sh_snap_restore arg st) (shell_ok N D)"
    unfolding sh_snap_restore_def Let_def [of "skip_spaces arg"]
    by (rule runs_perm [OF ok], rule runs_keeps [OF fs_snap_restore_keeps [OF i]]) (use a in auto)
  have "runs (let (v, s) = sec_require_perm PERM_WRITE (Some ''remove file'') st in if v \<noteq> 0 then Some s
      else do { (r, st) \<leftarrow> fs_unlink (Some (skip_spaces arg)) s;
        Some (report r ''Removed file.'' ''fs: unlink'' ''rm: error.'' ''fs: unlink error'' st) }) (shell_ok N D)"
    by (rule runs_perm [OF ok], rule runs_keeps [OF fs_unlink_keeps [OF i]]) (use a in auto)
  then show "runs (sh_rm arg st) (shell_ok N D)" using ok by (simp add: sh_rm_def Let_def)
  have "runs (let (v, s) = sec_require_perm PERM_WRITE (Some ''remove directory'') st in if v \<noteq> 0 then Some s
      else do { (r, st) \<leftarrow> fs_rmdir (Some (skip_spaces arg)) s;
        Some (report r ''Directory removed.'' ''fs: rmdir''
          ''rmdir: error (non-empty or not found).'' ''fs: rmdir error'' st) }) (shell_ok N D)"
    by (rule runs_perm [OF ok], rule runs_keeps [OF fs_rmdir_keeps [OF i]]) (use a in auto)
  then show "runs (sh_rmdir arg st) (shell_ok N D)" using ok by (simp add: sh_rmdir_def Let_def)
qed

lemma runs_read:
  assumes s: "shell_ok N D s" and a: "cstring a"
    and f: "\<And>t. shell_ok N D t \<Longrightarrow> runs (f (NULL, t)) Q"
      "\<And>p t cs. shell_ok N D t \<Longrightarrow> p \<noteq> NULL \<Longrightarrow> buf_string p t = Some cs \<Longrightarrow> runs (f (p, t)) Q"
  shows "runs (fs_read (Some a) s \<bind> f) Q"
proof -
  obtain p t where r: "fs_read (Some a) s = Some (p, t)" "fs_inv t" "outside t = outside s"
    "p \<noteq> NULL \<longrightarrow> (\<exists>bs. fs_bufs t p = Some (bs @ [0]))"
    using fs_read_keeps [OF shell_okD(1) [OF s] a] by (auto simp: runs_def)
  have t: "shell_ok N D t" by (rule shell_ok_outside [OF r(3,2) s])
  show ?thesis
  proof (cases "p = NULL")
    case True
    then show ?thesis using r(1) f(1) [OF t] by simp
  next
    case False
    then obtain cs where "buf_string p t = Some cs" using r(4) by (auto simp: buf_string_def)
    then show ?thesis using r(1) f(2) [OF t False] by simp
  qed
qed

lemma sh_cat_ok:
  assumes ok: "shell_ok N D st" and a: "cstring arg"
  shows "runs (sh_cat arg st) (shell_ok N D)"
  unfolding sh_cat_def Let_def [of "skip_spaces arg"]
  by (rule runs_perm [OF ok], rule runs_read) (use a in auto)

lemma data_fits_short: "length d < 4096 \<Longrightarrow> data_fits d"
  by (simp add: data_fits_def)

lemma sh_write_ok:
  assumes ok: "shell_ok N D st" and a: "cstring arg" "length arg < 128"
  shows "runs (sh_write_file arg st) (shell_ok N D)"
proof -
  obtain w r where t: "take_word 31 (skip_spaces arg) = (w, r)" by (rule prod.exhaust)
  have c: "cstring w" using take_word_cstring [OF t] a(1) by simp
  have "length (skip_spaces r) \<le> length r" "length r \<le> length (skip_spaces arg)"
    using take_word_length [OF t] by simp_all
  then have f: "data_fits (skip_spaces r)"
    using a(2) length_skip [of arg] by (intro data_fits_short) linarith
  have "runs (let (v, s) = sec_require_perm PERM_WRITE (Some ''write file'') st in if v \<noteq> 0 then Some s
      else do { (x, st) \<leftarrow> fs_write (Some w) (Some (skip_spaces r)) s;
        Some (report x ''File written.'' ''fs: write'' ''write: error.'' ''fs: write error'' st) }) (shell_ok N D)"
    by (rule runs_perm [OF ok], rule runs_keeps [OF fs_write_keeps [OF shell_okD(1) c f]]) auto
  then show ?thesis using ok t by (simp add: sh_write_file_def Let_def)
qed

text \<open>The two words of \<open>mv\<close> and \<open>cp\<close>.\<close>

definition two_words :: "string \<Rightarrow> string \<times> string" where
  "two_words arg =
     (let (a, p) = take_word 63 (skip_spaces arg); (b, _) = take_word 63 (skip_spaces p) in (a, b))"

lemma two_words_split:
  assumes "cstring arg"
  obtains a p b q where "take_word 63 (skip_spaces arg) = (a, p)" "take_word 63 (skip_spaces p) = (b, q)"
    "two_words arg = (a, b)" "cstring a" "cstring b"
proof -
  obtain a p where a: "take_word 63 (skip_spaces arg) = (a, p)" by (rule prod.exhaust)
  obtain b q where b: "take_word 63 (skip_spaces p) = (b, q)" by (rule prod.exhaust)
  show thesis
    using that [OF a b] take_word_cstring [OF a] take_word_cstring [OF b] assms a b by (simp add: two_words_def)
qed

lemma rename_apart_view:
  assumes "fs_view s = fs_view t"
  shows "rename_apart s a b = rename_apart t a b"
  by (simp add: rename_apart_def lookup_view [OF assms] path_base_view [OF assms] create_target_view [OF assms])

lemma paths_fit_view: "fs_view s = fs_view t \<Longrightarrow> paths_fit s = paths_fit t"
  by (simp add: paths_fit_def lookup_view [of s t] fs_viewD(5) [of s t])

lemma sh_mv_ok:
  assumes ok: "shell_ok N D st" and a: "cstring arg" "rename_apart st (fst (two_words arg)) (snd (two_words arg))"
  shows "runs (sh_mv arg st) (shell_ok N D)"
proof -
  obtain x p y q where w: "take_word 63 (skip_spaces arg) = (x, p)" "take_word 63 (skip_spaces p) = (y, q)"
    "two_words arg = (x, y)" "cstring x" "cstring y" using a(1) by (rule two_words_split)
  have "runs (let (v, s) = sec_require_perm PERM_WRITE (Some ''rename/move'') st in if v \<noteq> 0 then Some s
      else do { (r, st) \<leftarrow> fs_rename (Some x) (Some y) s;
        Some (report r ''Renamed/moved.'' ''fs: rename'' ''mv: error.'' ''fs: rename error'' st) }) (shell_ok N D)"
  proof (rule runs_perm [OF ok])
    fix s :: "('a, 'b) shell_st_scheme"
    assume s: "shell_ok N D s" "fs_view s = fs_view st"
    have "rename_apart s x y" using a(2) w(3) rename_apart_view [OF s(2)] by simp
    note k = fs_rename_keeps [OF shell_okD(1) [OF s(1)] w(4,5) this]
    show "runs (do { (r, st) \<leftarrow> fs_rename (Some x) (Some y) s;
        Some (report r ''Renamed/moved.'' ''fs: rename'' ''mv: error.'' ''fs: rename error'' st) }) (shell_ok N D)"
      by (rule runs_keeps [OF k s(1)]) auto
  qed
  then show ?thesis using ok w(1,2) by (simp add: sh_mv_def Let_def)
qed

lemma sh_cp_ok:
  assumes ok: "shell_ok N D st" and a: "cstring arg"
  shows "runs (sh_cp arg st) (shell_ok N D)"
proof -
  obtain x p y q where w: "take_word 63 (skip_spaces arg) = (x, p)" "take_word 63 (skip_spaces p) = (y, q)"
    "two_words arg = (x, y)" "cstring x" "cstring y" using a(1) by (rule two_words_split)
  have "runs (let (v, s) = sec_require_perm PERM_READ (Some ''copy file'') st in if v \<noteq> 0 then Some s
      else do { (r, st) \<leftarrow> fs_copy (Some x) (Some y) s;
        Some (report r ''Copied.'' ''fs: copy'' ''cp: error.'' ''fs: copy error'' st) }) (shell_ok N D)"
    by (rule runs_perm [OF ok], rule runs_keeps [OF fs_copy_keeps [OF shell_okD(1) w(4,5)]]) auto
  then show ?thesis using ok w(1,2) by (simp add: sh_cp_def Let_def)
qed

lemma sh_find_ok:
  assumes ok: "shell_ok N D st" and a: "paths_fit st"
  shows "runs (sh_find arg st) (shell_ok N D)"
  using ok by (auto simp: sh_find_def Let_def intro!: runs_keeps [OF fs_find_keeps [OF shell_okD(1) [OF ok] a] ok])

subsection \<open>Lines and keys\<close>

lemma log_dump_ok [simp]: "shell_ok N D (log_dump st) = shell_ok N D st"
proof -
  have "shell_ok N D (log_dump_loop start i st) = shell_ok N D st" for start i and st :: "('a, 'b) shell_st_scheme"
    by (induction start i st rule: log_dump_loop.induct) (subst log_dump_loop.simps, simp add: Let_def)
  then show ?thesis by (simp add: log_dump_def Let_def)
qed

definition line_ok :: "nat \<Rightarrow> 'd device_laws \<Rightarrow> string \<Rightarrow> ('d, 'a) shell_st_scheme \<Rightarrow> bool" where
  "line_ok N D cmd st \<longleftrightarrow>
     (kstrncmp cmd ''mv '' 3 = 0 \<longrightarrow> rename_apart st (fst (two_words (drop 3 cmd))) (snd (two_words (drop 3 cmd)))) \<and>
     (kstrncmp cmd ''find '' 5 = 0 \<longrightarrow> paths_fit st) \<and>
     (kstrncmp cmd ''diskread '' 9 = 0 \<longrightarrow>
        dl_ready D (disk st) \<and> unat (fst (parse_u32 0 (skip_spaces (drop 9 cmd)))) < N) \<and>
     (kstrncmp cmd ''diskwrite '' 10 = 0 \<longrightarrow>
        dl_ready D (disk st) \<and> unat (fst (parse_u32 0 (skip_spaces (drop 10 cmd)))) < N) \<and>
     (kstrncmp cmd ''edit '' 5 = 0 \<longrightarrow>
        skip_spaces (drop 5 cmd) = [] \<or> valid_name (take 31 (skip_spaces (drop 5 cmd))))"

text \<open>
  How the lines end: three of the commands do not return, all others do. \<open>safe N D q l\<close>: the call comes
  back, in a good state, with the outcome \<open>q\<close>, and when it does not return the line \<open>l\<close> is still in
  the input buffer.
\<close>

definition line_outcome :: "string \<Rightarrow> outcome" where
  "line_outcome cmd =
     (if cmd = ''panic'' then Faulted else if cmd = ''exit'' then Halted
      else if cmd = ''runuser'' then User_mode else Returned)"

lemma input_line_calls [simp]:
  "input_line (con_call f c st) = input_line st" "input_line (log_event m st) = input_line st"
  by (cases m; simp add: con_call_def log_event_Some)+

definition safe :: "nat \<Rightarrow> 'd device_laws \<Rightarrow> outcome \<Rightarrow> string \<Rightarrow> (outcome \<times> ('d, 'a) shell_st_scheme) option \<Rightarrow> bool" where
  "safe N D q l m \<longleftrightarrow> runs m (\<lambda>(res, st). shell_ok N D st \<and> res = q \<and> (q \<noteq> Returned \<longrightarrow> input_line st = l))"

lemma safe_simps [simp]:
  "safe N D q l (Some (res, st)) \<longleftrightarrow> shell_ok N D st \<and> res = q \<and> (q \<noteq> Returned \<longrightarrow> input_line st = l)"
  "safe N D Returned l (returns m) \<longleftrightarrow> runs m (shell_ok N D)"
  by (auto simp: safe_def runs_def)

lemma shell_execute_ends:
  "shell_execute ''panic'' st = Some (cmd_panic (log_event (Some ''panic'') (log_event (Some ''[SHELL] command'') st)))"
  "shell_execute ''exit'' st = Some (cmd_exit (log_event (Some ''exit'') (log_event (Some ''[SHELL] command'') st)))"
  "shell_execute ''runuser'' st = Some (User_mode, log_event (Some ''[SHELL] runuser invoked.'')
      (sh_line ''Launching first user program in Ring 3...''
         (log_event (Some ''runuser'') (log_event (Some ''[SHELL] command'') st))))"
  by (simp_all add: shell_execute_def numeral_eq_Suc)

lemma shell_execute_leaves:
  assumes "shell_ok N D st" "line_outcome cmd \<noteq> Returned"
  shows "safe N D (line_outcome cmd) (input_line st) (shell_execute cmd st)"
  using assms shell_execute_ends [of st]
  by (auto simp: line_outcome_def cmd_panic_def cmd_exit_def split: if_splits)

lemma shell_execute_returns:
  assumes ok: "shell_ok N D st" and line: "cmd = cstr (input_line st)" and l: "line_ok N D cmd st"
    and r: "line_outcome cmd = Returned"
  shows "safe N D Returned ls (shell_execute cmd st)"
proof (cases "cmd = []")
  case True
  then show ?thesis using ok by (simp add: shell_execute_def)
next
  case False
  let ?s = "log_event (Some cmd) (log_event (Some ''[SHELL] command'') st)"
  have s: "shell_ok N D ?s" using ok by auto
  have "length cmd < 128"
    using shell_okD(7) [OF ok] length_takeWhile_le [of "\<lambda>c. c \<noteq> NUL" "input_line st"]
    by (simp add: cstr_def SHELL_INPUT_MAX_def line)
  then have cmd: "cstring cmd" "length cmd < 128" "line_ok N D cmd st" using l by (simp_all add: line)
  have v: "fs_view ?s = fs_view st" by simp
  note c = cstring_drop [OF cmd(1)]
  have "kstrncmp cmd ''mv '' 3 = 0 \<Longrightarrow> runs (sh_mv (drop 3 cmd) ?s) (shell_ok N D)"
    using cmd(3) by (intro sh_mv_ok [OF s c]) (simp add: line_ok_def rename_apart_view [OF v])
  moreover have "kstrncmp cmd ''find '' 5 = 0 \<Longrightarrow> runs (sh_find (drop 5 cmd) ?s) (shell_ok N D)"
    using cmd(3) by (intro sh_find_ok [OF s]) (simp add: line_ok_def paths_fit_view [OF v])
  moreover have "kstrncmp cmd ''edit '' 5 = 0 \<Longrightarrow> shell_ok N D (sh_edit (drop 5 cmd) ?s)"
    using cmd(3) by (intro sh_edit_ok [OF s]) (simp add: line_ok_def)
  moreover have "kstrncmp cmd ''diskread '' 9 = 0 \<Longrightarrow> runs (cmd_diskread (drop 9 cmd) ?s) (shell_ok N D)"
    using cmd(3) by (intro cmd_diskread_ok [OF s]) (simp_all add: line_ok_def)
  moreover have "kstrncmp cmd ''diskwrite '' 10 = 0 \<Longrightarrow> runs (cmd_diskwrite (drop 10 cmd) ?s) (shell_ok N D)"
    using cmd(3) by (intro cmd_diskwrite_ok [OF s]) (simp_all add: line_ok_def)
  moreover have "runs (sh_write_file (drop 6 cmd) ?s) (shell_ok N D)"
    by (rule sh_write_ok [OF s c]) (use cmd(2) in simp)
  moreover have "shell_ok N D (sh_login (drop 6 cmd) ?s)"
    using s sec_login_ok [OF s, of "skip_spaces (drop 6 cmd)"] c by (auto simp: sh_login_def cmd_login_def Let_def)
  moreover have "shell_ok N D (cmd_log_show ?s)" using s by (simp add: cmd_log_show_def)
  moreover have "kstrcmp cmd ''panic'' \<noteq> 0" "kstrcmp cmd ''exit'' \<noteq> 0" "kstrcmp cmd ''runuser'' \<noteq> 0"
    using r by (auto simp: line line_outcome_def)
  ultimately show ?thesis
    unfolding shell_execute_def Let_def
    using False s c sh_calls_ok [OF s c] sh_cat_ok [OF s c] sh_cp_ok [OF s c] cmd_users_ok [OF s] cmd_cd_ok [OF s]
      cmd_pwd_ok [OF s] cmd_ls_ok [OF s] cmd_tree_ok [OF s] cmd_snap_list_ok [OF s]
    by (simp add: sh_help_def cmd_clear_def sh_sysinfo_def cmd_uptime_def cmd_echo_def cmd_panic_def cmd_exit_def
        cmd_whoami_def Let_def shell_ok_log)
qed

lemma shell_execute_safe:
  assumes "shell_ok N D st" "cmd = cstr (input_line st)" "line_ok N D cmd st"
  shows "safe N D (line_outcome cmd) (input_line st) (shell_execute cmd st)"
  using shell_execute_leaves [OF assms(1), of cmd] shell_execute_returns [OF assms]
  by (cases "line_outcome cmd = Returned") auto

text \<open>A key press; Enter hands the line to the interpreter.\<close>

definition enters :: "char \<Rightarrow> ('d, 'a) shell_st_scheme \<Rightarrow> bool" where
  "enters c st \<longleftrightarrow> c = newline \<and> \<not> editor_is_active st"

definition key_outcome :: "bool \<Rightarrow> ('d, 'a) shell_st_scheme \<Rightarrow> outcome" where
  "key_outcome enter st = (if enter then line_outcome (cstr (input_line st)) else Returned)"

definition key_ok :: "nat \<Rightarrow> 'd device_laws \<Rightarrow> bool \<Rightarrow> ('d, 'a) shell_st_scheme \<Rightarrow> bool" where
  "key_ok N D enter st \<longleftrightarrow> (enter \<longrightarrow> line_ok N D (cstr (input_line st)) st)"

lemma line_ok_view: "fs_view s = fs_view t \<Longrightarrow> disk s = disk t \<Longrightarrow> line_ok N D cmd s = line_ok N D cmd t"
  using rename_apart_view [of s t] paths_fit_view [of s t] by (simp add: line_ok_def)

lemma shell_ok_input:
  assumes "shell_ok N D st" "length l < SHELL_INPUT_MAX"
  shows "shell_ok N D (st\<lparr>input_line := l\<rparr>)"
proof -
  have "fs_inv (st\<lparr>input_line := l\<rparr>) = fs_inv st" by (rule fs_inv_view) (simp add: fs_view_def)
  then show ?thesis using assms by (simp add: shell_ok_def log_wf_def sec_wf_def)
qed

lemma shell_enter_safe:
  assumes ok: "shell_ok N D st" and l: "line_ok N D (cstr (input_line st)) st"
  shows "safe N D (line_outcome (cstr (input_line st))) (input_line st) (do {
    (res, st) \<leftarrow> shell_execute (cstr (input_line st)) (sh_write [newline] st);
    if res \<noteq> Returned then Some (res, st)
    else let st = st\<lparr>input_line := []\<rparr>
         in if \<not> editor_is_active st then returns (shell_print_prompt st) else Some (Returned, st) })"
proof -
  let ?cmd = "cstr (input_line st)"
  let ?t = "sh_write [newline] st"
  have "safe N D (line_outcome ?cmd) (input_line ?t) (shell_execute ?cmd ?t)"
    by (rule shell_execute_safe) (use ok l in \<open>simp_all add: line_ok_view [of ?t st]\<close>)
  then obtain s where s: "shell_execute ?cmd ?t = Some (line_outcome ?cmd, s)" "shell_ok N D s"
    "line_outcome ?cmd \<noteq> Returned \<longrightarrow> input_line s = input_line st"
    by (auto simp: safe_def runs_def)
  have "shell_ok N D (s\<lparr>input_line := []\<rparr>)" by (rule shell_ok_input [OF s(2)]) (simp add: SHELL_INPUT_MAX_def)
  then show ?thesis using s prompt_ok [of N D "s\<lparr>input_line := []\<rparr>"] by (simp add: Let_def)
qed

lemma shell_keypress_safe:
  assumes ok: "shell_ok N D st" and k: "key_ok N D (enters c st) st"
  shows "safe N D (key_outcome (enters c st) st) (input_line st) (shell_keypress c st)"
proof (cases "editor_is_active st")
  case True
  obtain s where s: "editor_handle_key c st = Some s" "shell_ok N D s"
    using editor_key_ok [OF ok, of c] by (auto simp: runs_def)
  then show ?thesis using True prompt_ok [OF s(2)]
    by (simp add: shell_keypress_def Let_def key_outcome_def enters_def)
next
  case False
  note l = shell_okD(7) [OF ok]
  have b: "shell_ok N D (st\<lparr>input_line := butlast (input_line st)\<rparr>)"
    by (rule shell_ok_input [OF ok]) (use l in simp)
  have a: "length (input_line st) < SHELL_INPUT_MAX - 1 \<Longrightarrow> shell_ok N D (st\<lparr>input_line := input_line st @ [c]\<rparr>)"
    by (rule shell_ok_input [OF ok]) (simp add: SHELL_INPUT_MAX_def)
  have e: "c = newline \<Longrightarrow> line_ok N D (cstr (input_line st)) st" using k False by (simp add: key_ok_def enters_def)
  show ?thesis
    using False ok a b shell_enter_safe [OF ok e]
    by (simp add: shell_keypress_def Let_def key_outcome_def enters_def)
qed

lemma shell_tick_safe:
  assumes ok: "shell_ok N D st"
  shows "runs (shell_tick st) (shell_ok N D)"
  using ok by (auto simp: shell_tick_def Let_def intro!: status_bar_ok)

subsection \<open>The devices serve the shell\<close>

abbreviation ram_laws :: "nat \<Rightarrow> ramdisk device_laws" where
  "ram_laws N \<equiv> \<lparr>dl_ready = \<lambda>d. ramdisk_ok d \<and> ramdisk_sectors d = N, dl_settle = \<lambda>d. d\<rparr>"

lemma ramdisk_serves:
  assumes "bd_read dev = ramdisk_read" "bd_write dev = ramdisk_write"
  shows "serves N dev (ram_laws N)" "stable (ram_laws N)"
  unfolding serves_def settles_def stable_def assms by (auto dest: rdisk.one_sector)

text \<open>A drive is ready when it is idle.\<close>

abbreviation ata_laws :: "('io \<Rightarrow> ata_phase) \<Rightarrow> ('io \<Rightarrow> 'io) \<Rightarrow> 'io device_laws" where
  "ata_laws phase settle \<equiv> \<lparr>dl_ready = \<lambda>io. phase io = Idle, dl_settle = settle\<rparr>"

lemma ata_serves:
  assumes "ata_disk P regs phase store N lag settle" "bd_read dev = ata_block_read P" "bd_write dev = ata_block_write P"
  shows "serves N dev (ata_laws phase settle)" "stable (ata_laws phase settle)"
proof -
  note c = ata_disk.contract [OF assms(1)]
  show "serves N dev (ata_laws phase settle)"
    using block_dev.one_sector [OF c] unfolding serves_def settles_def assms(2,3) by (simp del: One_nat_def) blast
  show "stable (ata_laws phase settle)"
    using block_dev.settle_ok [OF c] by (simp add: stable_def settles_def)
qed

text \<open>Time passes, and the disk settles.\<close>

lemma shell_ok_settle:
  assumes "shell_ok N D st"
  shows "shell_ok N D (st\<lparr>disk := dl_settle D (disk st)\<rparr>)"
proof -
  have "settles D (dl_settle D (disk st))"
    using shell_okD(9,11) [OF assms] by (simp add: settles_def stable_def)
  then show ?thesis
    using assms fs_inv_view [of "st\<lparr>disk := dl_settle D (disk st)\<rparr>" st]
    by (simp add: shell_ok_def log_wf_def sec_wf_def fs_view_def)
qed

end
