(* ===== verification/Irq_Safe.thy ===== *)
theory Irq_Safe
  imports Interrupts Shell_Safe
begin

text \<open>
  The running system as the hardware sees it: after the boot the kernel does nothing but handle
  interrupts, the ticks of the timer and the keys. Every interrupt comes back in a state that
  satisfies the invariant of theory \<open>Shell_Safe\<close>.
\<close>

subsection \<open>One interrupt\<close>

lemma shell_ok_cpu [simp]:
  "shell_ok N D (st\<lparr>port_log := l\<rparr>) = shell_ok N D st" "shell_ok N D (st\<lparr>timer_ticks := n\<rparr>) = shell_ok N D st"
  "shell_ok N D (s\<lparr>shift_pressed := b\<rparr>) = shell_ok N D s" "shell_ok N D (s\<lparr>ctrl_pressed := b\<rparr>) = shell_ok N D s"
  "shell_ok N D (s\<lparr>alt_pressed := b\<rparr>) = shell_ok N D s" "shell_ok N D (s\<lparr>caps_lock := b\<rparr>) = shell_ok N D s"
  by (simp_all add: shell_ok_def fs_inv_def fs_ok_def kmem_wf_def crypto_ready_def below_top_def heap_top_def
      log_wf_def sec_wf_def)

text \<open>Only the Enter key, scancode \<open>0x1C\<close>, makes a newline.\<close>

lemma newline_keys:
  "list_all (\<lambda>i. list_all (\<lambda>(shift, caps). translate_key (word_of_nat i) shift caps = newline \<longrightarrow> i = 28)
     [(False, False), (False, True), (True, False), (True, True)]) [0..<128]"
  by code_simp

lemma translate_newline:
  assumes "translate_key sc shift caps = newline" "unat sc < 128"
  shows "sc = 0x1C"
proof -
  have "translate_key (word_of_nat (unat sc)) shift caps = newline \<longrightarrow> unat sc = 28"
    using newline_keys assms(2) by (cases shift; cases caps) (auto simp: list_all_iff)
  then have "unat sc = 28" using assms(1) by simp
  then show ?thesis by (simp add: word_unat_eq_iff)
qed

text \<open>
  The interrupts that execute a line: the handler of the request is the one of the keyboard, the
  key is Enter and the editor is not running. What the user must not do is to enter one of the
  lines that are not safe.
\<close>

definition irq_enters :: "u8 \<Rightarrow> int \<Rightarrow> ('d, 'a) kbd_st_scheme \<Rightarrow> bool" where
  "irq_enters sc n st \<longleftrightarrow> n < 16 \<and> irq_handlers st ! nat n = Some Keyboard_callback \<and> sc = 0x1C \<and>
     \<not> editor_is_active st"

definition irq_ok :: "nat \<Rightarrow> 'd device_laws \<Rightarrow> u8 \<Rightarrow> int \<Rightarrow> ('d, 'a) kbd_st_scheme \<Rightarrow> bool" where
  "irq_ok N D sc n st \<longleftrightarrow> 0 \<le> n \<and> key_ok N D (irq_enters sc n st) st"

lemma safe_if: "(b \<Longrightarrow> safe N D q l x) \<Longrightarrow> (\<not> b \<Longrightarrow> safe N D q l y) \<Longrightarrow> safe N D q l (if b then x else y)"
  by simp

lemma enter_key: "translate_key 0x1C shift caps = newline"
proof -
  have "translate_key 0x1C False False = newline" "translate_key 0x1C False True = newline"
    "translate_key 0x1C True False = newline" "translate_key 0x1C True True = newline" by code_simp+
  then show ?thesis by (cases shift; cases caps) simp_all
qed

lemma keyboard_enter:
  "keyboard_callback 0x1C st = shell_keypress newline st"
  by (simp add: keyboard_callback_def enter_key sc_defs)

lemma keyboard_safe:
  assumes ok: "shell_ok N D st" and k: "key_ok N D (sc = 0x1C \<and> \<not> editor_is_active st) st"
  shows "safe N D (key_outcome (sc = 0x1C \<and> \<not> editor_is_active st) st) (input_line st) (keyboard_callback sc st)"
proof (cases "sc = 0x1C")
  case True
  then show ?thesis using shell_keypress_safe [OF ok, of newline] k by (simp add: keyboard_enter enters_def)
next
  case False
  have "\<not> enters (translate_key sc (shift_pressed st) (caps_lock st)) st" if "unat sc < 128"
    using False translate_newline [OF _ that] by (auto simp: enters_def)
  then have k: "c \<noteq> NUL \<Longrightarrow> safe N D Returned (input_line st) (shell_keypress c st)"
    if "c = (if unat sc < 128 then translate_key sc (shift_pressed st) (caps_lock st) else NUL)" for c
    using shell_keypress_safe [OF ok, of c] that by (auto simp: key_ok_def key_outcome_def split: if_splits)
  have flags: "safe N D Returned l (Some (Returned, st\<lparr>shift_pressed := b\<rparr>))"
    "safe N D Returned l (Some (Returned, st\<lparr>ctrl_pressed := b\<rparr>))"
    "safe N D Returned l (Some (Returned, st\<lparr>alt_pressed := b\<rparr>))"
    "safe N D Returned l (Some (Returned, st\<lparr>caps_lock := b\<rparr>))" "safe N D Returned l (Some (Returned, st))" for b l
    using ok by simp_all
  have "safe N D Returned (input_line st) (keyboard_callback sc st)"
    unfolding keyboard_callback_def Let_def by (intro safe_if flags k refl)
  then show ?thesis using False by (simp add: key_outcome_def)
qed

lemma interrupt_safe:
  assumes ok: "shell_ok N D st" and e: "irq_ok N D sc n st"
  shows "safe N D (key_outcome (irq_enters sc n st) st) (input_line st) (interrupt sc n st)"
proof -
  let ?q = "key_outcome (irq_enters sc n st) st"
  have n: "0 \<le> n" and k: "key_ok N D (irq_enters sc n st) st" using e by (simp_all add: irq_ok_def)
  let ?m = "if n < 16 then case irq_handlers st ! nat n of None \<Rightarrow> Some (Returned, st)
      | Some h \<Rightarrow> run_handler sc h st else Some (Returned, st)"
  have "safe N D ?q (input_line st) ?m"
  proof (cases "n < 16 \<and> irq_handlers st ! nat n = Some Keyboard_callback")
    case True
    then show ?thesis using keyboard_safe [OF ok, of sc] k by (simp add: irq_enters_def run_handler_def)
  next
    case False
    then have "\<not> irq_enters sc n st" by (auto simp: irq_enters_def)
    moreover have "safe N D Returned l (run_handler sc Timer_callback st)" for l
      using shell_tick_safe [of N D "st\<lparr>timer_ticks := timer_ticks st + 1\<rparr>"] ok
      by (simp add: run_handler_def timer_callback_def)
    ultimately show ?thesis using False ok
      by (auto simp: key_outcome_def split: option.split irq_handler.split) (metis irq_handler.exhaust)
  qed
  then obtain s where s: "?m = Some (?q, s)" "shell_ok N D s" "?q \<noteq> Returned \<longrightarrow> input_line s = input_line st"
    by (auto simp: safe_def runs_def)
  then show ?thesis using n by (auto simp: interrupt_def irq_handler_c_def outb_def Let_def)
qed

subsection \<open>Any sequence of interrupts\<close>

text \<open>
  What happens to the running kernel: an interrupt, with the scancode that the keyboard holds
  and the number of the request, or time enough for the disk to settle. The run ends when an
  interrupt does not return to what it interrupted.
\<close>

datatype event = Irq u8 int | Disk_settles

fun events :: "('d \<Rightarrow> 'd) \<Rightarrow> event list \<Rightarrow> ('d, 'a) kbd_st_scheme \<Rightarrow> (outcome \<times> ('d, 'a) kbd_st_scheme) option" where
  "events settle [] st = Some (Returned, st)"
| "events settle (Irq sc n # es) st = do {
     (res, st) \<leftarrow> interrupt sc n st;
     if res \<noteq> Returned then Some (res, st) else events settle es st
   }"
| "events settle (Disk_settles # es) st = events settle es (st\<lparr>disk := settle (disk st)\<rparr>)"

fun events_ok :: "nat \<Rightarrow> 'd device_laws \<Rightarrow> event list \<Rightarrow> ('d, 'a) kbd_st_scheme \<Rightarrow> bool" where
  "events_ok N D [] st \<longleftrightarrow> True"
| "events_ok N D (Irq sc n # es) st \<longleftrightarrow> irq_ok N D sc n st \<and>
     (case interrupt sc n st of Some (Returned, st) \<Rightarrow> events_ok N D es st | _ \<Rightarrow> True)"
| "events_ok N D (Disk_settles # es) st \<longleftrightarrow> events_ok N D es (st\<lparr>disk := dl_settle D (disk st)\<rparr>)"

text \<open>No line that is entered is one of the three that leave the shell.\<close>

fun stays_in_shell :: "('d \<Rightarrow> 'd) \<Rightarrow> event list \<Rightarrow> ('d, 'a) kbd_st_scheme \<Rightarrow> bool" where
  "stays_in_shell settle [] st \<longleftrightarrow> True"
| "stays_in_shell settle (Irq sc n # es) st \<longleftrightarrow>
     (irq_enters sc n st \<longrightarrow> cstr (input_line st) \<notin> {''panic'', ''exit'', ''runuser''}) \<and>
     (case interrupt sc n st of Some (_, st) \<Rightarrow> stays_in_shell settle es st | None \<Rightarrow> True)"
| "stays_in_shell settle (Disk_settles # es) st \<longleftrightarrow> stays_in_shell settle es (st\<lparr>disk := settle (disk st)\<rparr>)"

lemma line_outcome_returned [simp]: "line_outcome l = Returned \<longleftrightarrow> l \<notin> {''panic'', ''exit'', ''runuser''}"
  by (auto simp: line_outcome_def)

lemma events_handled:
  assumes "shell_ok N D st" "events_ok N D es st"
  shows "\<exists>res st'. events (dl_settle D) es st = Some (res, st') \<and> shell_ok N D st' \<and>
    (res = Returned \<longleftrightarrow> stays_in_shell (dl_settle D) es st) \<and>
    (res \<noteq> Returned \<longrightarrow> res = line_outcome (cstr (input_line st')))"
  using assms
proof (induction "dl_settle D" es st rule: events.induct)
  case (2 sc n es st)
  let ?q = "key_outcome (irq_enters sc n st) st"
  obtain s where s: "interrupt sc n st = Some (?q, s)" "shell_ok N D s" "?q \<noteq> Returned \<longrightarrow> input_line s = input_line st"
    using interrupt_safe [OF 2(2), of sc n] 2(3) by (auto simp: safe_def runs_def)
  have q: "?q = Returned \<longleftrightarrow> (irq_enters sc n st \<longrightarrow> cstr (input_line st) \<notin> {''panic'', ''exit'', ''runuser''})"
    by (simp add: key_outcome_def)
  show ?case
  proof (cases "?q = Returned")
    case True
    then have "events_ok N D es s" using 2(3) s(1) by simp
    from 2(1) [OF s(1) refl _ s(2) this] True q s(1) show ?thesis by simp
  next
    case False
    then have "irq_enters sc n st" by (simp add: key_outcome_def split: if_splits)
    then show ?thesis using s False q by (auto simp: key_outcome_def)
  qed
next
  case (3 es st)
  then show ?case using shell_ok_settle [OF 3(2)] by simp
qed simp

text \<open>
  C6: The running kernel does not crash. From any state that satisfies the invariant, for any
  sequence of hardware interrupts, the ticks of the timer and any keys among them: the invariant
  of every component holds again after the handlers, with all their file, user, log, disk and
  editor operations inside, and every handler of the sequence returns, if and only if none of the
  lines entered is \<open>panic\<close>, \<open>exit\<close> or \<open>runuser\<close>. The first of these ends the run, with a
  processor fault, in the endless halt or in ring 3, in this order. The user must not enter an
  \<open>mv\<close> of a directory into itself, a \<open>find\<close> when a path of the tree has 128 characters or more,
  an \<open>edit\<close> of what is not a file name, a transfer beyond the end of the disk, or a transfer
  before the disk has settled after the last one.
\<close>

theorem interrupts_safe:
  assumes "shell_ok N D st" "events_ok N D es st"
  shows "\<exists>res st'. events (dl_settle D) es st = Some (res, st') \<and> shell_ok N D st' \<and>
    (res = Returned \<longleftrightarrow> stays_in_shell (dl_settle D) es st) \<and>
    (res \<noteq> Returned \<longrightarrow> res = line_outcome (cstr (input_line st')))"
  using assms by (rule events_handled)

subsection \<open>Leaving the handler for the user program\<close>

text \<open>
  The handler of the keyboard runs the commands of the shell, and \<open>runuser\<close> does not return to
  it: the processor enters ring 3 with the interrupt controller still waiting for the end of
  interrupt 1. Every interrupt that does return is acknowledged. So after \<open>runuser\<close> the
  controller delivers no further key.
\<close>

theorem runuser_not_acknowledged:
  fixes st :: "('d, 'a) kbd_st_scheme"
  assumes "irq_handlers st ! 1 = Some Keyboard_callback" "\<not> editor_active st" "input_line st = ''runuser''"
  shows "\<exists>st'. interrupt 0x1C 1 st = Some (User_mode, st') \<and> port_log st' = port_log st"
    and "interrupt sc n s = Some (Returned, s') \<Longrightarrow> last (port_log s') = (PIC1_COMMAND, PIC_EOI)"
proof -
  have "port_log (log_event m x) = port_log x" "port_log (con_call f c x) = port_log x" for m f c
    and x :: "('d, 'a) kbd_st_scheme"
    by (cases m; simp add: log_event_def debugcon_write_eq con_call_def Let_def)+
  then show "\<exists>st'. interrupt 0x1C 1 st = Some (User_mode, st') \<and> port_log st' = port_log st"
    using assms
    by (simp add: shell_execute_ends interrupt_def irq_handler_c_def run_handler_def keyboard_enter shell_keypress_def
        editor_is_active_def Let_def)
  show "interrupt sc n s = Some (Returned, s') \<Longrightarrow> last (port_log s') = (PIC1_COMMAND, PIC_EOI)"
    by (auto simp: interrupt_def irq_handler_c_def outb_def Let_def elim!: bind_SomeE split: if_splits)
qed

text \<open>A concrete system: the shell on a RAM disk, the handlers registered, the log empty.\<close>

definition ram0 :: "ramdisk block_device" where
  "ram0 = \<lparr>bd_name = ''ram0'', bd_num_sectors = 2, bd_read = ramdisk_read, bd_write = ramdisk_write\<rparr>"

definition kbd_st0 :: "ramdisk kbd_st" where
  "kbd_st0 = (shell_st.extend shell_st0
       \<lparr>shift_pressed = False, ctrl_pressed = False, alt_pressed = False, caps_lock = False\<rparr>)
     \<lparr>log_buf := replicate 128 [], log_head := 0, log_count := 0, g_root_dev := Some ram0,
      irq_handlers := [Some Timer_callback, Some Keyboard_callback] @ replicate 14 None\<rparr>"

lemma kbd_st0_ok: "shell_ok 2 (ram_laws 2) kbd_st0"
proof -
  have v: "fs_view kbd_st0 = fs_view shell_st0" by (simp add: kbd_st0_def fs_view_def shell_st.defs)
  have u: "users kbd_st0 = users shell_st0" "user_count kbd_st0 = user_count shell_st0"
    "current_user_idx kbd_st0 = current_user_idx shell_st0"
    by (simp_all add: kbd_st0_def shell_st.defs)
  have "sec_current shell_st0 = sec_current (sec_init sec_st0)"
    by (simp add: sec_current_def sec_table_def shell_st_of_def cpu_st0_def ed_st.defs dev_st.defs tick_st.defs cpu_st.defs sec_st.defs)
  then have "0 \<le> current_user_idx shell_st0" using boot_state(3) by (auto simp: sec_current_def split: if_splits)
  then show ?thesis
    using fs_inv_view [OF v] shell_st0_inv(1) shell_st0_sec(1) ramdisk_serves [of ram0 2] u
    by (simp add: shell_ok_def sec_wf_def settles_def)
      (simp add: kbd_st0_def shell_st_of_def shell_st.defs ed_st.defs dev_st.defs tick_st.defs log_wf_def
        EDITOR_BUF_SIZE_def SHELL_INPUT_MAX_def ram0_def ramdisk_ok_def ramdisk_sectors_def)
qed

text \<open>What a printable key does to the line, for the witness.\<close>

lemma type_char:
  assumes "translate_key sc (shift_pressed st) (caps_lock st) = c" "32 \<le> ord c" "unat sc < 128"
    and "sc \<notin> {SC_LSHIFT, SC_RSHIFT, SC_CTRL, SC_ALT, SC_CAPS}" "sc AND 0x80 = 0"
    and "irq_handlers st ! 1 = Some Keyboard_callback" "\<not> editor_active st" "length (input_line st) < 127"
  shows "\<exists>st'. interrupt sc 1 st = Some (Returned, st') \<and> input_line st' = input_line st @ [c] \<and>
    irq_handlers st' = irq_handlers st \<and> editor_active st' = editor_active st \<and>
    shift_pressed st' = shift_pressed st \<and> caps_lock st' = caps_lock st"
proof -
  have c: "c \<noteq> NUL" "c \<noteq> CHR 0x08" "c \<noteq> newline" using assms(2) by (auto simp: ord_def)
  have "shell_keypress c st = Some (Returned, sh_write (cstr [c]) (st\<lparr>input_line := input_line st @ [c]\<rparr>))"
    using assms(7,8) c by (simp add: shell_keypress_def editor_is_active_def SHELL_INPUT_MAX_def)
  then show ?thesis
    using assms(1,3-6) c(1)
    by (simp add: interrupt_def irq_handler_c_def run_handler_def keyboard_callback_def outb_def con_call_def)
qed

theorem interrupts_safe_witness:
  "\<exists>st'. events (\<lambda>d. d) [Irq 0x26 1, Disk_settles, Irq 0x1F 1, Irq 0x1C 1, Irq 0 0, Irq 0x01 1] kbd_st0 = Some (Returned, st') \<and>
     shell_ok 2 (ram_laws 2) st'"
proof -
  have st0: "irq_handlers kbd_st0 ! 1 = Some Keyboard_callback" "\<not> editor_active kbd_st0" "input_line kbd_st0 = []"
    "\<not> shift_pressed kbd_st0" "\<not> caps_lock kbd_st0"
    by (simp_all add: kbd_st0_def shell_st_of_def shell_st.defs ed_st.defs dev_st.defs tick_st.defs)
  have keys: "translate_key 0x26 False False = CHR ''l''" "translate_key 0x1F False False = CHR ''s''" by code_simp+
  have sc: "(0x26 :: u8) \<notin> {SC_LSHIFT, SC_RSHIFT, SC_CTRL, SC_ALT, SC_CAPS}" "(0x26 :: u8) AND 0x80 = 0"
    "(0x1F :: u8) \<notin> {SC_LSHIFT, SC_RSHIFT, SC_CTRL, SC_ALT, SC_CAPS}" "(0x1F :: u8) AND 0x80 = 0"
    by (simp_all add: sc_defs)
  obtain s where s: "interrupt 0x26 1 kbd_st0 = Some (Returned, s)" "input_line s = ''l''"
    "irq_handlers s = irq_handlers kbd_st0" "\<not> editor_active s" "\<not> shift_pressed s" "\<not> caps_lock s"
    using type_char [OF _ _ _ sc(1,2) st0(1,2), of "CHR ''l''"] keys(1) st0 by (auto simp: ord_def)
  obtain t where t: "interrupt 0x1F 1 s = Some (Returned, t)" "input_line t = ''ls''"
    using type_char [OF _ _ _ sc(3,4) _ s(4), of "CHR ''s''"] keys(2) s st0(1) by (auto simp: ord_def)
  let ?es = "[Irq 0x26 1, Disk_settles, Irq 0x1F 1, Irq 0x1C 1, Irq 0 0, Irq 0x01 1]"
  have "line_ok 2 (ram_laws 2) ''ls'' t" by (simp add: line_ok_def numeral_eq_Suc)
  then have "events_ok 2 (ram_laws 2) ?es kbd_st0" "stays_in_shell (\<lambda>d. d) ?es kbd_st0"
    using s(1) t by (simp_all add: irq_ok_def key_ok_def irq_enters_def split: option.split outcome.split)
  then show ?thesis using interrupts_safe [OF kbd_st0_ok, of ?es] by auto
qed

end
