(* ===== verification/Kernel_Run.thy ===== *)
theory Kernel_Run
  imports Kernel_Main Irq_Safe
begin

text \<open>
  The whole run of the kernel, from the loader to the user: the boot of theory \<open>Kernel_Main\<close>,
  the first task, which is the shell (\<open>shell_thread\<close> of \<open>kernel/kernel_main.c\<close>), and the
  interrupts from then on.
\<close>

subsection \<open>The shell is quiet during the boot\<close>

text \<open>
  The log, the handlers \<open>h\<close>, the editor and the shell before anything has been typed. The steps
  of the boot write messages to the log and register handlers, no more.
\<close>

definition quiet :: "irq_handler option list \<Rightarrow> ('d, 'a) shell_st_scheme \<Rightarrow> bool" where
  "quiet h st \<longleftrightarrow> log_wf st \<and> irq_handlers st = h \<and> \<not> editor_active st \<and> editor_buf st = [] \<and>
     input_line st = []"

lemma quiet_outside:
  fixes s t :: "('d, 'a) shell_st_scheme"
  assumes "outside s = outside t"
  shows "quiet h s = quiet h t"
proof -
  have "log_buf s = log_buf t \<and> log_head s = log_head t \<and> log_count s = log_count t \<and>
      irq_handlers s = irq_handlers t \<and> editor_buf s = editor_buf t \<and> editor_active s = editor_active t \<and>
      input_line s = input_line t"
    using assms by (cases s; cases t) (simp add: outside_def)
  then show ?thesis by (simp add: quiet_def log_wf_def)
qed

lemma quiet_con_call [simp]: "quiet h (con_call f c st) = quiet h st"
  by (rule quiet_outside) simp

lemma quiet_log [simp]: "quiet h st \<Longrightarrow> quiet h (log_event m st)" "quiet h st \<Longrightarrow> quiet h (log_init st)"
proof -
  assume q: "quiet h st"
  have "irq_handlers (log_event m st) = irq_handlers st \<and> editor_buf (log_event m st) = editor_buf st \<and>
      editor_active (log_event m st) = editor_active st \<and> input_line (log_event m st) = input_line st"
    by (cases m) (simp_all add: log_event_Some)
  then show "quiet h (log_event m st)" using q by (auto simp: quiet_def)
  show "quiet h (log_init st)" using q log_wf_init [of st] by (auto simp: quiet_def) (simp_all add: log_init_def)
qed

lemma quiet_messages [simp]:
  "quiet h (theme_default f st) = quiet h st" "quiet h (ok_msg m st) = quiet h st" "quiet h (banner m st) = quiet h st"
  "quiet h (print_ascii_banner st) = quiet h st"
  by (simp_all add: ok_msg_def banner_def print_ascii_banner_def theme_default_def theme_banner_def Let_def)

lemma quiet_fields [simp]:
  "quiet h (st\<lparr>gdt := a\<rparr>) = quiet h st" "quiet h (st\<lparr>gdt_tss := b\<rparr>) = quiet h st" "quiet h (st\<lparr>idt := c\<rparr>) = quiet h st"
  "quiet h (st\<lparr>cpu_loads := d\<rparr>) = quiet h st" "quiet h (st\<lparr>port_log := e\<rparr>) = quiet h st" "quiet h (st\<lparr>cr0 := f\<rparr>) = quiet h st"
  "quiet h (st\<lparr>cr3 := g\<rparr>) = quiet h st" "quiet h (st\<lparr>heap_offset := hh\<rparr>) = quiet h st" "quiet h (st\<lparr>con_out := i\<rparr>) = quiet h st"
  "quiet h (st\<lparr>users := j\<rparr>) = quiet h st" "quiet h (st\<lparr>user_count := k\<rparr>) = quiet h st"
  "quiet h (st\<lparr>current_user_idx := l\<rparr>) = quiet h st" "quiet h (st\<lparr>g_key := m\<rparr>) = quiet h st"
  "quiet h (st\<lparr>g_key_len := n\<rparr>) = quiet h st" "quiet h (st\<lparr>g_root_dev := q\<rparr>) = quiet h st"
  "quiet h (st\<lparr>frame_bitmap := r\<rparr>) = quiet h st"
  by (simp_all add: quiet_def log_wf_def)

lemma quiet_task_fields [simp]:
  "quiet h (s\<lparr>current_task := p\<rparr>) = quiet h s" "quiet h (s\<lparr>task_head := p\<rparr>) = quiet h s"
  "quiet h (s\<lparr>next_id := i\<rparr>) = quiet h s" "quiet h (s\<lparr>tasks := ts\<rparr>) = quiet h s" "quiet h (s\<lparr>started := l\<rparr>) = quiet h s"
  by (simp_all add: quiet_def log_wf_def)

lemma quiet_kprint [simp]: "quiet h (kprint_u32 f v st) = quiet h st"
  by (subst kprint_u32_state) simp

lemma quiet_gates [simp]: "quiet h (fold (\<lambda>n. idt_set_gate (u n) (v n) sel fl) xs st) = quiet h st"
  by (induction xs arbitrary: st) (simp_all add: idt_set_gate_def)


lemma quiet_cpu [simp]:
  "quiet h (gdt_init a b c st) = quiet h st" "quiet h (idt_init d isr st) = quiet h st"
  "quiet h (irq_install e f irq st) = quiet h st" "quiet h (paging_enable pd st) = quiet h st"
  "quiet h (syscall_init i st) = quiet h st"
  by (simp_all add: gdt_init_def write_tss_def gdt_set_entry_def cpu_load_call_def idt_init_def isr_install_def
      irq_install_def paging_enable_def outb_def syscall_init_def idt_set_gate_def
      timer_install_def keyboard_install_def Let_def)

subsection \<open>The steps of the boot\<close>

definition lower :: "'a page_st_scheme \<Rightarrow> 'a page_st_scheme" where
  "lower st = st\<lparr>con_out := [], page_directory := \<lambda>_. 0, page_tables := \<lambda>_ _. 0, cr3 := 0, cr0 := 0, invlpgs := []\<rparr>"

lemma lower_upd [simp]:
  "lower (st\<lparr>page_directory := a\<rparr>) = lower st" "lower (st\<lparr>page_tables := b\<rparr>) = lower st"
  "lower (st\<lparr>invlpgs := c\<rparr>) = lower st" "lower (con_call f d st) = lower st"
  by (simp_all add: lower_def con_call_def)

lemma quiet_lower:
  fixes s t :: "('d, 'a) shell_st_scheme"
  assumes "lower s = lower t"
  shows "quiet h s = quiet h t"
proof -
  have "log_buf s = log_buf t \<and> log_head s = log_head t \<and> log_count s = log_count t \<and>
      irq_handlers s = irq_handlers t \<and> editor_buf s = editor_buf t \<and> editor_active s = editor_active t \<and>
      input_line s = input_line t"
    using assms by (cases s; cases t) (simp add: lower_def)
  then show ?thesis by (simp add: quiet_def log_wf_def)
qed

lemma set_user_loop_lower: "set_user_loop a e st = Some st' \<Longrightarrow> lower st' = lower st"
proof (induction rule: set_user_loop.raw_induct [rotated, consumes 1])
  case (1 loop a e st st')
  show ?case
  proof (cases "a < e")
    case True
    then show ?thesis using 1 by (auto simp: invlpg_def write_pte_def split: option.splits dest!: 1(1))
  qed (use 1 in simp)
qed

lemma init_table_loop_lower: "init_table_loop t i n addr st = (addr', st') \<Longrightarrow> lower st' = lower st"
  by (induction t i n addr st rule: init_table_loop.induct) (auto simp: write_pte_def)

lemma init_tables_loop_lower: "lower (init_tables_loop b t n addr st) = lower st"
proof (induction b t n addr st rule: init_tables_loop.induct)
  case (2 b t n addr st)
  then show ?case
    by (cases "init_table_loop t 0 1024 addr st") (auto dest: init_table_loop_lower)
qed simp

lemma paging_init_lower: "paging_init b st = Some st' \<Longrightarrow> lower st' = lower st"
  by (auto simp: paging_init_def paging_set_user_for_range_def init_tables_loop_lower Let_def
      dest!: set_user_loop_lower split: if_splits)

text \<open>The two handlers.\<close>

lemma quiet_handlers:
  "quiet h st \<Longrightarrow> quiet (h[0 := Some Timer_callback]) (timer_install st)"
  "quiet h s \<Longrightarrow> quiet (h[1 := Some Keyboard_callback]) (keyboard_install s)"
  by (simp_all add: quiet_def log_wf_def timer_install_def keyboard_install_def irq_register_handler_def outb_def
      con_call_def Let_def)

text \<open>\<open>stays h m\<close>: if the step returns, the shell is quiet afterwards.\<close>

definition stays :: "irq_handler option list \<Rightarrow> ('d, 'a) shell_st_scheme option \<Rightarrow> bool" where
  "stays h m \<longleftrightarrow> (\<forall>s. m = Some s \<longrightarrow> quiet h s)"

lemma stays_Some [simp]: "stays h (Some s) = quiet h s"
  by (simp add: stays_def)

lemma stays_bind: "stays h m \<Longrightarrow> (\<And>s. quiet h s \<Longrightarrow> stays k (f s)) \<Longrightarrow> stays k (m \<bind> f)"
  by (cases m) (simp_all add: stays_def)

lemma stays_sleep: "quiet h st \<Longrightarrow> stays h (sleep_ticks n st)"
  by (simp add: stays_def sleep_ticks_def Let_def)

lemma stays_paging:
  assumes "quiet h st"
  shows "stays h (paging_init b st)"
  unfolding stays_def
proof (intro allI impI)
  fix s assume "paging_init b st = Some s"
  then have "lower s = lower st" by (rule paging_init_lower)
  from quiet_lower [OF this, of h] show "quiet h s" using assms by simp
qed

lemma stays_phys:
  fixes st :: "('d, 'a) shell_st_scheme"
  assumes "quiet h st"
  shows "stays h (phys_init k st)"
  using assms by (auto simp: stays_def phys_init_def Let_def elim!: bind_SomeE)

lemma quiet_kmalloc: "kmalloc k st = (p, st') \<Longrightarrow> quiet h st \<Longrightarrow> quiet h st'"
  using quiet_outside [OF kmalloc_outside, of k st p st' h] by simp

lemma quiet_kmalloc_init [simp]: "quiet h (kmalloc_init st) = quiet h st"
  by (simp add: kmalloc_init_def)

lemma boot_machine_quiet:
  assumes "quiet h st"
  shows "stays h (boot_machine env st)"
proof -
  have heap: "stays h (let (buf, s) = kmalloc 32 s in if buf \<noteq> NULL
        then let s = console_write Kernel_main_c ''Heap test: '' s;
                 s = console_write Kernel_main_c ''OK'' s;
                 s = console_write Kernel_main_c [newline] s
             in Some (log_event (Some ''[BOOT] Heap test OK.'') s)
        else Some (log_event (Some ''[BOOT] Heap test FAILED (kmalloc returned NULL).'') s))"
    if "quiet h s" for s :: "('a, 'b) task_st_scheme"
    using that by (auto simp: Let_def split: prod.split dest: quiet_kmalloc)
  note steps = stays_sleep [where n = sleep_timer, of h] stays_paging [of h] stays_phys [of h]
  show ?thesis
    unfolding boot_machine_def Let_def [of "con_call _ _ _"] Let_def [of "log_event _ _"] Let_def [of "gdt_init _ _ _ _"]
      Let_def [of "ok_msg _ _"]
    apply (rule stays_bind, (rule steps), (simp add: assms; fail))+
    by (erule heap [unfolded Let_def [of "con_call _ _ _"]])
qed

lemma fs_bootstrap_outside: "fs_bootstrap st = Some st' \<Longrightarrow> outside st' = outside st"
  by (auto simp: fs_bootstrap_def Let_def dest!: fs_mkdir_outside fs_chdir_outside fs_write_outside fs_read_outside
      elim!: bind_SomeE split: if_splits)

lemma stays_files:
  assumes "quiet h st"
  shows "stays h (fs_init st)" "stays h (fs_bootstrap st)"
  using assms quiet_outside [OF fs_init_outside, of st _ h] quiet_outside [OF fs_bootstrap_outside, of st _ h]
  by (auto simp: stays_def)

lemma quiet_sec_init [simp]: "quiet h st \<Longrightarrow> quiet h (sec_init st)"
proof -
  have add: "quiet h (snd (sec_add_user n p s))" if "quiet h s" for n p and s :: "('a, 'b) shell_st_scheme"
    using that by (auto simp: sec_add_user_def Let_def split: option.splits)
  let ?a = "st\<lparr>user_count := 0, current_user_idx := -1\<rparr>"
  let ?p = "PERM_READ OR PERM_WRITE OR PERM_EXEC OR PERM_SNAP OR PERM_ADMIN"
  assume "quiet h st"
  then have "quiet h ?a" by simp
  note b = add [OF this, of "Some ''root''" ?p]
  from add [OF b, of "Some ''guest''" PERM_READ] show ?thesis
    by (simp add: sec_init_def split_def Let_def)
qed

lemma quiet_crypto [simp]: "quiet h (crypto_set_key k st) = quiet h st"
  by (simp add: crypto_set_key_def split: prod.split)

lemma boot_files_system_quiet:
  assumes "quiet h st"
  shows "stays h (boot_files_system env st)"
proof -
  note steps = stays_sleep [where n = sleep_timer, of h] stays_files [of h]
  show ?thesis
    unfolding boot_files_system_def Let_def ata_pio_init_def prod.case
    apply (rule stays_bind, (rule steps), (simp add: assms blockdev_set_root_def; fail))+
    by (rule steps)
qed

lemma boot_interrupts_quiet:
  assumes "quiet h st"
  shows "stays (h[0 := Some Timer_callback, 1 := Some Keyboard_callback]) (boot_interrupts env st)"
proof -
  note sleep = stays_sleep [where n = sleep_timer]
  let ?h = "h[0 := Some Timer_callback]"
  show ?thesis
    unfolding boot_interrupts_def Let_def
    apply (rule stays_bind, rule sleep [of h], (simp add: assms; fail))+
    apply (rule stays_bind, rule sleep [of ?h], (simp add: quiet_handlers; fail))+
    apply (rule stays_bind, rule sleep [of "?h[1 := Some Keyboard_callback]"], (simp add: quiet_handlers del: One_nat_def; fail))+
    by (rule sleep, simp)
qed

lemma quiet_set_next: "set_next p q st = Some st' \<Longrightarrow> quiet h st' = quiet h st"
  by (auto simp: set_next_def split: option.splits)

lemma quiet_task_create:
  assumes "quiet h st" "task_create e n st = Some (p, st')"
  shows "quiet h st'"
  using assms
  by (auto simp: task_create_def task_append_def Let_def quiet_set_next
      dest!: quiet_kmalloc elim!: bind_SomeE split: prod.splits if_splits)

lemma boot_tasks_quiet:
  assumes "quiet h st" "boot_tasks env st = Some (p, st')"
  shows "quiet h st'"
proof -
  have q: "quiet h s" if "task_create e n (log_event m (banner x (banner y (print_ascii_banner
      (con_call f c (con_call f c (log_event z (task_init st)))))))) = Some (r, s)" for s e n m x y f c z r
    using quiet_task_create [OF _ that, of h] assms(1) by (simp add: task_init_def)
  show ?thesis
    using assms(2)
    by (auto simp: boot_tasks_def scheduler_start_def Let_def dest!: q
        elim!: bind_SomeE split: prod.splits if_splits)
qed

subsection \<open>The first task, and the interrupts\<close>

lemma put_line_frame [simp]:
  "same_upper (put_line f cs r st) t = same_upper st t" "quiet h (put_line f cs r st') = quiet h st'"
proof -
  have "same_upper (fold (\<lambda>x. con_call f (g x)) xs st) t = same_upper st t" for g and xs :: "nat list"
    by (induction xs arbitrary: st) simp_all
  then show "same_upper (put_line f cs r st) t = same_upper st t" by (simp add: put_line_def)
  have "quiet h (fold (\<lambda>x. con_call f (g x)) xs st') = quiet h st'" for g and xs :: "nat list"
    by (induction xs arbitrary: st') simp_all
  then show "quiet h (put_line f cs r st') = quiet h st'" by (simp add: put_line_def)
qed

lemma shell_thread_frame:
  assumes "shell_thread st = Some s"
  shows "same_upper s (st\<lparr>input_line := []\<rparr>)" "quiet h st \<Longrightarrow> quiet h s"
proof -
  have "quiet h (st\<lparr>input_line := []\<rparr>)" if "quiet h st" using that by (simp add: quiet_def log_wf_def)
  then show "quiet h st \<Longrightarrow> quiet h s" "same_upper s (st\<lparr>input_line := []\<rparr>)"
    using assms by (auto simp: shell_thread_def shell_run_def shell_init_def shell_print_prompt_def
        shell_draw_status_bar_def theme_default_def Let_def elim!: bind_SomeE)
qed

lemma shell_thread_safe:
  assumes "shell_ok N D st"
  shows "runs (shell_thread st) (shell_ok N D)"
proof -
  have "shell_ok N D (st\<lparr>input_line := []\<rparr>)"
    using assms by (rule shell_ok_input) (simp add: SHELL_INPUT_MAX_def)
  then show ?thesis by (auto simp: shell_thread_def shell_run_def shell_init_def intro!: prompt_ok)
qed

text \<open>The prompt of \<open>root\<close> in the root directory.\<close>

lemma log_same [simp]:
  "con_out (log_event m st) = con_out st" "fs_cwd (log_event m st') = fs_cwd st'" "fs_root (log_event m st') = fs_root st'"
  by (cases m; simp add: log_event_Some)+

lemma fold_frame: "(\<And>x s. g (h x s) = g s) \<Longrightarrow> g (fold h xs st) = g st"
  by (induction xs arbitrary: st) simp_all

lemma username_calls [simp]:
  "sec_get_current_username (con_call f c st) = sec_get_current_username st"
  "sec_get_current_username (log_event m st) = sec_get_current_username st"
  by (simp_all add: sec_get_current_username_def sec_get_current_user_def)

lemma putcs_put_line [simp]: "putcs (con_out (put_line f cs r st)) = putcs (con_out st)"
  unfolding put_line_def by (rule fold_frame [of "\<lambda>st. putcs (con_out st)"]) simp

lemma put_line_same [simp]:
  "fs_cwd (put_line f cs r st) = fs_cwd st" "fs_root (put_line f cs r st) = fs_root st"
  "sec_get_current_username (put_line f cs r st') = sec_get_current_username st'"
  unfolding put_line_def by (simp_all add: fold_frame)

lemma prompt_printed:
  assumes "shell_print_prompt st = Some s" "fs_cwd st = fs_root st"
  shows "putcs (con_out s) = putcs (con_out st) @ sec_get_current_username st @ ''@hypnos/>''"
  using assms
  by (auto simp: shell_print_prompt_def shell_draw_status_bar_def fs_getcwd_def theme_default_def Let_def)

lemma shell_thread_prompts:
  assumes "shell_thread st = Some s" "booted env t st"
  shows "putcs (con_out s) = putcs (con_out st) @ ''root@hypnos/>''"
proof -
  have "fs_cwd st = fs_root st" using assms(2) by (simp add: booted_def fs_rep_def cwd_at_def)
  moreover have "sec_get_current_username (st\<lparr>input_line := []\<rparr>) = ''root''"
  proof -
    have "sec_get_current_username (st\<lparr>input_line := []\<rparr>) = sec_get_current_username st"
      by (simp add: sec_get_current_username_def sec_get_current_user_def)
    then show ?thesis using assms(2) sec_get_current_username_current [of st]
      by (simp add: booted_def sec_booted_def)
  qed
  ultimately show ?thesis
    using assms(1) prompt_printed [of "log_event (Some ''[SHELL] shell_run loop starting.'') (shell_init st)" s]
    by (simp add: shell_thread_def shell_run_def shell_init_def)
qed

lemma shell_ok_booted:
  assumes "booted env t s" "quiet h s" "length h = 16"
    and "ata_disk (be_ports env) regs phase store N lag settle" "phase (disk t) = Idle"
  shows "shell_ok N (ata_laws phase settle) s"
proof -
  have "0 \<le> current_user_idx s" using assms(1) by (auto simp: booted_def sec_booted_def sec_current_def split: if_splits)
  moreover have "serves N (fst (ata_pio_init (be_ports env) t)) (ata_laws phase settle)" "stable (ata_laws phase settle)"
    using ata_serves [OF assms(4), of "fst (ata_pio_init (be_ports env) t)"] by (simp_all add: ata_pio_init_def)
  moreover have "settles (ata_laws phase settle) (disk t)"
    using calculation(3) assms(5) by (simp add: stable_def)
  ultimately show ?thesis
    using assms(1-3) by (simp add: shell_ok_def booted_def sec_booted_def fs_rep_def quiet_def
        EDITOR_BUF_SIZE_def SHELL_INPUT_MAX_def)
qed

lemma kernel_main_quiet:
  assumes "kernel_main env st = Some (p, st')" "quiet h st"
  shows "quiet (h[0 := Some Timer_callback, 1 := Some Keyboard_callback]) st'"
proof -
  obtain s1 s2 s3 where s: "boot_machine env st = Some s1" "boot_files_system env s1 = Some s2"
    "boot_interrupts env s2 = Some s3" "boot_tasks env s3 = Some (p, st')"
    using assms(1) by (auto simp: kernel_main_def elim!: bind_SomeE)
  show ?thesis
    using boot_machine_quiet [OF assms(2), of env] boot_files_system_quiet [of h s1 env]
      boot_interrupts_quiet [of h s2 env] s boot_tasks_quiet [OF _ s(4)]
    by (simp add: stays_def)
qed

text \<open>The memory that the loader leaves, as the shell and the drivers see it.\<close>

definition loaded :: "'io boot_env \<Rightarrow> ('io, 'a) task_st_scheme \<Rightarrow> bool" where
  "loaded env st \<longleftrightarrow> cold env st \<and> quiet (replicate 16 None) st"

abbreviation boot_handlers :: "irq_handler option list" where
  "boot_handlers \<equiv> [Some Timer_callback, Some Keyboard_callback] @ replicate 14 None"

lemma shell_starts:
  assumes "loaded env st" "ata_disk (be_ports env) regs phase store N lag settle" "phase (disk st) = Idle"
  obtains p st' s where "kernel_main env st = Some (p, st')" "first_task p (be_shell_thread env) ''shell'' st'"
    "shell_thread st' = Some s" "putcs (con_out s) = putcs (con_out st') @ ''root@hypnos/>''"
    "irq_handlers s = boot_handlers" "fs_abs s = boot_files" "shell_ok N (ata_laws phase settle) s"
proof -
  let ?D = "ata_laws phase settle"
  have c: "cold env st" "quiet (replicate 16 None) st" using assms(1) by (simp_all add: loaded_def)
  obtain p st' where b: "kernel_main env st = Some (p, st')" "booted env st st'"
    "first_task p (be_shell_thread env) ''shell'' st'"
    using c(1) by (rule kernel_main_runs)
  have "(replicate 16 None)[0 := Some Timer_callback, 1 := Some Keyboard_callback] = boot_handlers"
    by (simp add: numeral_eq_Suc)
  then have q: "quiet boot_handlers st'" using kernel_main_quiet [OF b(1) c(2)] by simp
  have "shell_ok N ?D st'" using shell_ok_booted [OF b(2) q _ assms(2,3)] by simp
  then obtain s where s: "shell_thread st' = Some s" "shell_ok N ?D s"
    using shell_thread_safe [of N ?D st'] by (auto simp: runs_def)
  note f = shell_thread_frame [OF s(1)]
  have "fs_rep s (boot_files, [])"
    using fs_rep_view [of s "st'\<lparr>input_line := []\<rparr>"] fs_rep_view [of "st'\<lparr>input_line := []\<rparr>" st'] f(1) b(2)
    by (simp add: same_upper_def booted_def fs_view_def)
  then show thesis using that [OF b(1,3) s(1) shell_thread_prompts [OF s(1) b(2)] _ _ s(2)] f(2) [OF q]
    by (simp add: quiet_def fs_rep_def)
qed

text \<open>
  C5: Cold boot to user. From the memory that the loader leaves (\<open>loaded\<close>) and an idle drive
  that meets the laws of \<open>ata_disk\<close>, \<open>kernel_main\<close> reaches its first task, the task starts the
  shell and prints the prompt \<open>root@hypnos/>\<close>, with the initial files, and the timer and the
  keyboard are the two interrupt handlers. From then on, for every sequence of interrupts (with
  the exceptions of \<open>events_ok\<close>), the invariants of the files, the users, the log, the editor and
  the shell hold again, the drive is idle once it has settled, and every handler returns, if and
  only if none of the lines entered is \<open>panic\<close>, \<open>exit\<close> or \<open>runuser\<close>; the first of these ends the run
  with a processor fault, in the endless halt or in ring 3. Interrupts before the shell has
  started are not modelled.
\<close>

theorem kernel_runs:
  assumes "loaded env st" "ata_disk (be_ports env) regs phase store N lag settle" "phase (disk st) = Idle"
  shows "\<exists>p st' s. kernel_main env st = Some (p, st') \<and> first_task p (be_shell_thread env) ''shell'' st' \<and>
    shell_thread st' = Some s \<and> putcs (con_out s) = putcs (con_out st') @ ''root@hypnos/>'' \<and>
    irq_handlers s = boot_handlers \<and> fs_abs s = boot_files \<and>
    (\<forall>es. events_ok N (ata_laws phase settle) es s \<longrightarrow> (\<exists>res s'. events settle es s = Some (res, s') \<and>
       shell_ok N (ata_laws phase settle) s' \<and> phase (settle (disk s')) = Idle \<and>
       (res = Returned \<longleftrightarrow> stays_in_shell settle es s) \<and>
       (res \<noteq> Returned \<longrightarrow> res = line_outcome (cstr (input_line s')))))"
proof -
  let ?D = "ata_laws phase settle"
  obtain p st' s where s: "kernel_main env st = Some (p, st')" "first_task p (be_shell_thread env) ''shell'' st'"
    "shell_thread st' = Some s" "putcs (con_out s) = putcs (con_out st') @ ''root@hypnos/>''"
    "irq_handlers s = boot_handlers" "fs_abs s = boot_files" "shell_ok N ?D s"
    using assms by (rule shell_starts)
  have "phase (settle (disk x)) = Idle" if "shell_ok N ?D x" for x
    using shell_okD(9) [OF that] by (simp add: settles_def)
  then have "\<exists>res s'. events settle es s = Some (res, s') \<and> shell_ok N ?D s' \<and> phase (settle (disk s')) = Idle \<and>
      (res = Returned \<longleftrightarrow> stays_in_shell settle es s) \<and> (res \<noteq> Returned \<longrightarrow> res = line_outcome (cstr (input_line s')))"
    if "events_ok N ?D es s" for es
    using events_handled [OF s(7) that] unfolding device_laws.simps by blast
  then show ?thesis using s(1-6) by blast
qed

definition loaded_st :: "drive task_st" where
  "loaded_st = cold_st\<lparr>log_buf := replicate 128 [], log_head := 0, log_count := 0,
     irq_handlers := replicate 16 None\<rparr>"

theorem kernel_runs_witness:
  "\<exists>p st' s s'. kernel_main env0 loaded_st = Some (p, st') \<and> shell_thread st' = Some s \<and>
     events drive_settle (replicate 100 (Irq 0 0) @ [Disk_settles]) s = Some (Returned, s')"
proof -
  let ?D = "ata_laws d_phase drive_settle"
  let ?es = "replicate 100 (Irq 0 0) @ [Disk_settles]"
  have c: "loaded env0 loaded_st"
    by (simp add: loaded_def cold_def quiet_def log_wf_def env0_def loaded_st_def cold_st_def)
      (simp add: shell_st_of_def kbd_st.defs shell_st.defs ed_st.defs dev_st.defs tick_st.defs)
  have d: "ata_disk (be_ports env0) d_regs d_phase drive_sector (2 ^ 24) d_lag drive_settle"
    using drive_laws by (simp add: env0_def)
  have i: "d_phase (disk loaded_st) = Idle"
    by (simp add: loaded_st_def cold_st_def shell_st_of_def kbd_st.defs shell_st.defs ed_st.defs dev_st.defs tick_st.defs drive0_def)
  obtain p st' s where s: "kernel_main env0 loaded_st = Some (p, st')" "shell_thread st' = Some s"
    "\<forall>es. events_ok (2 ^ 24) ?D es s \<longrightarrow> (\<exists>res s'. events drive_settle es s = Some (res, s') \<and>
       (res = Returned \<longleftrightarrow> stays_in_shell drive_settle es s))"
    using kernel_runs [OF c d i] by (elim exE conjE) (rule that, assumption, assumption, blast)
  have "events_ok (2 ^ 24) ?D (replicate n (Irq 0 0) @ [Disk_settles]) x"
    "stays_in_shell drive_settle (replicate n (Irq 0 0) @ [Disk_settles]) x" for n and x :: "drive task_st"
    by (induction n arbitrary: x)
      (auto simp: irq_ok_def key_ok_def irq_enters_def split: option.split outcome.split)
  then show ?thesis using s by blast
qed

end
