(* ===== verification/Console.thy ===== *)
theory Console
  imports Output
begin

text \<open>
  The text console, \<open>kernel/console.h\<close>. The header defines static functions over static
  variables, so each C file that includes it (\<open>tu\<close>) has its own row, column and colour; the
  video memory and the cursor registers of the VGA are shared. An operation is a function on
  the state that one file sees (\<open>con_st\<close>), and \<open>con_run\<close> gives the meaning of a trace of
  calls, as the other theories record them, on the whole machine (\<open>con_world\<close>).

  \<open>size_t\<close> positions are natural numbers: the invariant keeps them at most 80. The CRT
  controller is the index and data port pair \<open>0x3D4\<close> and \<open>0x3D5\<close> over a register file. Video
  memory is a function from cell numbers, so a store outside the 2000 cells of the screen
  would show.
\<close>

definition VGA_WIDTH :: nat where "VGA_WIDTH = 80"
definition VGA_HEIGHT :: nat where "VGA_HEIGHT = 25"

datatype vga_color = COLOR_BLACK | COLOR_BLUE | COLOR_GREEN | COLOR_CYAN | COLOR_RED
  | COLOR_MAGENTA | COLOR_BROWN | COLOR_LIGHT_GREY | COLOR_DARK_GREY | COLOR_LIGHT_BLUE
  | COLOR_LIGHT_GREEN | COLOR_LIGHT_CYAN | COLOR_LIGHT_RED | COLOR_LIGHT_MAGENTA
  | COLOR_LIGHT_BROWN | COLOR_WHITE

fun color_code :: "vga_color \<Rightarrow> u8" where
  "color_code COLOR_BLACK = 0"
| "color_code COLOR_BLUE = 1"
| "color_code COLOR_GREEN = 2"
| "color_code COLOR_CYAN = 3"
| "color_code COLOR_RED = 4"
| "color_code COLOR_MAGENTA = 5"
| "color_code COLOR_BROWN = 6"
| "color_code COLOR_LIGHT_GREY = 7"
| "color_code COLOR_DARK_GREY = 8"
| "color_code COLOR_LIGHT_BLUE = 9"
| "color_code COLOR_LIGHT_GREEN = 10"
| "color_code COLOR_LIGHT_CYAN = 11"
| "color_code COLOR_LIGHT_RED = 12"
| "color_code COLOR_LIGHT_MAGENTA = 13"
| "color_code COLOR_LIGHT_BROWN = 14"
| "color_code COLOR_WHITE = 15"

record vga_st =
  vga_buffer :: "nat \<Rightarrow> u16"
  crtc_index :: u8
  crtc_regs :: "u8 \<Rightarrow> u8"

record con_st = vga_st +
  console_row :: nat
  console_col :: nat
  console_color :: u8

subsection \<open>The hardware cursor\<close>

definition vga_outb :: "u16 \<Rightarrow> u8 \<Rightarrow> 'a vga_st_scheme \<Rightarrow> 'a vga_st_scheme" where
  "vga_outb port v st =
     (if port = 0x3D4 then st\<lparr>crtc_index := v\<rparr>
      else if port = 0x3D5 then st\<lparr>crtc_regs := (crtc_regs st)(crtc_index st := v)\<rparr>
      else st)"

definition vga_inb :: "u16 \<Rightarrow> 'a vga_st_scheme \<Rightarrow> u8" where
  "vga_inb port st = (if port = 0x3D5 then crtc_regs st (crtc_index st) else crtc_index st)"

definition vga_set_hw_cursor :: "nat \<Rightarrow> nat \<Rightarrow> 'a vga_st_scheme \<Rightarrow> 'a vga_st_scheme" where
  "vga_set_hw_cursor row col st =
     (let row = (if row \<ge> VGA_HEIGHT then VGA_HEIGHT - 1 else row);
          col = (if col \<ge> VGA_WIDTH then VGA_WIDTH - 1 else col);
          pos = (of_nat (row * VGA_WIDTH + col) :: u16);
          st = vga_outb 0x3D4 0x0F st;
          st = vga_outb 0x3D5 (ucast (pos AND 0xFF)) st;
          st = vga_outb 0x3D4 0x0E st;
          st = vga_outb 0x3D5 (ucast (drop_bit 8 pos AND 0xFF)) st
      in st)"

definition vga_get_hw_cursor :: "'a vga_st_scheme \<Rightarrow> nat \<times> nat \<times> 'a vga_st_scheme" where
  "vga_get_hw_cursor st =
     (let st = vga_outb 0x3D4 0x0F st;
          pos = (ucast (vga_inb 0x3D5 st) :: u16);
          st = vga_outb 0x3D4 0x0E st;
          pos = pos OR push_bit 8 (ucast (vga_inb 0x3D5 st));
          r = unat pos div VGA_WIDTH;
          c = unat pos mod VGA_WIDTH;
          r = (if r \<ge> VGA_HEIGHT then VGA_HEIGHT - 1 else r);
          c = (if c \<ge> VGA_WIDTH then VGA_WIDTH - 1 else c)
      in (r, c, st))"

definition console_get_cursor :: "con_st \<Rightarrow> nat \<times> nat \<times> con_st" where
  "console_get_cursor st =
     (let (r, c, st) = vga_get_hw_cursor st
      in (r, c, st\<lparr>console_row := r, console_col := c\<rparr>))"

definition console_set_cursor :: "nat \<Rightarrow> nat \<Rightarrow> con_st \<Rightarrow> con_st" where
  "console_set_cursor row col st =
     (let row = (if row \<ge> VGA_HEIGHT then VGA_HEIGHT - 1 else row);
          col = (if col \<ge> VGA_WIDTH then VGA_WIDTH - 1 else col);
          st = st\<lparr>console_row := row, console_col := col\<rparr>
      in vga_set_hw_cursor (console_row st) (console_col st) st)"

subsection \<open>Cells\<close>

definition vga_entry_color :: "u8 \<Rightarrow> u8 \<Rightarrow> u8" where
  "vga_entry_color fg bg = fg OR push_bit 4 bg"

definition vga_entry :: "char \<Rightarrow> u8 \<Rightarrow> u16" where
  "vga_entry ch color = of_char ch OR push_bit 8 (ucast color)"

definition console_set_color :: "u8 \<Rightarrow> u8 \<Rightarrow> con_st \<Rightarrow> con_st" where
  "console_set_color fg bg st = st\<lparr>console_color := vga_entry_color fg bg\<rparr>"

definition set_cell :: "nat \<Rightarrow> u16 \<Rightarrow> con_st \<Rightarrow> con_st" where
  "set_cell i v st = st\<lparr>vga_buffer := (vga_buffer st)(i := v)\<rparr>"

definition console_put_at :: "char \<Rightarrow> nat \<Rightarrow> nat \<Rightarrow> con_st \<Rightarrow> con_st" where
  "console_put_at c x y st =
     (if x \<ge> VGA_WIDTH \<or> y \<ge> VGA_HEIGHT then st
      else let idx = y * VGA_WIDTH + x
           in set_cell idx (vga_entry c (console_color st)) st)"

text \<open>A counted loop of the code is a \<open>fold\<close> over its range.\<close>

definition console_scroll :: "con_st \<Rightarrow> con_st" where
  "console_scroll st =
     (if console_row st < VGA_HEIGHT - 1 then st
      else
        let st = fold (\<lambda>y. fold (\<lambda>x st.
                     set_cell ((y - 1) * VGA_WIDTH + x) (vga_buffer st (y * VGA_WIDTH + x)) st)
                   [0..<VGA_WIDTH]) [1..<VGA_HEIGHT - 1] st;
            st = fold (\<lambda>x st.
                     set_cell ((VGA_HEIGHT - 2) * VGA_WIDTH + x) (vga_entry (CHR '' '') (console_color st)) st)
                   [0..<VGA_WIDTH] st;
            st = st\<lparr>console_row := VGA_HEIGHT - 2\<rparr>;
            st = (if console_col st \<ge> VGA_WIDTH then st\<lparr>console_col := 0\<rparr> else st)
        in vga_set_hw_cursor (console_row st) (console_col st) st)"

definition console_clear :: "con_st \<Rightarrow> con_st" where
  "console_clear st =
     (let st = fold (\<lambda>y. fold (\<lambda>x st.
                   set_cell (y * VGA_WIDTH + x) (vga_entry (CHR '' '') (console_color st)) st)
                 [0..<VGA_WIDTH]) [0..<VGA_HEIGHT] st;
          st = st\<lparr>console_row := 0, console_col := 0\<rparr>
      in vga_set_hw_cursor (console_row st) (console_col st) st)"

definition console_clear_to_eol :: "con_st \<Rightarrow> con_st" where
  "console_clear_to_eol st =
     (let row = console_row st;
          col = console_col st;
          st = fold (\<lambda>x st. set_cell (row * VGA_WIDTH + x) (vga_entry (CHR '' '') (console_color st)) st)
                 [col..<VGA_WIDTH] st
      in vga_set_hw_cursor (console_row st) (console_col st) st)"

abbreviation backspace :: char where
  "backspace \<equiv> CHR 0x08"

definition console_putc :: "char \<Rightarrow> con_st \<Rightarrow> con_st" where
  "console_putc c st =
     (if c = newline then
        let st = console_clear_to_eol st;
            st = st\<lparr>console_col := 0\<rparr>;
            st = st\<lparr>console_row := console_row st + 1\<rparr>;
            st = console_scroll st
        in vga_set_hw_cursor (console_row st) (console_col st) st
      else if c = carriage_return then
        let st = st\<lparr>console_col := 0\<rparr>
        in vga_set_hw_cursor (console_row st) (console_col st) st
      else if c = backspace then
        let st = (if console_col st > 0 then
                    let st = st\<lparr>console_col := console_col st - 1\<rparr>
                    in console_put_at (CHR '' '') (console_col st) (console_row st) st
                  else st)
        in vga_set_hw_cursor (console_row st) (console_col st) st
      else
        let st = (if console_col st \<ge> VGA_WIDTH
                  then console_scroll (st\<lparr>console_col := 0, console_row := console_row st + 1\<rparr>)
                  else st);
            st = (if console_row st \<ge> VGA_HEIGHT - 1 then console_scroll st else st);
            st = console_put_at c (console_col st) (console_row st) st;
            st = st\<lparr>console_col := console_col st + 1\<rparr>
        in vga_set_hw_cursor (console_row st) (console_col st) st)"

fun console_write_str :: "string \<Rightarrow> con_st \<Rightarrow> con_st" where
  "console_write_str [] st = st"
| "console_write_str (c # s) st = console_write_str s (console_putc c st)"

definition console_set_theme_default :: "con_st \<Rightarrow> con_st" where
  "console_set_theme_default = console_set_color (color_code COLOR_LIGHT_GREY) (color_code COLOR_BLACK)"

definition console_set_theme_banner :: "con_st \<Rightarrow> con_st" where
  "console_set_theme_banner = console_set_color (color_code COLOR_LIGHT_CYAN) (color_code COLOR_BLACK)"

definition console_set_theme_error :: "con_st \<Rightarrow> con_st" where
  "console_set_theme_error = console_set_color (color_code COLOR_LIGHT_RED) (color_code COLOR_BLACK)"

definition console_set_theme_ok :: "con_st \<Rightarrow> con_st" where
  "console_set_theme_ok = console_set_color (color_code COLOR_LIGHT_GREEN) (color_code COLOR_BLACK)"

subsection \<open>The machine: shared video memory, and variables for each file\<close>

text \<open>
  \<open>tv_saved\<close> stands for the locals \<open>old_row\<close> and \<open>old_col\<close> of the functions that draw a
  status bar, which read the cursor before and set it again after drawing.
\<close>

record tu_vars =
  tv_row :: nat
  tv_col :: nat
  tv_color :: u8
  tv_saved :: "nat \<times> nat"

record con_world = vga_st +
  statics :: "tu \<Rightarrow> tu_vars"

definition con_view :: "tu \<Rightarrow> con_world \<Rightarrow> con_st" where
  "con_view f w =
     \<lparr>vga_buffer = vga_buffer w, crtc_index = crtc_index w, crtc_regs = crtc_regs w,
      console_row = tv_row (statics w f), console_col = tv_col (statics w f),
      console_color = tv_color (statics w f)\<rparr>"

definition con_store :: "tu \<Rightarrow> con_st \<Rightarrow> nat \<times> nat \<Rightarrow> con_world \<Rightarrow> con_world" where
  "con_store f st saved w =
     \<lparr>vga_buffer = vga_buffer st, crtc_index = crtc_index st, crtc_regs = crtc_regs st,
      statics = (statics w)(f :=
        \<lparr>tv_row = console_row st, tv_col = console_col st, tv_color = console_color st,
         tv_saved = saved\<rparr>)\<rparr>"

fun con_exec :: "con_op \<Rightarrow> con_st \<times> (nat \<times> nat) \<Rightarrow> con_st \<times> (nat \<times> nat)" where
  "con_exec (Con_write s) (st, old) = (console_write_str s st, old)"
| "con_exec (Con_putc c) (st, old) = (console_putc c st, old)"
| "con_exec (Con_set_color fg bg) (st, old) = (console_set_color fg bg st, old)"
| "con_exec (Con_put_at c x y) (st, old) = (console_put_at c x y st, old)"
| "con_exec Con_clear (st, old) = (console_clear st, old)"
| "con_exec Con_get_cursor (st, old) = (let (r, c, st) = console_get_cursor st in (st, (r, c)))"
| "con_exec Con_restore_cursor (st, old) = (console_set_cursor (fst old) (snd old) st, old)"

definition con_step :: "tu \<times> con_op \<Rightarrow> con_world \<Rightarrow> con_world" where
  "con_step call w =
     (let (st, old) = con_exec (snd call) (con_view (fst call) w, tv_saved (statics w (fst call)))
      in con_store (fst call) st old w)"

definition con_run :: "(tu \<times> con_op) list \<Rightarrow> con_world \<Rightarrow> con_world" where
  "con_run = fold con_step"

text \<open>The state in which the kernel is loaded, for any contents of the video memory.\<close>

definition con_world0 :: "(nat \<Rightarrow> u16) \<Rightarrow> (u8 \<Rightarrow> u8) \<Rightarrow> con_world" where
  "con_world0 mem regs =
     \<lparr>vga_buffer = mem, crtc_index = 0, crtc_regs = regs,
      statics = (\<lambda>_. \<lparr>tv_row = 0, tv_col = 0, tv_color = 0x07, tv_saved = (0, 0)\<rparr>)\<rparr>"

subsection \<open>The cursor registers\<close>

definition hw_pos :: "'a vga_st_scheme \<Rightarrow> nat" where
  "hw_pos st = unat (ucast (crtc_regs st 0x0F) OR push_bit 8 (ucast (crtc_regs st 0x0E)) :: u16)"

lemma byte_pair:
  "ucast (ucast (p AND 0xFF) :: u8) OR push_bit 8 (ucast (ucast (drop_bit 8 p AND 0xFF) :: u8)) = (p :: u16)"
proof -
  have m: "(0xFF :: u16) = mask 8" by (simp add: mask_eq_exp_minus_1)
  show ?thesis unfolding m by (rule bit_word_eqI) (auto simp: bit_simps)
qed

lemma vga_set_hw_cursor_fields [simp, frame_simps]:
  "vga_buffer (vga_set_hw_cursor r c st) = vga_buffer st"
  "vga_st.more (vga_set_hw_cursor r c st) = vga_st.more st"
  by (simp_all add: vga_set_hw_cursor_def vga_outb_def Let_def)

lemma vga_set_hw_cursor_con [simp, frame_simps]:
  "console_row (vga_set_hw_cursor r c st) = console_row st"
  "console_col (vga_set_hw_cursor r c st) = console_col st"
  "console_color (vga_set_hw_cursor r c st) = console_color st"
  by (simp_all add: vga_set_hw_cursor_def vga_outb_def Let_def)

definition clamp_pos :: "nat \<Rightarrow> nat \<Rightarrow> nat" where
  "clamp_pos r c = min r 24 * 80 + min c 79"

lemma hw_pos_set [simp]: "hw_pos (vga_set_hw_cursor r c st) = clamp_pos r c"
proof -
  let ?p = "of_nat (clamp_pos r c) :: u16"
  have "clamp_pos r c < 2000" by (simp add: clamp_pos_def)
  then have "unat ?p = clamp_pos r c" by (simp add: unat_of_nat take_bit_nat_eq_self)
  moreover have "(if r \<ge> VGA_HEIGHT then VGA_HEIGHT - 1 else r) * VGA_WIDTH +
      (if c \<ge> VGA_WIDTH then VGA_WIDTH - 1 else c) = clamp_pos r c"
    by (auto simp: VGA_WIDTH_def VGA_HEIGHT_def clamp_pos_def)
  ultimately show ?thesis
    by (simp add: hw_pos_def vga_set_hw_cursor_def vga_outb_def Let_def byte_pair del: of_nat_add of_nat_mult)
qed

lemma vga_get_hw_cursor_eq:
  "vga_get_hw_cursor st =
     (min (hw_pos st div 80) 24, hw_pos st mod 80, st\<lparr>crtc_index := 0x0E\<rparr>)"
  by (auto simp: vga_get_hw_cursor_def vga_outb_def vga_inb_def hw_pos_def Let_def
      VGA_WIDTH_def VGA_HEIGHT_def min_def not_le)

lemma clamp_pos_divmod: "clamp_pos r c div 80 = min r 24" "clamp_pos r c mod 80 = min c 79"
  by (simp_all add: clamp_pos_def)

text \<open>
  The cursor survives a trip through the hardware registers: reading it back after setting
  it to any row and column gives that position, clamped to the screen of 25 rows and 80
  columns, from the two registers that hold its bytes; the variables of the file that reads it
  agree, and the screen is unchanged.
\<close>

theorem console_cursor_roundtrip:
  "\<exists>st'. console_get_cursor (console_set_cursor r c st) = (min r 24, min c 79, st') \<and>
     console_row st' = min r 24 \<and> console_col st' = min c 79 \<and>
     hw_pos st' = min r 24 * 80 + min c 79 \<and> vga_buffer st' = vga_buffer st"
proof -
  have p: "hw_pos (console_set_cursor r c st) = clamp_pos r c"
    by (auto simp: console_set_cursor_def Let_def VGA_WIDTH_def VGA_HEIGHT_def clamp_pos_def)
  have "hw_pos (console_set_cursor r c st\<lparr>crtc_index := 0x0E, console_row := min r 24,
      console_col := min c 79\<rparr>) = clamp_pos r c"
    using p by (simp add: hw_pos_def)
  moreover have "vga_buffer (console_set_cursor r c st) = vga_buffer st"
    by (simp add: console_set_cursor_def Let_def)
  ultimately show ?thesis
    by (auto simp: console_get_cursor_def vga_get_hw_cursor_eq p clamp_pos_divmod) (simp add: clamp_pos_def)
qed

subsection \<open>What the operations write\<close>

lemma set_cell_simps [simp]:
  "vga_buffer (set_cell i v st) = (vga_buffer st)(i := v)"
  "console_row (set_cell i v st) = console_row st"
  "console_col (set_cell i v st) = console_col st"
  "console_color (set_cell i v st) = console_color st"
  "hw_pos (set_cell i v st) = hw_pos st"
  by (simp_all add: set_cell_def hw_pos_def)

lemma hw_pos_upd [simp]:
  "hw_pos (st\<lparr>console_row := r\<rparr>) = hw_pos st" "hw_pos (st\<lparr>console_col := c\<rparr>) = hw_pos st"
  "hw_pos (st\<lparr>console_color := k\<rparr>) = hw_pos st" "hw_pos (s\<lparr>crtc_index := i\<rparr>) = hw_pos s"
  by (simp_all add: hw_pos_def)

text \<open>A loop that stores one value per step, at places that the loop does not read.\<close>

lemma fold_set_cell_fields:
  assumes "\<And>x s. console_row (f x s) = console_row s \<and> console_col (f x s) = console_col s \<and>
    console_color (f x s) = console_color s \<and> hw_pos (f x s) = hw_pos s"
  shows "console_row (fold f xs st) = console_row st" "console_col (fold f xs st) = console_col st"
    "console_color (fold f xs st) = console_color st" "hw_pos (fold f xs st) = hw_pos st"
  using assms by (induction xs arbitrary: st) auto

lemma fold_blank:
  "vga_buffer (fold (\<lambda>x st. set_cell (b + x) (v (console_color st)) st) [m..<n] st) i =
     (if b + m \<le> i \<and> i < b + n then v (console_color st) else vga_buffer st i)"
proof (induction n)
  case (Suc n)
  then show ?case
  proof (cases "m \<le> n")
    case True
    then show ?thesis using Suc
      by (auto simp: less_Suc_eq fold_set_cell_fields(3))
  next
    case False
    then show ?thesis by auto
  qed
qed auto

lemma fold_copy_row:
  assumes "b + n \<le> b'"
  shows "vga_buffer (fold (\<lambda>x st. set_cell (b + x) (vga_buffer st (b' + x)) st) [0..<n] st) i =
     (if b \<le> i \<and> i < b + n then vga_buffer st (b' + (i - b)) else vga_buffer st i)"
  using assms
proof (induction n arbitrary: i)
  case (Suc n)
  then show ?case by (auto simp: less_Suc_eq)
qed auto

definition copy_rows :: "nat \<Rightarrow> con_st \<Rightarrow> con_st" where
  "copy_rows n = fold (\<lambda>y. fold (\<lambda>x st.
      set_cell ((y - 1) * VGA_WIDTH + x) (vga_buffer st (y * VGA_WIDTH + x)) st) [0..<VGA_WIDTH]) [1..<n]"

lemma copy_rows_cells:
  "vga_buffer (copy_rows (Suc n) st) i = (if i < n * 80 then vga_buffer st (i + 80) else vga_buffer st i)"
proof (induction n arbitrary: i)
  case 0
  then show ?case by (simp add: copy_rows_def)
next
  case (Suc n)
  have "copy_rows (Suc (Suc n)) st =
      fold (\<lambda>x st. set_cell (n * 80 + x) (vga_buffer st (n * 80 + 80 + x)) st) [0..<80] (copy_rows (Suc n) st)"
    by (simp add: copy_rows_def VGA_WIDTH_def add.commute del: upt_Suc) (simp add: add.assoc)
  then have "vga_buffer (copy_rows (Suc (Suc n)) st) i =
      (if n * 80 \<le> i \<and> i < n * 80 + 80 then vga_buffer (copy_rows (Suc n) st) (n * 80 + 80 + (i - n * 80))
       else vga_buffer (copy_rows (Suc n) st) i)"
    using fold_copy_row [of "n * 80" 80 "n * 80 + 80"] by simp
  moreover have "n * 80 \<le> i \<Longrightarrow> n * 80 + 80 + (i - n * 80) = i + 80" by simp
  ultimately show ?case by (simp only: Suc.IH) (auto simp: add.commute)
qed

lemma copy_rows_fields:
  "console_row (copy_rows n st) = console_row st" "console_col (copy_rows n st) = console_col st"
  "console_color (copy_rows n st) = console_color st" "hw_pos (copy_rows n st) = hw_pos st"
  unfolding copy_rows_def by (simp_all add: fold_set_cell_fields)

text \<open>Scrolling moves the 24 content rows up by one and clears the last of them.\<close>

lemma console_scroll_cells:
  "vga_buffer (console_scroll st) i =
     (if console_row st < 24 then vga_buffer st i
      else if i < 23 * 80 then vga_buffer st (i + 80)
      else if i < 24 * 80 then vga_entry (CHR '' '') (console_color st) else vga_buffer st i)"
proof (cases "console_row st < 24")
  case True
  then show ?thesis by (simp add: console_scroll_def VGA_HEIGHT_def)
next
  case False
  let ?st = "copy_rows 24 st"
  have "vga_buffer (console_scroll st) i =
      vga_buffer (fold (\<lambda>x st. set_cell (1840 + x) (vga_entry (CHR '' '') (console_color st)) st) [0..<80] ?st) i"
    using False by (auto simp: console_scroll_def VGA_HEIGHT_def VGA_WIDTH_def copy_rows_def Let_def)
  also have "\<dots> = (if 1840 + 0 \<le> i \<and> i < 1840 + 80 then vga_entry (CHR '' '') (console_color ?st)
      else vga_buffer ?st i)"
    by (rule fold_blank)
  also have "vga_buffer ?st i = (if i < 23 * 80 then vga_buffer st (i + 80) else vga_buffer st i)"
    using copy_rows_cells [of 23 st i] by simp
  finally show ?thesis using False by (simp add: copy_rows_fields)
qed

lemma console_scroll_fields:
  "console_row (console_scroll st) = (if console_row st < 24 then console_row st else 23)"
  "console_col (console_scroll st) =
     (if console_row st \<ge> 24 \<and> console_col st \<ge> 80 then 0 else console_col st)"
  "console_color (console_scroll st) = console_color st"
  "hw_pos (console_scroll st) = (if console_row st < 24 then hw_pos st
     else clamp_pos 23 (if console_col st \<ge> 80 then 0 else console_col st))"
  by (simp_all add: console_scroll_def VGA_HEIGHT_def VGA_WIDTH_def Let_def fold_set_cell_fields)

lemma clear_to_eol_fields:
  "console_row (console_clear_to_eol st) = console_row st"
  "console_col (console_clear_to_eol st) = console_col st"
  "console_color (console_clear_to_eol st) = console_color st"
  "hw_pos (console_clear_to_eol st) = clamp_pos (console_row st) (console_col st)"
  by (simp_all add: console_clear_to_eol_def Let_def fold_set_cell_fields)

lemma clear_to_eol_cells:
  "vga_buffer (console_clear_to_eol st) i =
     (if console_row st * 80 + console_col st \<le> i \<and> i < console_row st * 80 + 80
      then vga_entry (CHR '' '') (console_color st) else vga_buffer st i)"
  unfolding console_clear_to_eol_def Let_def
  by (simp add: VGA_WIDTH_def fold_blank [where v = "vga_entry (CHR '' '')"])

lemma put_at_fields [simp]:
  "console_row (console_put_at c x y st) = console_row st"
  "console_col (console_put_at c x y st) = console_col st"
  "console_color (console_put_at c x y st) = console_color st"
  "hw_pos (console_put_at c x y st) = hw_pos st"
  by (simp_all add: console_put_at_def Let_def)

lemma put_at_cells:
  "vga_buffer (console_put_at c x y st) i =
     (if x < 80 \<and> y < 25 \<and> i = y * 80 + x then vga_entry c (console_color st) else vga_buffer st i)"
  by (simp add: console_put_at_def Let_def VGA_WIDTH_def VGA_HEIGHT_def)

lemma clear_cells:
  "vga_buffer (console_clear st) i =
     (if i < 2000 then vga_entry (CHR '' '') (console_color st) else vga_buffer st i)"
proof -
  let ?row = "\<lambda>y. fold (\<lambda>x st. set_cell (y * 80 + x) (vga_entry (CHR '' '') (console_color st)) st) [0..<80]"
  have col: "console_color (fold ?row [0..<n] st) = console_color st" for n
    by (rule fold_set_cell_fields) (simp add: fold_set_cell_fields)
  have "vga_buffer (fold ?row [0..<n] st) i =
     (if i < n * 80 then vga_entry (CHR '' '') (console_color st) else vga_buffer st i)" for n
  proof (induction n)
    case (Suc n)
    show ?case
      by (simp add: fold_blank [where v = "vga_entry (CHR '' '')"] Suc col)
  qed simp
  from this [of 25] show ?thesis
    by (simp add: console_clear_def Let_def VGA_WIDTH_def VGA_HEIGHT_def)
qed

lemma clear_fields [simp]:
  "console_row (console_clear st) = 0" "console_col (console_clear st) = 0"
  "console_color (console_clear st) = console_color st" "hw_pos (console_clear st) = 0"
  by (simp_all add: console_clear_def Let_def fold_set_cell_fields clamp_pos_def)

subsection \<open>The invariant\<close>

text \<open>The position of a file never lies in the last row, which holds the status bar.\<close>

definition con_ok :: "con_st \<Rightarrow> bool" where
  "con_ok st \<longleftrightarrow> console_row st \<le> 23 \<and> console_col st \<le> 80 \<and> hw_pos st < 1920"

lemma clamp_pos_content: "r \<le> 23 \<Longrightarrow> clamp_pos r c < 1920"
  by (simp add: clamp_pos_def)

lemma console_putc_ok:
  assumes "con_ok st"
  shows "con_ok (console_putc c st)" and "i \<ge> 1920 \<Longrightarrow> vga_buffer (console_putc c st) i = vga_buffer st i"
proof -
  have st: "console_row st \<le> 23" "console_col st \<le> 80" "hw_pos st < 1920"
    using assms by (simp_all add: con_ok_def)
  show "con_ok (console_putc c st)"
    using st unfolding console_putc_def Let_def con_ok_def
    by (auto simp: console_scroll_fields clear_to_eol_fields VGA_WIDTH_def VGA_HEIGHT_def
        intro!: clamp_pos_content)
  show "vga_buffer (console_putc c st) i = vga_buffer st i" if "i \<ge> 1920"
  proof -
    have "console_row st * 80 + 80 \<le> 1920" using st by simp
    with that st show ?thesis
      unfolding console_putc_def Let_def
      by (auto simp: console_scroll_fields console_scroll_cells clear_to_eol_fields clear_to_eol_cells
          put_at_cells VGA_WIDTH_def VGA_HEIGHT_def)
  qed
qed

lemma console_write_str_ok:
  assumes "con_ok st"
  shows "con_ok (console_write_str s st)"
    and "i \<ge> 1920 \<Longrightarrow> vga_buffer (console_write_str s st) i = vga_buffer st i"
  using assms by (induction s arbitrary: st) (simp_all add: console_putc_ok)

definition con_world_ok :: "con_world \<Rightarrow> bool" where
  "con_world_ok w \<longleftrightarrow> hw_pos w < 1920 \<and>
     (\<forall>f. tv_row (statics w f) \<le> 23 \<and> tv_col (statics w f) \<le> 80 \<and> fst (tv_saved (statics w f)) \<le> 23)"

definition status_bar_call :: "con_op \<Rightarrow> bool" where
  "status_bar_call op \<longleftrightarrow> (case op of Con_clear \<Rightarrow> True | Con_put_at c x y \<Rightarrow> y = 24 | _ \<Rightarrow> False)"

lemma set_cursor_fields:
  "console_row (console_set_cursor r c st) = min r 24" "console_col (console_set_cursor r c st) = min c 79"
  "hw_pos (console_set_cursor r c st) = clamp_pos r c" "vga_buffer (console_set_cursor r c st) = vga_buffer st"
  by (auto simp: console_set_cursor_def Let_def VGA_WIDTH_def VGA_HEIGHT_def clamp_pos_def)

lemma con_exec_ok:
  assumes "con_ok st" "fst old \<le> 23" "con_exec op (st, old) = (st', old')"
  shows "con_ok st'" "fst old' \<le> 23"
    and "i \<ge> 2000 \<Longrightarrow> vga_buffer st' i = vga_buffer st i"
    and "\<not> status_bar_call op \<Longrightarrow> i \<ge> 1920 \<Longrightarrow> vga_buffer st' i = vga_buffer st i"
proof -
  have hw: "hw_pos st < 1920" "hw_pos st div 80 \<le> 23" "hw_pos st mod 80 \<le> 80"
    using assms(1) by (auto simp: con_ok_def)
  have all: "con_ok st' \<and> fst old' \<le> 23 \<and> (\<forall>i \<ge> 2000. vga_buffer st' i = vga_buffer st i) \<and>
     (\<not> status_bar_call op \<longrightarrow> (\<forall>i \<ge> 1920. vga_buffer st' i = vga_buffer st i))"
  proof (cases op)
    case (Con_put_at c x y)
    have "\<not> status_bar_call op \<Longrightarrow> x < 80 \<Longrightarrow> y < 25 \<Longrightarrow> y * 80 + x < 1920"
      by (simp add: Con_put_at status_bar_call_def)
    then show ?thesis using assms Con_put_at by (auto simp: con_ok_def put_at_cells)
  next
    case (Con_write s)
    then show ?thesis using assms by (auto simp: console_write_str_ok)
  next
    case (Con_putc c)
    then show ?thesis using assms by (auto simp: console_putc_ok)
  qed (use assms hw in \<open>auto simp: console_write_str_ok console_putc_ok con_ok_def clear_cells
      console_get_cursor_def vga_get_hw_cursor_eq set_cursor_fields clamp_pos_content
      console_set_color_def status_bar_call_def\<close>)
  show "con_ok st'" "fst old' \<le> 23" using all by blast+
  show "vga_buffer st' i = vga_buffer st i" if "i \<ge> 2000" using all that by blast
  show "vga_buffer st' i = vga_buffer st i" if "\<not> status_bar_call op" "i \<ge> 1920"
    using all that by blast
qed

lemma con_step_ok:
  assumes "con_world_ok w"
  shows "con_world_ok (con_step call w)"
    and "i \<ge> 2000 \<Longrightarrow> vga_buffer (con_step call w) i = vga_buffer w i"
    and "\<not> status_bar_call (snd call) \<Longrightarrow> i \<ge> 1920 \<Longrightarrow> vga_buffer (con_step call w) i = vga_buffer w i"
proof -
  obtain st old where e: "con_exec (snd call) (con_view (fst call) w, tv_saved (statics w (fst call))) = (st, old)"
    by (rule prod.exhaust)
  have v: "con_ok (con_view (fst call) w)" "fst (tv_saved (statics w (fst call))) \<le> 23"
    using assms by (auto simp: con_world_ok_def con_ok_def con_view_def hw_pos_def)
  have b: "vga_buffer (con_view (fst call) w) = vga_buffer w" by (simp add: con_view_def)
  have s: "con_step call w = con_store (fst call) st old w" using e by (simp add: con_step_def)
  note ok = con_exec_ok [OF v e]
  show "con_world_ok (con_step call w)"
    using assms ok(1,2) by (auto simp: s con_world_ok_def con_ok_def con_store_def hw_pos_def)
  show "vga_buffer (con_step call w) i = vga_buffer w i" if "i \<ge> 2000"
    using ok(3) [OF that] b by (simp add: s con_store_def)
  show "vga_buffer (con_step call w) i = vga_buffer w i" if "\<not> status_bar_call (snd call)" "i \<ge> 1920"
    using ok(4) [OF that] b by (simp add: s con_store_def)
qed

lemma con_run_simps [simp]:
  "con_run [] w = w" "con_run (c # cs) w = con_run cs (con_step c w)"
  "con_run (cs @ ds) w = con_run ds (con_run cs w)"
  by (simp_all add: con_run_def)

lemma con_world0_clear_ok: "con_world_ok (con_step (f, Con_clear) (con_world0 mem regs))"
proof -
  have "hw_pos (con_store f s old w) = hw_pos s" for f s old w
    by (simp add: con_store_def hw_pos_def)
  then show ?thesis by (simp add: con_world_ok_def con_step_def) (simp add: con_store_def con_world0_def)
qed

text \<open>
  C12: Whatever sequence of console calls the files of the kernel make, in whatever order, no
  call stores outside the 2000 cells of the screen, and every file's position stays above the
  last row; and as long as no call clears the screen or draws in the last row, the 80 cells
  of the status bar are never changed, by long lines and scrolling neither.
\<close>

theorem console_trace_safe:
  assumes "con_world_ok w"
  shows "con_world_ok (con_run cs w) \<and>
    (\<forall>i \<ge> 2000. vga_buffer (con_run cs w) i = vga_buffer w i) \<and>
    ((\<forall>call \<in> set cs. \<not> status_bar_call (snd call)) \<longrightarrow>
       (\<forall>i \<ge> 1920. vga_buffer (con_run cs w) i = vga_buffer w i))"
  using assms
proof (induction cs arbitrary: w)
  case (Cons c cs)
  then show ?case using con_step_ok [OF Cons.prems, where call = c] by (simp add: Cons.IH)
qed simp

theorem console_trace_safe_witness:
  "vga_buffer (con_run [(Shell_c, Con_write ''ls''), (Fs_c, Con_write [newline])]
      (con_step (Kernel_main_c, Con_clear) (con_world0 (\<lambda>_. 0) (\<lambda>_. 0)))) 1999 =
   vga_buffer (con_step (Kernel_main_c, Con_clear) (con_world0 (\<lambda>_. 0) (\<lambda>_. 0))) 1999"
  using console_trace_safe [OF con_world0_clear_ok, of "[(Shell_c, Con_write ''ls''), (Fs_c, Con_write [newline])]"]
  by (simp add: status_bar_call_def del: con_run_simps)

subsection \<open>Printing text\<close>

definition printable :: "string \<Rightarrow> bool" where
  "printable s \<longleftrightarrow> newline \<notin> set s \<and> carriage_return \<notin> set s \<and> backspace \<notin> set s"

lemma printable_simps [simp]:
  "printable []"
  "printable (c # s) \<longleftrightarrow> c \<noteq> newline \<and> c \<noteq> carriage_return \<and> c \<noteq> backspace \<and> printable s"
  by (auto simp: printable_def)

lemma console_putc_char:
  assumes "c \<noteq> newline" "c \<noteq> carriage_return" "c \<noteq> backspace" "console_row st \<le> 23" "console_col st < 80"
  shows "console_row (console_putc c st) = console_row st"
    "console_col (console_putc c st) = console_col st + 1"
    "console_color (console_putc c st) = console_color st"
    "vga_buffer (console_putc c st) =
       (vga_buffer st)(console_row st * 80 + console_col st := vga_entry c (console_color st))"
proof -
  have "console_putc c st = vga_set_hw_cursor (console_row st) (console_col st + 1)
      ((console_put_at c (console_col st) (console_row st) st)\<lparr>console_col := console_col st + 1\<rparr>)"
    using assms by (simp add: console_putc_def VGA_WIDTH_def VGA_HEIGHT_def)
  then show "console_row (console_putc c st) = console_row st"
    "console_col (console_putc c st) = console_col st + 1"
    "console_color (console_putc c st) = console_color st"
    "vga_buffer (console_putc c st) =
       (vga_buffer st)(console_row st * 80 + console_col st := vga_entry c (console_color st))"
    using assms by (simp_all add: fun_eq_iff put_at_cells)
qed

lemma console_write_text:
  assumes "printable s" "console_row st \<le> 23" "console_col st + length s \<le> 80"
  shows "console_row (console_write_str s st) = console_row st"
    "console_col (console_write_str s st) = console_col st + length s"
    "console_color (console_write_str s st) = console_color st"
    "vga_buffer (console_write_str s st) i =
       (let p = console_row st * 80 + console_col st
        in if p \<le> i \<and> i < p + length s then vga_entry (s ! (i - p)) (console_color st)
           else vga_buffer st i)"
proof -
  have "console_row (console_write_str s st) = console_row st \<and>
    console_col (console_write_str s st) = console_col st + length s \<and>
    console_color (console_write_str s st) = console_color st \<and>
    vga_buffer (console_write_str s st) i =
       (let p = console_row st * 80 + console_col st
        in if p \<le> i \<and> i < p + length s then vga_entry (s ! (i - p)) (console_color st)
           else vga_buffer st i)"
    using assms
  proof (induction s arbitrary: st)
    case (Cons c s)
    then have c: "c \<noteq> newline" "c \<noteq> carriage_return" "c \<noteq> backspace" "console_row st \<le> 23" "console_col st < 80"
      by auto
    note put = console_putc_char [OF c]
    have "printable s" "console_row (console_putc c st) \<le> 23" "console_col (console_putc c st) + length s \<le> 80"
      using Cons.prems by (auto simp: put)
    from Cons.IH [OF this] show ?case
      by (auto simp: put Let_def nth_Cons' not_le)
  qed (auto simp: Let_def)
  then show "console_row (console_write_str s st) = console_row st"
    "console_col (console_write_str s st) = console_col st + length s"
    "console_color (console_write_str s st) = console_color st"
    "vga_buffer (console_write_str s st) i =
       (let p = console_row st * 80 + console_col st
        in if p \<le> i \<and> i < p + length s then vga_entry (s ! (i - p)) (console_color st)
           else vga_buffer st i)"
    by blast+
qed

text \<open>
  C29: Printing a line, a text without control characters that fits into what is left of the
  row, and its newline on the console of a file: the characters appear
  from the file's position on in its colour and the rest of the row is blanked, everything
  else on the screen stays; the position moves to the start of the next row. In the last
  content row the 24 content rows scroll up by one instead, the text ends in the row above
  the new blank one, and the position keeps its row.
\<close>

theorem console_line_spec:
  assumes "con_ok st" "printable s" "console_col st + length s \<le> 80"
    "p = console_row st * 80 + console_col st" "e = console_row st * 80 + 80"
    "line = (\<lambda>i. if p \<le> i \<and> i < p + length s then vga_entry (s ! (i - p)) (console_color st)
       else if p \<le> i \<and> i < e then vga_entry (CHR '' '') (console_color st) else vga_buffer st i)"
    "st' = console_write_str (s @ [newline]) st"
  shows "console_col st' = 0 \<and>
    (if console_row st < 23 then console_row st' = console_row st + 1 \<and> vga_buffer st' = line
     else console_row st' = 23 \<and> (\<forall>i < 1840. vga_buffer st' i = line (i + 80)) \<and>
       (\<forall>i < 80. vga_buffer st' (1840 + i) = vga_entry (CHR '' '') (console_color st)) \<and>
       (\<forall>i \<ge> 1920. vga_buffer st' i = vga_buffer st i))"
proof -
  let ?s = "console_write_str s st"
  have row: "console_row st \<le> 23" using assms(1) by (simp add: con_ok_def)
  have app: "console_write_str (s @ t) st = console_write_str t (console_write_str s st)" for s t st
    by (induction s arbitrary: st) auto
  have w: "console_row ?s = console_row st" "console_col ?s = console_col st + length s"
    "console_color ?s = console_color st" by (rule console_write_text [OF assms(2) row assms(3)])+
  have cells: "vga_buffer ?s i = (if p \<le> i \<and> i < p + length s
      then vga_entry (s ! (i - p)) (console_color st) else vga_buffer st i)" for i
    using console_write_text(4) [OF assms(2) row assms(3), of i] assms(4) by (simp add: Let_def)
  have st': "st' = console_putc newline ?s" by (simp add: assms(7) app)
  have line: "vga_buffer (console_clear_to_eol ?s) = line"
    using assms(3-6) by (auto simp: fun_eq_iff clear_to_eol_cells w cells)
  let ?n = "(console_clear_to_eol ?s)\<lparr>console_col := 0, console_row := console_row st + 1\<rparr>"
  have eq: "st' = vga_set_hw_cursor (console_row (console_scroll ?n)) (console_col (console_scroll ?n)) (console_scroll ?n)"
    by (simp add: st' console_putc_def Let_def clear_to_eol_fields w)
  show ?thesis
  proof (cases "console_row st < 23")
    case True
    then show ?thesis using line by (auto simp: eq console_scroll_fields console_scroll_cells fun_eq_iff)
  next
    case False
    with row have "console_row st = 23" by simp
    moreover from this have "line i = vga_buffer st i" if "i \<ge> 1920" for i
      using that assms(3-6) by simp
    ultimately show ?thesis using line
      by (auto simp: eq console_scroll_fields console_scroll_cells clear_to_eol_fields w)
  qed
qed

text \<open>A concrete console: cleared, in the position and colour of the boot.\<close>

definition con_st0 :: con_st where
  "con_st0 = console_clear \<lparr>vga_buffer = (\<lambda>_. 0), crtc_index = 0, crtc_regs = (\<lambda>_. 0),
     console_row = 0, console_col = 0, console_color = 0x07\<rparr>"

lemma con_st0_ok: "con_ok con_st0" "console_row con_st0 = 0" "console_col con_st0 = 0"
  by (simp_all add: con_ok_def con_st0_def)

theorem console_line_spec_witness:
  "console_row (console_write_str (''Hypnos'' @ [newline]) con_st0) = 1"
  using console_line_spec [OF con_st0_ok(1), of "''Hypnos''", OF _ _ refl refl refl refl]
  by (simp add: con_st0_ok)

text \<open>
  The positions of two files are not kept in step, although the comment of the header says
  so: when two files stand at the same position and each prints a string, the second string is
  stored over the first, from the same cell on, and not after it where the hardware cursor
  stands.
\<close>

theorem console_files_overwrite:
  assumes "f \<noteq> g" "printable s" "printable t" "r \<le> 23" "c + length s \<le> 80" "c + length t \<le> 80"
    "tv_row (statics w f) = r" "tv_col (statics w f) = c" "tv_row (statics w g) = r"
    "tv_col (statics w g) = c" "p = r * 80 + c"
  shows "vga_buffer (con_run [(f, Con_write s), (g, Con_write t)] w) i =
     (if p \<le> i \<and> i < p + length t then vga_entry (t ! (i - p)) (tv_color (statics w g))
      else if p \<le> i \<and> i < p + length s then vga_entry (s ! (i - p)) (tv_color (statics w f))
      else vga_buffer w i)"
proof -
  have cell: "vga_buffer (con_step (h, Con_write u) v) i =
      (if p \<le> i \<and> i < p + length u then vga_entry (u ! (i - p)) (tv_color (statics v h)) else vga_buffer v i)"
    if "printable u" "c + length u \<le> 80" "tv_row (statics v h) = r" "tv_col (statics v h) = c" for h u v
    using console_write_text(4) [OF that(1), of "con_view h v" i] that assms(4,11)
    by (simp add: con_step_def con_store_def con_view_def Let_def)
  have "statics (con_step (f, Con_write s) w) g = statics w g"
    using assms(1) by (simp add: con_step_def con_store_def)
  then show ?thesis using assms by (simp add: cell)
qed

theorem console_files_overwrite_witness:
  "vga_buffer (con_run [(Security_c, Con_write ''Logged in''), (Shell_c, Con_write ''root'')]
     (con_world0 (\<lambda>_. 0) (\<lambda>_. 0))) 0 = vga_entry (CHR ''r'') 7"
  using console_files_overwrite [of Security_c Shell_c "''Logged in''" "''root''" 0 0
      "con_world0 (\<lambda>_. 0) (\<lambda>_. 0)" 0 0]
  by (simp add: con_world0_def)

end
