(* ===== verification/Uncalled.thy ===== *)
theory Uncalled
  imports Shell_Safe Sched Console
begin

text \<open>
  Functions of the repository that nothing calls: the versions of five commands in
  \<open>kernel/shell/shell.c\<close> that \<open>shell_execute\<close> carries out in its own branches, without the check
  of the permission and without a line in the log, and in \<open>kernel/kernel_main.c\<close> a second task
  and an animation.
\<close>

subsection \<open>Commands\<close>

definition cmd_snap_create :: "string option \<Rightarrow> ('d, 'a) shell_st_scheme \<Rightarrow> ('d, 'a) shell_st_scheme option" where
  "cmd_snap_create name st =
     (if name = None \<or> name = Some [] then Some (sh_line ''Usage: snap-create <name>'' st)
      else do { (r, st) \<leftarrow> fs_snap_create name st;
                Some (if r = 0 then sh_line ''Snapshot created.'' st
                      else sh_line ''snap-create: error (maybe name exists?).'' st) })"

definition cmd_snap_restore :: "string option \<Rightarrow> ('d, 'a) shell_st_scheme \<Rightarrow> ('d, 'a) shell_st_scheme option" where
  "cmd_snap_restore name st =
     (if name = None \<or> name = Some [] then Some (sh_line ''Usage: snap-restore <name>'' st)
      else do { (r, st) \<leftarrow> fs_snap_restore name st;
                if r = 0
                then do { let st = sh_write ''CWD is now '' (sh_line ''Snapshot restored.'' st);
                          cwd \<leftarrow> fs_getcwd st;
                          Some (sh_line [] (sh_write cwd st)) }
                else Some (sh_line ''snap-restore: no such snapshot.'' st) })"

definition cmd_mkdir :: "string option \<Rightarrow> ('d, 'a) shell_st_scheme \<Rightarrow> ('d, 'a) shell_st_scheme option" where
  "cmd_mkdir name st =
     (if name = None \<or> name = Some [] then Some (sh_line ''Usage: mkdir <name>'' st)
      else do { (r, st) \<leftarrow> fs_mkdir name st;
                Some (if r = 0 then sh_line ''Directory created.'' st else sh_line ''mkdir: error.'' st) })"

definition cmd_write ::
  "string option \<Rightarrow> string option \<Rightarrow> ('d, 'a) shell_st_scheme \<Rightarrow> ('d, 'a) shell_st_scheme option" where
  "cmd_write name data st =
     do { (r, st) \<leftarrow> fs_write name data st;
          Some (if r = 0 then sh_line ''File written.'' st else sh_line ''write: error.'' st) }"

definition cmd_cat :: "string option \<Rightarrow> ('d, 'a) shell_st_scheme \<Rightarrow> ('d, 'a) shell_st_scheme option" where
  "cmd_cat name st =
     (if name = None \<or> name = Some [] then Some (sh_line ''Usage: cat <name>'' st)
      else do { (p, st) \<leftarrow> fs_read name st;
                if p = NULL then Some (sh_line ''cat: no such file or empty.'' st)
                else do { cs \<leftarrow> buf_string p st; Some (sh_line [] (sh_write cs st)) } })"

text \<open>They too return with the invariant of the shell, whatever their arguments.\<close>

lemma uncalled_commands_safe:
  assumes ok: "shell_ok N D st" and a: "\<And>s. arg = Some s \<Longrightarrow> cstring s"
  shows "runs (cmd_snap_create arg st) (shell_ok N D)" "runs (cmd_snap_restore arg st) (shell_ok N D)"
    "runs (cmd_mkdir arg st) (shell_ok N D)" "runs (cmd_cat arg st) (shell_ok N D)"
proof -
  note i = shell_okD(1) [OF ok]
  have "runs (cmd_snap_create (Some s) st) (shell_ok N D)" "runs (cmd_snap_restore (Some s) st) (shell_ok N D)"
    "runs (cmd_mkdir (Some s) st) (shell_ok N D)" "runs (cmd_cat (Some s) st) (shell_ok N D)" if c: "cstring s" for s
  proof -
    have pwd: "runs (fs_getcwd t \<bind> (\<lambda>cwd. Some (sh_line [] (sh_write cwd t)))) (shell_ok N D)"
      if t: "shell_ok N D t" for t :: "('a, 'b) shell_st_scheme"
    proof -
      obtain cwd where "fs_getcwd t = Some cwd" using fs_getcwd_total [OF shell_okD(1) [OF t]] by blast
      then show ?thesis using t by simp
    qed
    show "runs (cmd_snap_create (Some s) st) (shell_ok N D)"
      using ok by (auto simp: cmd_snap_create_def intro!: runs_keeps [OF fs_snap_create_keeps [OF i c] ok])
    show "runs (cmd_snap_restore (Some s) st) (shell_ok N D)"
      using ok by (auto simp: cmd_snap_restore_def Let_def intro!: pwd [simplified] runs_keeps [OF fs_snap_restore_keeps [OF i c] ok])
    show "runs (cmd_mkdir (Some s) st) (shell_ok N D)"
      using ok by (auto simp: cmd_mkdir_def intro!: runs_keeps [OF fs_mkdir_keeps [OF i c] ok])
    show "runs (cmd_cat (Some s) st) (shell_ok N D)"
      using ok by (auto simp: cmd_cat_def intro!: runs_read [OF ok c])
  qed
  then show "runs (cmd_snap_create arg st) (shell_ok N D)" "runs (cmd_snap_restore arg st) (shell_ok N D)"
    "runs (cmd_mkdir arg st) (shell_ok N D)" "runs (cmd_cat arg st) (shell_ok N D)"
    using a ok by (cases arg; simp add: cmd_snap_create_def cmd_snap_restore_def cmd_mkdir_def cmd_cat_def)+
qed

lemma uncalled_write_safe:
  assumes "shell_ok N D st" "cstring name" "data_fits data"
  shows "runs (cmd_write (Some name) (Some data) st) (shell_ok N D)"
  unfolding cmd_write_def
  by (rule runs_keeps [OF fs_write_keeps [OF shell_okD(1) [OF assms(1)] assms(2,3)] assms(1)]) auto

subsection \<open>The animation and the second task\<close>

definition loading_animation :: "string \<Rightarrow> 'a out_st_scheme \<Rightarrow> 'a out_st_scheme" where
  "loading_animation msg st =
     console_write Kernel_main_c [newline]
       (fold (\<lambda>i. console_write Kernel_main_c ''.'') [0..<3] (console_write Kernel_main_c msg st))"

text \<open>One round of the endless loop of \<open>demo_task\<close>; \<open>x\<close> is its column.\<close>

definition demo_round :: "nat \<times> ('d, 'a) task_st_scheme \<Rightarrow> (nat \<times> ('d, 'a) task_st_scheme) option" where
  "demo_round = (\<lambda>(x, st). do {
     let y = 10;
     let st = con_call Kernel_main_c (Con_set_color 2 0) st;
     let st = con_call Kernel_main_c (Con_put_at (CHR ''.'') x y) st;
     let x = x + 1;
     let (x, st) = (if x \<ge> VGA_WIDTH
           then (0, fold (\<lambda>i. con_call Kernel_main_c (Con_put_at (CHR '' '') i y)) [0..<VGA_WIDTH] st)
           else (x, st));
     let st = theme_default Kernel_main_c st;
     st \<leftarrow> task_yield st;
     Some (x, st)
   })"

text \<open>
  A round on a ring of tasks leaves the ring intact, hands the processor to the next task and
  moves the column within the width of the screen.
\<close>

lemma demo_round_ring:
  assumes "ring xs st" "i < length xs" "current_task st = xs ! i" "x < VGA_WIDTH"
  shows "\<exists>st'. demo_round (x, st) = Some (Suc x mod VGA_WIDTH, st') \<and> ring xs st' \<and>
    current_task st' = xs ! (Suc i mod length xs)"
proof -
  have cur: "current_task (con_call f c s) = current_task s" for f c and s :: "('a, 'b) task_st_scheme"
    by (simp add: con_call_def)
  have clear: "ring xs (fold (\<lambda>i. con_call f (g i)) js s) = ring xs s \<and>
      current_task (fold (\<lambda>i. con_call f (g i)) js s) = current_task s" for f g and js :: "nat list"
      and s :: "('a, 'b) task_st_scheme"
    by (induction js arbitrary: s) (simp_all add: cur)
  have yield: "\<exists>st'. task_yield s = Some st' \<and> ring xs st' \<and> current_task st' = xs ! (Suc i mod length xs)"
    if "ring xs s" "current_task s = xs ! i" for s :: "('a, 'b) task_st_scheme"
    using task_yield_ring [OF that(1) assms(2) that(2)] by metis
  define s where "s = con_call Kernel_main_c (Con_put_at (CHR ''.'') x 10) (con_call Kernel_main_c (Con_set_color 2 0) st)"
  define t where "t = theme_default Kernel_main_c (if Suc x \<ge> VGA_WIDTH
    then fold (\<lambda>i. con_call Kernel_main_c (Con_put_at (CHR '' '') i 10)) [0..<VGA_WIDTH] s else s)"
  have "ring xs t" "current_task t = xs ! i"
    using assms(1,3) clear by (simp_all add: t_def s_def theme_default_def cur)
  then obtain st' where "task_yield t = Some st'" "ring xs st'" "current_task st' = xs ! (Suc i mod length xs)"
    using yield by blast
  moreover have "demo_round (x, st) = task_yield t \<bind> (\<lambda>s. Some (Suc x mod VGA_WIDTH, s))"
    using assms(4) by (cases "x = 79") (simp_all add: demo_round_def t_def s_def Let_def VGA_WIDTH_def)
  ultimately show ?thesis by simp
qed

end
