(* ===== verification/User.thy ===== *)
theory User
  imports Syscall
begin

text \<open>
  The user program, \<open>kernel/user/user_program.c\<close>, and its side of the system calls,
  \<open>kernel/user/syscall.h\<close>. \<open>int $0x80\<close> goes through the gate that \<open>syscall_init\<close> sets and the stub
  \<open>isr80_syscall\<close>, which passes the four registers to \<open>syscall_handler\<close> and hands its result
  back; the strings of the program are in the memory \<open>mem\<close>, at the addresses \<open>hello\<close> and \<open>dot\<close>.
  The shell's command \<open>runuser\<close> starts the program (theory \<open>Irq_Safe\<close> has the interrupt that does).
\<close>

definition sys_call3 ::
  "(ptr \<Rightarrow> string option) \<Rightarrow> u32 \<Rightarrow> u32 \<Rightarrow> u32 \<Rightarrow> u32 \<Rightarrow> 'a tick_st_scheme \<Rightarrow> (u32 \<times> 'a tick_st_scheme) option"
  where
  "sys_call3 mem num a1 a2 a3 st = syscall_handler mem num a1 a2 a3 st"

definition sys_puts :: "(ptr \<Rightarrow> string option) \<Rightarrow> ptr \<Rightarrow> 'a tick_st_scheme \<Rightarrow> 'a tick_st_scheme option" where
  "sys_puts mem s st = do {
     (_, st) \<leftarrow> sys_call3 mem SYS_PUTS s 0 0 st;
     Some st
   }"

definition sys_get_ticks :: "(ptr \<Rightarrow> string option) \<Rightarrow> 'a tick_st_scheme \<Rightarrow> (u32 \<times> 'a tick_st_scheme) option" where
  "sys_get_ticks mem st = sys_call3 mem SYS_GET_TICKS 0 0 0 st"

text \<open>The endless loop of the program. The delay between two dots counts a local variable.\<close>

partial_function (option) program_loop :: "(ptr \<Rightarrow> string option) \<Rightarrow> ptr \<Rightarrow> 'a tick_st_scheme \<Rightarrow> 'a tick_st_scheme option"
  where
  "program_loop mem dot st = do {
     st \<leftarrow> sys_puts mem dot st;
     program_loop mem dot st
   }"

definition user_program_main ::
  "(ptr \<Rightarrow> string option) \<Rightarrow> ptr \<Rightarrow> ptr \<Rightarrow> 'a tick_st_scheme \<Rightarrow> 'a tick_st_scheme option" where
  "user_program_main mem hello dot st = do {
     st \<leftarrow> sys_puts mem hello st;
     program_loop mem dot st
   }"

text \<open>The loop never ends; what it does is seen after any number of rounds.\<close>

fun user_rounds :: "nat \<Rightarrow> (ptr \<Rightarrow> string option) \<Rightarrow> ptr \<Rightarrow> 'a tick_st_scheme \<Rightarrow> 'a tick_st_scheme option" where
  "user_rounds 0 mem dot st = Some st"
| "user_rounds (Suc n) mem dot st = sys_puts mem dot st \<bind> user_rounds n mem dot"

lemma program_loop_endless: "program_loop mem dot st = None"
proof -
  have "program_loop mem dot st = Some r \<Longrightarrow> False" for r
  proof (induction rule: program_loop.raw_induct [rotated, consumes 1])
    case (1 loop mem dot st r)
    then show ?case by (auto elim!: bind_SomeE)
  qed
  then show ?thesis by (cases "program_loop mem dot st") auto
qed

lemma program_loop_rounds: "user_rounds n mem dot st = Some st' \<Longrightarrow> program_loop mem dot st = program_loop mem dot st'"
proof (induction n arbitrary: st)
  case (Suc n)
  then obtain s where "sys_puts mem dot st = Some s" "user_rounds n mem dot s = Some st'" by (auto elim!: bind_SomeE)
  then show ?case using Suc.IH by (subst program_loop.simps) simp
qed simp

lemma sys_puts_prints:
  assumes "p \<noteq> NULL" "mem p = Some s"
  shows "\<exists>st'. sys_puts mem p st = Some st' \<and> con_only st st' \<and> putcs (con_out st') = putcs (con_out st) @ s"
  using assms by (simp add: sys_puts_def sys_call3_def syscall_handler_def SYS_PUTS_def)

text \<open>
  The user program runs in the kernel without end: \<open>user_program_main\<close> never returns, no
  system call of it fails, it prints its greeting and, after \<open>n\<close> rounds of its loop, \<open>n\<close> dots,
  and it changes nothing else of the state of the kernel.
\<close>

theorem user_program_runs:
  assumes "hello \<noteq> NULL" "mem hello = Some (''[USER] Hello...'' @ [newline])" "dot \<noteq> NULL" "mem dot = Some ''.''"
  shows "user_program_main mem hello dot st = None \<and>
    (\<exists>st'. sys_puts mem hello st \<bind> user_rounds n mem dot = Some st' \<and> con_only st st' \<and>
      putcs (con_out st') = putcs (con_out st) @ ''[USER] Hello...'' @ [newline] @ replicate n (CHR ''.''))"
proof -
  have rounds: "\<exists>st'. user_rounds n mem dot s = Some st' \<and> con_only s st' \<and>
      putcs (con_out st') = putcs (con_out s) @ replicate n (CHR ''.'')" for s :: "'a tick_st_scheme" and n
  proof (induction n arbitrary: s)
    case (Suc n)
    obtain t where t: "sys_puts mem dot s = Some t" "con_only s t" "putcs (con_out t) = putcs (con_out s) @ ''.''"
      using sys_puts_prints [of dot mem "''.''" s] assms(3,4) by blast
    show ?case using Suc.IH [of t] t con_only_trans [OF t(2)] by auto
  qed (simp add: con_only_def)
  obtain s where s: "sys_puts mem hello st = Some s" "con_only st s"
    "putcs (con_out s) = putcs (con_out st) @ ''[USER] Hello...'' @ [newline]"
    using sys_puts_prints [of hello mem "''[USER] Hello...'' @ [newline]" st] assms(1,2) by auto
  obtain t where t: "user_rounds n mem dot s = Some t" "con_only s t"
    "putcs (con_out t) = putcs (con_out s) @ replicate n (CHR ''.'')"
    using rounds by blast
  show ?thesis
    using s t con_only_trans [OF s(2) t(2)] by (simp add: user_program_main_def program_loop_endless)
qed

definition user_mem :: "ptr \<Rightarrow> string option" where
  "user_mem = [0x400000 \<mapsto> ''[USER] Hello...'' @ [newline], 0x400020 \<mapsto> ''.'']"

theorem user_program_runs_witness:
  "\<exists>st'. sys_puts user_mem 0x400000 (cpu_st.extend cpu_st0 \<lparr>timer_ticks = 5\<rparr>) \<bind> user_rounds 3 user_mem 0x400020 = Some st' \<and>
     con_only (cpu_st.extend cpu_st0 \<lparr>timer_ticks = 5\<rparr>) st'"
  using user_program_runs [of "0x400000" user_mem "0x400020" "cpu_st.extend cpu_st0 \<lparr>timer_ticks = 5\<rparr>" 3]
  by (auto simp: user_mem_def)

end
