(* ===== verification/Spec2Isabelle.thy ===== *)
theory Spec2Isabelle
  imports Kernel_Run Uncalled User Console Log
begin

text \<open>
  A verification development for Hypnos, a 32-bit x86 kernel in C. File names below are relative
  to \<open>src/kernel/\<close>.

  \<^bold>\<open>The program.\<close> The loader enters \<open>kernel_main\<close> (\<open>kernel_main.c\<close>), which sets up the descriptor
  and interrupt tables (\<open>arch/i386/cpu\<close>), paging, the frame allocator and the heap
  (\<open>arch/i386/mm\<close>), the users (\<open>security.c\<close>), the file encryption and the disk, the file system
  (\<open>fs\<close>, \<open>fs_bootstrap.c\<close>) and the drivers (\<open>arch/i386/drivers\<close>), and starts the scheduler
  (\<open>sched/task.c\<close>) with one task, the shell (\<open>shell\<close>). The shell prints a prompt and waits; from
  then on the kernel runs in the handlers of its interrupts. A tick of the timer redraws the
  status bar. A key goes to the line editor of the shell or to the text editor, and Enter runs a
  command inside the handler. The commands work on the file system, which lives on the heap, on
  the users, the log (\<open>log.c\<close>) and the disk. Everything prints through \<open>console.h\<close>.

  \<^bold>\<open>How C is modelled.\<close> An operation is a function on the state of its component, a record. The
  records extend one another in the order output, log, frames, page tables, heap, encryption,
  file system, users, processor, clock, device, editor, shell, keyboard, tasks, and an operation
  is polymorphic in what comes above its own record, so the operations compose as the code
  composes them, and what a component does not touch is preserved by its type. Words have the
  width of the code's integers. The result type \<open>option\<close> is for undefined behaviour (an access
  outside an object, a division by zero) and for loops that do not end, so every statement that
  an operation equals \<open>Some\<close> says that it returns and does not fault; return codes are values. A
  loop whose bound is an index is \<open>fun\<close> or \<open>function\<close>, a loop over the links of the heap or over
  the status of a device is \<open>partial_function (option)\<close>, and the termination is then a theorem
  under the invariant. No fuel is used. The calls of the console are recorded with the file that
  makes them (\<open>Output\<close>), because \<open>console.h\<close> gives every file its own cursor; \<open>Console\<close> says what
  such a trace does to the screen.

  \<^bold>\<open>The theories.\<close>
  \<^item> \<open>Hypnos_Prelude\<close>: types, the collections of theorems, facts on options, lists and words,
    \<open>runs m Q\<close> (the operation returns, in a state with \<open>Q\<close>). \<open>CString\<close>: the string routines of
    \<open>fs.c\<close>, \<open>log.c\<close> and \<open>security.c\<close>, on memory and on values, with the refinement. \<open>Decimal\<close>:
    printing and reading of numbers in \<open>syscall.c\<close>, \<open>isr.c\<close>, \<open>kernel_main.c\<close> and \<open>shell.c\<close>.
  \<^item> \<open>Output\<close>: the trace of console calls and \<open>drivers/debugcon.c\<close>. \<open>Console\<close>: \<open>console.h\<close> on video
    memory; no store leaves the 80 by 25 cells, and a line appears where it is written. \<open>Log\<close>:
    \<open>log.c\<close> refines a list of the last 128 lines.
  \<^item> \<open>Physmem\<close>, \<open>Paging\<close>, \<open>Kmalloc\<close>: \<open>physmem.c\<close>, \<open>paging.c\<close>, \<open>kmalloc.c\<close>. A frame is not handed out
    twice, \<open>paging_init\<close> maps 2 GB to itself and \<open>paging_map\<close> changes one page of the
    translation, heap blocks are disjoint; and where the bound check of the heap wraps.
    The locales \<open>frame_store\<close> and \<open>bump_allocator\<close> state what their clients use.
  \<^item> \<open>Crypto\<close>: \<open>fs/crypto.c\<close>; the contents of files rest on the locale \<open>cipher\<close>, a round trip of the
    length of the text.
  \<^item> \<open>Fs\<close>: every function of \<open>fs/fs.c\<close>. \<open>Fs_Inv\<close>: the invariant \<open>fs_inv\<close>. \<open>Fs_Path\<close>: paths and
    lookup. \<open>Fs_Ops\<close>, \<open>Fs_Files\<close>, \<open>Fs_Content\<close>, \<open>Fs_Remove\<close>: the operations and their effect on
    every lookup and content. \<open>Fs_Walk\<close>, \<open>Fs_Find\<close>: the traversals and the path buffer of the
    search. \<open>Fs_Abs\<close>: refinement of a map from paths to files by any sequence of calls.
    \<open>Fs_Snap\<close>: the snapshots, out of memory included. \<open>Fs_Safe\<close>: all operations, in any order,
    return and keep \<open>fs_inv\<close>.
  \<^item> \<open>Security\<close>: \<open>security.c\<close> refines a table of users; what guest may do.
  \<^item> \<open>Cpu\<close>: \<open>gdt.c\<close>, \<open>idt.c\<close>, \<open>irq.c\<close>, \<open>isr.c\<close>; what the processor reads from the tables, and what
    an exception prints. \<open>Syscall\<close>: \<open>syscall.c\<close>, the counter of \<open>timer.c\<close>, and the gates after
    the boot. \<open>User\<close>: \<open>user/user_program.c\<close>, \<open>user/syscall.h\<close>.
  \<^item> \<open>Blockdev\<close>: \<open>fs/blockdev.c\<close>, \<open>fs/ramdisk.c\<close>, and the locale \<open>block_dev\<close>, the contract of a
    disk. \<open>Ata\<close>: \<open>drivers/ata_pio.c\<close> over the locale \<open>ata_disk\<close>, the laws of a drive under
    programmed input and output; every such drive is a \<open>block_dev\<close>, and a concrete one
    interprets it. After the last word of a write a drive is busy (\<open>Busy\<close>) until it has been left
    alone (\<open>settle\<close>); the laws promise nothing about a command before that, and on the concrete
    drive the driver then hangs (\<open>ata_busy_hangs\<close>).
  \<^item> \<open>Editor\<close>, \<open>Shell\<close>: \<open>shell/editor.c\<close>, \<open>shell/shell.c\<close>. \<open>Shell_Session\<close>: what a session of the
    editor saves, what the permissions stop, transfers to the disk. \<open>Shell_Safe\<close>: the invariant
    \<open>shell_ok\<close> of everything the shell works on, kept by every command. \<open>Interrupts\<close>:
    \<open>drivers/keyboard.c\<close>, the callback of \<open>timer.c\<close>, the dispatch. \<open>Irq_Safe\<close>: \<open>shell_ok\<close> is kept
    by every sequence of interrupts, and every handler returns unless \<open>panic\<close>, \<open>exit\<close> or \<open>runuser\<close>
    is entered. An \<open>event\<close> there is an interrupt or time enough for the disk to settle.
  \<^item> \<open>Sched\<close>: \<open>sched/task.c\<close>, the ring of tasks and its round robin. \<open>Boot\<close>: \<open>fs_bootstrap.c\<close>.
    \<open>Kernel_Main\<close>: \<open>kernel_main.c\<close>, the boot returns and what it sets up. \<open>Kernel_Run\<close>: boot, shell
    and interrupts together. \<open>Uncalled\<close>: functions that nothing calls.

  \<^bold>\<open>How the parts meet.\<close> \<open>kernel_runs\<close> puts them together. From the memory that the loader leaves
  (\<open>cold\<close>, \<open>quiet\<close>) the boot steps are followed with three predicates: \<open>at_boot\<close> (nothing above
  the processor changed), \<open>before_fs\<close> and \<open>booted\<close>; the frames \<open>same_upper\<close>, \<open>outside\<close> and \<open>lower\<close>
  say what a step leaves alone. \<open>shell_ok\<close> follows from \<open>booted\<close>, with the driver's contract for
  the disk, and is then the invariant of the interrupts (\<open>events_handled\<close>). The refinement of the file system
  (\<open>fs_rep\<close>) gives the files after the boot.

  \<^bold>\<open>Bounds.\<close> The boot needs 1130 bytes of heap for the first files and 8000 bytes remain for the
  first task (\<open>room\<close>). A file holds less than 4 GB less 1 MB (\<open>data_fits\<close>), so that the size and the
  terminator do not wrap; the heap has 1 MB, so a larger file is never stored. The kernel image
  ends below 2 GB. A transfer has at most 255 sectors, the length of one command.

  \<^bold>\<open>Where the code fails.\<close> The hypotheses of the safety theorems name it: \<open>mv\<close> of a directory
  below itself (\<open>fs_rename_into_itself\<close>), \<open>find\<close> with a path of 128 characters or more
  (\<open>fs_find_overflows\<close>), \<open>edit\<close> of a name that is no file name (\<open>fs_write_cwd_long_name\<close>), a
  transfer beyond the end of the drive or right after the one before, because the driver polls
  without limit (\<open>ata_hangs_without_drive\<close>) and does not wait before it sends a command
  (\<open>ata_busy_hangs\<close>). Others are theorems of their own: an existing file cannot be
  written or touched (\<open>fs_write_existing_fails\<close>), a snapshot changes after it was restored
  (\<open>snapshot_overwritten\<close>), \<open>touch\<close> and \<open>cp\<close> do not ask for the right to write
  (\<open>shell_touch_unchecked\<close>), \<open>runuser\<close> leaves the keyboard unacknowledged
  (\<open>runuser_not_acknowledged\<close>), the frame allocator does not know of the heap
  (\<open>phys_init_leaves_heap_free\<close>), and the wrap-around in \<open>kmalloc_wraps\<close>, \<open>ramdisk_lba_wraps\<close> and
  the limit of \<open>gdt_init_segments\<close>.

  \<^bold>\<open>Not modelled.\<close> The assembly (\<open>*.S\<close>: the entry stubs, the switch of the context, the jump to
  ring 3) is not C: its effects are recorded in the state (\<open>switches\<close>, \<open>started\<close>, \<open>cpu_loads\<close>) or
  are an \<open>outcome\<close>, and the addresses it defines are parameters, as are those of the linker, the
  masks that the interrupt controllers return, the scancode of a key and the ports of the disk. A
  handler is not interrupted: the stubs disable interrupts on entry. Interrupts that arrive
  between the \<open>sti\<close> of \<open>kernel_main\<close> and the end of the first task's set-up are not modelled.
  What \<open>cmd_exit\<close> does after its message (\<open>cli\<close>, a write to the port of the emulator, the endless
  halt) is the outcome \<open>Halted\<close> only. \<open>cpu/tss.c\<close> is not part of
  the build. \<open>user/map_user_pages.c\<close> is a comment from its first line to its last. Endless loops
  of \<open>hlt\<close> end the model of their function.
\<close>

end
